(* ===== verification/Prelude.thy ===== *)
theory Prelude
  imports Main "HOL-Library.Word" "HOL-Library.List_Lexorder" "HOL-Library.Char_ord"
begin

text \<open>
  Shared ground of the development: the faults of the C++ code and the result
  type that carries them, C string reads, the linear order of
  \<^verbatim>\<open>std::string\<close> (lexicographic on unsigned bytes), and the
  collections of rewrite rules the component theories add to.
\<close>

subsection \<open>Rule collections\<close>

named_theorems fault_simps \<open>unfolding the result type of faulting code\<close>
named_theorems oset_simps \<open>the ordered string set seen through \<open>set\<close>\<close>

subsection \<open>Faults\<close>

text \<open>
  What the C++ code can run into besides returning: a failed \<open>assert\<close>, the
  dereference of an empty \<open>std::optional\<close>, a read past the end of a container or
  string (\<open>back()\<close> of an empty vector, \<open>*(end() - 1)\<close> of an empty string, an
  index out of range), and the construction of a string from a null pointer. The last
  three are undefined behaviour in C++; here each is a value.
\<close>

datatype fault = Assert_Failed | Null_Optional | Out_Of_Range | Null_Pointer

type_synonym 'a result = "fault + 'a"

fun bind_result :: "'a result \<Rightarrow> ('a \<Rightarrow> 'b result) \<Rightarrow> 'b result" where
  "bind_result (Inl e) f = Inl e"
| "bind_result (Inr a) f = f a"

definition ok_result :: "'a result \<Rightarrow> bool" where
  "ok_result r \<longleftrightarrow> (case r of Inl _ \<Rightarrow> False | Inr _ \<Rightarrow> True)"

lemma ok_result_simps [simp, fault_simps]:
  "ok_result (Inl e) = False" "ok_result (Inr a) = True"
  by (simp_all add: ok_result_def)

lemma bind_result_Inr [fault_simps]:
  "bind_result r f = Inr b \<longleftrightarrow> (\<exists>a. r = Inr a \<and> f a = Inr b)"
  by (cases r) simp_all

lemma ok_bind_result [fault_simps]:
  "ok_result (bind_result r f) \<longleftrightarrow> (\<exists>a. r = Inr a \<and> ok_result (f a))"
  by (cases r) simp_all

lemma ok_result_conv: "ok_result r \<longleftrightarrow> (\<exists>a. r = Inr a)"
  by (cases r) simp_all

text \<open>\<open>*o\<close> on a \<open>std::optional\<close>, and \<open>assert\<close>.\<close>

definition deref :: "'a option \<Rightarrow> 'a result" where
  "deref x = (case x of None \<Rightarrow> Inl Null_Optional | Some a \<Rightarrow> Inr a)"

definition cassert :: "bool \<Rightarrow> unit result" where
  "cassert b = (if b then Inr () else Inl Assert_Failed)"

lemma deref_simps [simp, fault_simps]: "deref None = Inl Null_Optional" "deref (Some a) = Inr a"
  by (simp_all add: deref_def)

lemma cassert_simps [simp, fault_simps]: "cassert True = Inr ()" "cassert False = Inl Assert_Failed"
  by (simp_all add: cassert_def)

lemma cassert_Inr [fault_simps]: "cassert b = Inr u \<longleftrightarrow> b"
  by (simp add: cassert_def)

text \<open>A loop over a container whose body may fault: the first fault ends it.\<close>

fun fold_result :: "('a \<Rightarrow> 's \<Rightarrow> 's result) \<Rightarrow> 'a list \<Rightarrow> 's \<Rightarrow> 's result" where
  "fold_result f [] s = Inr s"
| "fold_result f (x # xs) s = bind_result (f x s) (fold_result f xs)"

lemma fold_result_append:
  "fold_result f (xs @ ys) s = bind_result (fold_result f xs s) (fold_result f ys)"
proof (induction xs arbitrary: s)
  case Nil
  then show ?case by simp
next
  case (Cons x xs)
  then show ?case by (cases "f x s") simp_all
qed

lemma fold_result_ok:
  assumes "P s" and "\<And>x s. x \<in> set xs \<Longrightarrow> P s \<Longrightarrow> \<exists>t. f x s = Inr t \<and> P t"
  shows "\<exists>t. fold_result f xs s = Inr t \<and> P t"
  using assms
proof (induction xs arbitrary: s)
  case Nil
  then show ?case by simp
next
  case (Cons x xs)
  from Cons.prems obtain t where t: "f x s = Inr t" "P t" by fastforce
  with Cons show ?case by simp
qed

lemma fold_result_invariant:
  assumes "fold_result f xs s = Inr t" and "P s"
    and "\<And>x s t. x \<in> set xs \<Longrightarrow> P s \<Longrightarrow> f x s = Inr t \<Longrightarrow> P t"
  shows "P t"
  using assms
proof (induction xs arbitrary: s)
  case Nil
  then show ?case by simp
next
  case (Cons x xs)
  from Cons.prems(1) obtain u where u: "f x s = Inr u" "fold_result f xs u = Inr t"
    by (auto simp: bind_result_Inr)
  show ?case
  proof (rule Cons.IH [OF u(2)])
    show "P u" by (rule Cons.prems(3) [OF _ Cons.prems(2) u(1)]) simp
  qed (use Cons.prems(3) in auto)
qed

subsection \<open>C strings\<close>

text \<open>
  \<open>s.c_str()\<close> read by a C function that stops at the first NUL.
\<close>

definition c_str :: "string \<Rightarrow> string" where
  "c_str s = takeWhile (\<lambda>c. c \<noteq> CHR 0x00) s"

lemma c_str_id: "CHR 0x00 \<notin> set s \<Longrightarrow> c_str s = s"
  by (auto simp: c_str_def takeWhile_eq_all_conv)

lemma c_str_idem [simp]: "c_str (c_str s) = c_str s"
  by (simp add: c_str_def)

subsection \<open>Character classes of the C locale\<close>

text \<open>
  \<^verbatim>\<open>std::islower\<close> and its kin in the C locale: the ASCII letters and
  digits, and no byte above 127.
\<close>

definition islower :: "char \<Rightarrow> bool" where
  "islower c \<longleftrightarrow> CHR ''a'' \<le> c \<and> c \<le> CHR ''z''"

definition isupper :: "char \<Rightarrow> bool" where
  "isupper c \<longleftrightarrow> CHR ''A'' \<le> c \<and> c \<le> CHR ''Z''"

definition isdigit :: "char \<Rightarrow> bool" where
  "isdigit c \<longleftrightarrow> CHR ''0'' \<le> c \<and> c \<le> CHR ''9''"

definition tolower :: "char \<Rightarrow> char" where
  "tolower c = (if isupper c then char_of (of_char c + 32 :: nat) else c)"

lemma isupper_code: "isupper c \<longleftrightarrow> 65 \<le> (of_char c :: nat) \<and> (of_char c :: nat) \<le> 90"
  by (simp add: isupper_def less_eq_char_def)

lemma islower_code: "islower c \<longleftrightarrow> 97 \<le> (of_char c :: nat) \<and> (of_char c :: nat) \<le> 122"
  by (simp add: islower_def less_eq_char_def)

lemma not_isupper_tolower [simp]: "\<not> isupper (tolower c)"
proof (cases "isupper c")
  case True
  then have "(of_char (tolower c) :: nat) = of_char c + 32"
    by (simp add: tolower_def isupper_code take_bit_nat_eq_self_iff)
  with True show ?thesis by (simp add: isupper_code)
qed (simp add: tolower_def)

lemma tolower_id [simp]: "\<not> isupper c \<Longrightarrow> tolower c = c"
  by (simp add: tolower_def)

lemma tolower_idem [simp]: "tolower (tolower c) = tolower c"
  by simp

lemma islower_not_isupper: "islower c \<Longrightarrow> \<not> isupper c"
  by (simp add: islower_code isupper_code)

lemma tolower_underscore [simp]: "tolower c = CHR ''_'' \<longleftrightarrow> c = CHR ''_''"
proof (cases "isupper c")
  case True
  then have "(of_char (tolower c) :: nat) = of_char c + 32" "(of_char c :: nat) \<le> 90" "65 \<le> (of_char c :: nat)"
    by (simp_all add: tolower_def isupper_code take_bit_nat_eq_self_iff)
  moreover have "(of_char CHR ''_'' :: nat) = 95" by simp
  ultimately show ?thesis by fastforce
qed simp

subsection \<open>\<open>std::string::substr\<close>\<close>

definition substr :: "string \<Rightarrow> nat \<Rightarrow> nat \<Rightarrow> string" where
  "substr s pos n = take n (drop pos s)"

lemma length_substr_le: "length (substr s pos n) \<le> n"
  by (simp add: substr_def)

lemma set_substr_subset: "set (substr s pos n) \<subseteq> set s"
  by (auto simp: substr_def dest: in_set_takeD in_set_dropD)

subsection \<open>Lists\<close>

lemma sorted_wrt_less_distinct:
  fixes xs :: "'a::linorder list"
  shows "sorted_wrt (<) xs \<Longrightarrow> distinct xs"
  by (simp add: strict_sorted_iff)

lemma sorted_wrt_less_eqI:
  fixes xs ys :: "'a::linorder list"
  assumes "sorted_wrt (<) xs" "sorted_wrt (<) ys" "set xs = set ys"
  shows "xs = ys"
  using assms by (metis strict_sorted_equal)

end
