(* ===== verification/Ordered_Set.thy ===== *)
theory Ordered_Set
  imports Prelude
begin

text \<open>
  \<^verbatim>\<open>std::set<T>\<close> as the code uses it: a container iterated in increasing
  order without duplicates, held here as the list of its elements in iteration order.
  The operations are insertion (\<open>oset_insert\<close>, and \<open>oset_insert_range\<close>
  for a range or a \<open>std::inserter\<close>), the library algorithms
  \<^verbatim>\<open>std::set_difference\<close> and \<^verbatim>\<open>std::remove_copy\<close>. The
  locale \<open>morpheme_set\<close> is what the checkers rely on; it is interpreted on
  these operations at the end.
\<close>

subsection \<open>Operations\<close>

fun oset_insert :: "'a::linorder \<Rightarrow> 'a list \<Rightarrow> 'a list" where
  "oset_insert x [] = [x]"
| "oset_insert x (y # ys) =
     (if x < y then x # y # ys else if x = y then y # ys else y # oset_insert x ys)"

definition oset_insert_range :: "'a::linorder list \<Rightarrow> 'a list \<Rightarrow> 'a list" where
  "oset_insert_range xs s = fold oset_insert xs s"

text \<open>The two-pointer loop of \<^verbatim>\<open>std::set_difference\<close>.\<close>

fun std_set_difference :: "'a::linorder list \<Rightarrow> 'a list \<Rightarrow> 'a list" where
  "std_set_difference [] ys = []"
| "std_set_difference xs [] = xs"
| "std_set_difference (x # xs) (y # ys) =
     (if x < y then x # std_set_difference xs (y # ys)
      else if y < x then std_set_difference (x # xs) ys
      else std_set_difference xs ys)"

text \<open>\<^verbatim>\<open>std::remove_copy\<close>: everything but the value.\<close>

definition std_remove_copy :: "'a list \<Rightarrow> 'a \<Rightarrow> 'a list" where
  "std_remove_copy xs v = filter (\<lambda>x. x \<noteq> v) xs"

text \<open>The difference of two sets, inserted into a fresh one through an inserter.\<close>

definition oset_diff :: "'a::linorder list \<Rightarrow> 'a list \<Rightarrow> 'a list" where
  "oset_diff s t = oset_insert_range (std_set_difference s t) []"

abbreviation oset_inv :: "'a::linorder list \<Rightarrow> bool" where
  "oset_inv s \<equiv> sorted_wrt (<) s"

subsection \<open>Correctness\<close>

lemma set_oset_insert [simp, oset_simps]: "set (oset_insert x s) = insert x (set s)"
  by (induction s) auto

lemma oset_inv_insert [simp, intro]: "oset_inv s \<Longrightarrow> oset_inv (oset_insert x s)"
  by (induction s) auto

lemma set_oset_insert_range [simp, oset_simps]:
  "set (oset_insert_range xs s) = set xs \<union> set s"
  by (induction xs arbitrary: s) (auto simp: oset_insert_range_def)

lemma oset_inv_insert_range [simp, intro]: "oset_inv s \<Longrightarrow> oset_inv (oset_insert_range xs s)"
  by (induction xs arbitrary: s) (auto simp: oset_insert_range_def)

lemma set_std_set_difference:
  "oset_inv s \<Longrightarrow> oset_inv t \<Longrightarrow> set (std_set_difference s t) = set s - set t"
proof (induction s t rule: std_set_difference.induct)
  case (3 x xs y ys)
  consider "x < y" | "y < x" | "x = y" by (rule linorder_cases)
  then show ?case
  proof cases
    case 1
    with 3 have "set (std_set_difference xs (y # ys)) = set xs - insert y (set ys)" by simp
    moreover have "x \<notin> insert y (set ys)" using 1 3(5) by auto
    ultimately show ?thesis using 1 by (simp add: insert_Diff_if)
  next
    case 2
    with 3 have "set (std_set_difference (x # xs) ys) = insert x (set xs) - set ys" by simp
    moreover have "y \<notin> insert x (set xs)" using 2 3(4) by auto
    ultimately show ?thesis using 2 by (simp add: order.strict_implies_not_eq not_less_iff_gr_or_eq)
  next
    case c: 3
    with 3 have "set (std_set_difference xs ys) = set xs - set ys" by simp
    moreover have "y \<notin> set xs" using c 3(4) by auto
    ultimately show ?thesis using c by simp
  qed
qed auto

lemma oset_diff_inv [simp, intro]: "oset_inv (oset_diff s t)"
  by (auto simp: oset_diff_def)

lemma set_oset_diff [oset_simps]:
  "oset_inv s \<Longrightarrow> oset_inv t \<Longrightarrow> set (oset_diff s t) = set s - set t"
  by (simp add: oset_diff_def set_std_set_difference)

text \<open>
  The loop's output is already in order, so going through the inserter changes nothing.
\<close>

lemma std_set_difference_sorted: "oset_inv s \<Longrightarrow> oset_inv (std_set_difference s t)"
proof (induction s t rule: std_set_difference.induct)
  case (3 x xs y ys)
  have "set (std_set_difference xs zs) \<subseteq> set xs" for zs
    by (induction xs zs rule: std_set_difference.induct) auto
  then have "x < z" if "z \<in> set (std_set_difference xs (y # ys))" for z
    using that 3(4) by auto
  with 3 show ?case by auto
qed auto

lemma oset_insert_range_sorted_id: "oset_inv xs \<Longrightarrow> oset_insert_range xs [] = xs"
  by (rule sorted_wrt_less_eqI) auto

lemma oset_insert_range_eq_iff:
  "oset_insert_range xs [] = oset_insert_range ys [] \<longleftrightarrow> set xs = set ys"
proof
  assume "oset_insert_range xs [] = oset_insert_range ys []"
  then have "set (oset_insert_range xs []) = set (oset_insert_range ys [])" by simp
  then show "set xs = set ys" by simp
next
  assume "set xs = set ys"
  then show "oset_insert_range xs [] = oset_insert_range ys []"
    by (intro sorted_wrt_less_eqI) auto
qed

lemma oset_diff_eq: "oset_inv s \<Longrightarrow> oset_diff s t = std_set_difference s t"
  by (simp add: oset_diff_def oset_insert_range_sorted_id std_set_difference_sorted)

lemma set_std_remove_copy [simp, oset_simps]: "set (std_remove_copy xs v) = set xs - {v}"
  by (auto simp: std_remove_copy_def)

subsection \<open>The interface the checkers use\<close>

locale morpheme_set =
  fixes sempty :: 's
    and sinsert :: "'a::linorder \<Rightarrow> 's \<Rightarrow> 's"
    and sdiff :: "'s \<Rightarrow> 's \<Rightarrow> 's"
    and elems :: "'s \<Rightarrow> 'a list"
    and inv :: "'s \<Rightarrow> bool"
  assumes inv_sempty: "inv sempty"
    and inv_sinsert: "inv s \<Longrightarrow> inv (sinsert x s)"
    and inv_sdiff: "inv s \<Longrightarrow> inv t \<Longrightarrow> inv (sdiff s t)"
    and elems_sempty: "elems sempty = []"
    and elems_sinsert: "inv s \<Longrightarrow> set (elems (sinsert x s)) = insert x (set (elems s))"
    and elems_sdiff: "inv s \<Longrightarrow> inv t \<Longrightarrow> set (elems (sdiff s t)) = set (elems s) - set (elems t)"
    and elems_sorted: "inv s \<Longrightarrow> sorted_wrt (<) (elems s)"
begin

text \<open>Iteration order and size depend on the set of elements only.\<close>

lemma elems_canonical:
  "inv s \<Longrightarrow> inv t \<Longrightarrow> set (elems s) = set (elems t) \<Longrightarrow> elems s = elems t"
  by (meson elems_sorted sorted_wrt_less_eqI)

lemma size_elems: "inv s \<Longrightarrow> length (elems s) = card (set (elems s))"
  by (simp add: elems_sorted sorted_wrt_less_distinct distinct_card)

lemma sdiff_empty_iff:
  "inv s \<Longrightarrow> inv t \<Longrightarrow> elems (sdiff s t) = [] \<longleftrightarrow> set (elems s) \<subseteq> set (elems t)"
  by (metis Diff_eq_empty_iff elems_sdiff set_empty)

text \<open>Two sets of one size differ by equally many elements either way.\<close>

lemma size_sdiff_swap:
  assumes "inv s" "inv t" "length (elems s) = length (elems t)"
  shows "length (elems (sdiff s t)) = length (elems (sdiff t s))"
proof -
  have c: "card (set (elems s)) = card (set (elems t))"
    using assms by (simp add: size_elems)
  have d: "card (set (elems u) - set (elems v)) =
      card (set (elems u)) - card (set (elems u) \<inter> set (elems v))" for u v
    by (simp add: card_Diff_subset_Int)
  show ?thesis
    using assms c d [of s t] d [of t s]
    by (simp add: size_elems inv_sdiff elems_sdiff Int_commute)
qed

lemma sdiff_disjoint:
  "inv s \<Longrightarrow> inv t \<Longrightarrow> set (elems (sdiff s t)) \<inter> set (elems (sdiff t s)) = {}"
  by (auto simp: elems_sdiff)

end

interpretation oset: morpheme_set "[]" oset_insert oset_diff "\<lambda>s. s" oset_inv
  by unfold_locales (auto simp: oset_simps)

end
