(* ===== verification/Identifier_Splitting.thy ===== *)
theory Identifier_Splitting
  imports Ordered_Set
begin

text \<open>
  \<^verbatim>\<open>src/IdentifierSplitting.cpp\<close>: \<open>IdentifierSplitter::split\<close>, which cuts an
  identifier into its lower-case morphemes. \<open>split_loop\<close> is the loop over the
  string with its two positions (\<open>wordStart\<close>, \<open>curLoc\<close>) and the flag
  \<open>prevCharWasLower\<close>; \<open>split_words\<close> is the specification, the words in
  their order, and \<open>split_refines\<close> relates the two.
\<close>

subsection \<open>The code\<close>

definition lower :: "string \<Rightarrow> nat \<Rightarrow> nat \<Rightarrow> string" where
  "lower input wordStart wordEnd = map tolower (substr input wordStart (wordEnd - wordStart))"

function split_loop ::
  "string \<Rightarrow> nat \<Rightarrow> nat \<Rightarrow> bool \<Rightarrow> string list \<Rightarrow> nat \<times> string list" where
  "split_loop input wordStart curLoc prevCharWasLower ret =
     (if curLoc < length input then
        let c = input ! curLoc;
            (wordStart', ret') =
              (if c = CHR ''_'' then
                 (curLoc + 1,
                  if wordStart \<noteq> curLoc then oset_insert (lower input wordStart curLoc) ret else ret)
               else if isupper c \<and> prevCharWasLower then
                 (curLoc, oset_insert (lower input wordStart curLoc) ret)
               else (wordStart, ret))
        in split_loop input wordStart' (curLoc + 1) (islower c) ret'
      else (wordStart, ret))"
  by pat_completeness auto
termination
  by (relation "measure (\<lambda>(input, wordStart, curLoc, prev, ret). length input - curLoc)") auto

declare split_loop.simps [simp del]

text \<open>
  \<open>*wordStart\<close> of an empty string is its terminating NUL.
\<close>

definition split :: "string \<Rightarrow> string list" where
  "split input =
     (let first = (case input of [] \<Rightarrow> CHR 0x00 | c # _ \<Rightarrow> c);
          (wordStart, ret) = split_loop input 0 0 (islower first) []
      in if wordStart \<noteq> length input
         then oset_insert (lower input wordStart (length input)) ret
         else ret)"

subsection \<open>The specification: the words of an identifier\<close>

fun split_words :: "string \<Rightarrow> bool \<Rightarrow> string \<Rightarrow> string list" where
  "split_words w prev [] = (if w = [] then [] else [w])"
| "split_words w prev (c # cs) =
     (if c = CHR ''_'' then (if w = [] then [] else [w]) @ split_words [] False cs
      else if isupper c \<and> prev then w # split_words [c] False cs
      else split_words (w @ [c]) (islower c) cs)"

definition words_of :: "string \<Rightarrow> string list" where
  "words_of s = split_words [] False s"

text \<open>Joining words with underscores (the snake-case spelling).\<close>

fun snake :: "string list \<Rightarrow> string" where
  "snake [] = []"
| "snake [w] = w"
| "snake (w # ws) = w @ CHR ''_'' # snake ws"

subsection \<open>The loop computes the words\<close>

lemma not_islower_underscore [simp]: "\<not> islower CHR ''_''"
  by (simp add: islower_code)

lemma substr_snoc:
  "ws \<le> cur \<Longrightarrow> cur < length s \<Longrightarrow> substr s ws (Suc cur - ws) = substr s ws (cur - ws) @ [s ! cur]"
  by (simp add: substr_def Suc_diff_le take_Suc_conv_app_nth)

lemma substr_Suc_self [simp]: "cur < length s \<Longrightarrow> substr s cur (Suc 0) = [s ! cur]"
  by (simp add: substr_def take_Suc_conv_app_nth)

lemma substr_nil_iff [simp]:
  "ws \<le> cur \<Longrightarrow> cur \<le> length s \<Longrightarrow> substr s ws (cur - ws) = [] \<longleftrightarrow> ws = cur"
  by (auto simp: substr_def)

text \<open>
  The loop invariant: the current word is the text between the two positions, and the
  flag is only set inside a word.
\<close>

definition split_final :: "string \<Rightarrow> nat \<times> string list \<Rightarrow> string list" where
  "split_final input r =
     (if fst r \<noteq> length input then oset_insert (lower input (fst r) (length input)) (snd r) else snd r)"

lemma split_loop_words:
  assumes "ws \<le> cur" "cur \<le> length input" "oset_inv ret"
  shows "oset_inv (split_final input (split_loop input ws cur prev ret)) \<and>
    set (split_final input (split_loop input ws cur prev ret)) =
      set ret \<union> map tolower ` set (split_words (substr input ws (cur - ws)) prev (drop cur input))"
  using assms
proof (induction input ws cur prev ret rule: split_loop.induct)
  case (1 input ws cur prev ret)
  show ?case
  proof (cases "cur < length input")
    case False
    with "1.prems" have "cur = length input" by simp
    with False "1.prems" show ?thesis
      by (subst (1 2) split_loop.simps) (simp add: split_final_def lower_def)
  next
    case True
    define c where "c = input ! cur"
    have d: "drop cur input = c # drop (Suc cur) input"
      using True by (simp add: Cons_nth_drop_Suc c_def)
    have c0: "input ! cur = c" by (simp add: c_def)
    note IH = "1.IH" [OF True, unfolded c0]
    consider (us) "c = CHR ''_''" | (up) "c \<noteq> CHR ''_''" "isupper c \<and> prev"
      | (mid) "c \<noteq> CHR ''_''" "\<not> (isupper c \<and> prev)" by blast
    then show ?thesis
    proof cases
      case us
      let ?ret = "if ws \<noteq> cur then oset_insert (lower input ws cur) ret else ret"
      have u: "split_loop input ws cur prev ret = split_loop input (cur + 1) (cur + 1) False ?ret"
        using True us c0 by (subst split_loop.simps) simp
      have "oset_inv (split_final input (split_loop input (cur + 1) (cur + 1) False ?ret)) \<and>
        set (split_final input (split_loop input (cur + 1) (cur + 1) False ?ret)) =
        set ?ret \<union> map tolower ` set (split_words (substr input (cur + 1) (cur + 1 - (cur + 1))) False
          (drop (cur + 1) input))"
        using IH [OF refl _ refl, of "cur + 1" ?ret] us True "1.prems" by simp
      with u us d "1.prems" show ?thesis
        by (auto simp: lower_def substr_def [of _ _ 0])
    next
      case up
      then have nl: "\<not> islower c" using islower_not_isupper by blast
      let ?ret = "oset_insert (lower input ws cur) ret"
      have u: "split_loop input ws cur prev ret = split_loop input cur (cur + 1) False ?ret"
        using True up nl c0 by (subst split_loop.simps) simp
      have "oset_inv (split_final input (split_loop input cur (cur + 1) False ?ret)) \<and>
        set (split_final input (split_loop input cur (cur + 1) False ?ret)) =
        set ?ret \<union> map tolower ` set (split_words (substr input cur (cur + 1 - cur)) False
          (drop (cur + 1) input))"
        using IH [OF refl _ refl, of cur ?ret] up nl True "1.prems" by simp
      with u up d c0 True show ?thesis by (simp add: lower_def)
    next
      case mid
      have u: "split_loop input ws cur prev ret = split_loop input ws (cur + 1) (islower c) ret"
        using True mid c0 by (subst split_loop.simps) auto
      have "oset_inv (split_final input (split_loop input ws (cur + 1) (islower c) ret)) \<and>
        set (split_final input (split_loop input ws (cur + 1) (islower c) ret)) =
        set ret \<union> map tolower ` set (split_words (substr input ws (cur + 1 - ws)) (islower c)
          (drop (cur + 1) input))"
        using IH [OF refl _ refl, of ws ret] mid True "1.prems" by auto
      with u mid d c0 True "1.prems"(1) show ?thesis
        by (auto simp: substr_snoc)
    qed
  qed
qed

lemma split_words_first_flag:
  "\<not> isupper c \<Longrightarrow> split_words [] prev (c # cs) = split_words [] False (c # cs)"
  by simp

lemma split_final_split:
  "split input = split_final input
     (split_loop input 0 0 (islower (case input of [] \<Rightarrow> CHR 0x00 | c # _ \<Rightarrow> c)) [])"
  by (simp add: split_def split_final_def Let_def split_beta)

lemma oset_inv_split [simp]: "oset_inv (split s)"
  using split_loop_words [of 0 0 s "[]"] by (simp add: split_final_split)

lemma set_split: "set (split s) = map tolower ` set (words_of s)"
proof (cases s)
  case Nil
  then show ?thesis
    using split_loop_words [of 0 0 "[]" "[]"]
      by (simp add: split_final_split words_of_def substr_def)
next
  case (Cons c cs)
  have "split_words [] (islower c) (c # cs) = split_words [] False (c # cs)"
    by (cases "islower c") (simp_all add: split_words_first_flag islower_not_isupper)
  with Cons show ?thesis
    using split_loop_words [of 0 0 s "[]" "islower c"]
    by (simp add: split_final_split words_of_def substr_def del: split_words.simps)
qed

subsection \<open>What the words are\<close>

lemma concat_split_words: "concat (split_words w prev s) = w @ filter (\<lambda>c. c \<noteq> CHR ''_'') s"
  by (induction w prev s rule: split_words.induct) auto

lemma split_words_nonempty:
  "(prev \<Longrightarrow> w \<noteq> []) \<Longrightarrow> v \<in> set (split_words w prev s) \<Longrightarrow> v \<noteq> []"
proof (induction w prev s rule: split_words.induct)
  case (2 w prev c cs)
  then show ?case by (auto split: if_splits)
qed (auto split: if_splits)

lemma split_words_no_underscore:
  "CHR ''_'' \<notin> set w \<Longrightarrow> v \<in> set (split_words w prev s) \<Longrightarrow> CHR ''_'' \<notin> set v"
  by (induction w prev s rule: split_words.induct) (auto split: if_splits)

lemma split_morphemes:
  assumes "m \<in> set (split s)"
  shows "m \<noteq> []" "CHR ''_'' \<notin> set m" "\<forall>c \<in> set m. \<not> isupper c"
proof -
  from assms obtain w where w: "w \<in> set (words_of s)" and m: "m = map tolower w"
    by (auto simp: set_split)
  show "m \<noteq> []" using split_words_nonempty [of False "[]"] w m by (auto simp: words_of_def)
  show "CHR ''_'' \<notin> set m"
    using split_words_no_underscore [of "[]" w False s] w m
    by (auto simp: words_of_def) (metis tolower_underscore)
  show "\<forall>c \<in> set m. \<not> isupper c" using m by auto
qed

lemma split_empty_iff: "split s = [] \<longleftrightarrow> (\<forall>c \<in> set s. c = CHR ''_'')"
proof -
  have ne: "v \<noteq> []" if "v \<in> set (words_of s)" for v
    using split_words_nonempty [of False "[]" v s] that by (simp add: words_of_def)
  have "split s = [] \<longleftrightarrow> words_of s = []"
    by (metis image_is_empty set_empty set_split)
  also have "\<dots> \<longleftrightarrow> concat (words_of s) = []"
    using ne by (cases "words_of s") auto
  also have "\<dots> \<longleftrightarrow> (\<forall>c \<in> set s. c = CHR ''_'')"
    by (simp add: words_of_def concat_split_words filter_empty_conv)
  finally show ?thesis .
qed

lemma split_Nil [simp]: "split [] = []"
  by (simp add: split_empty_iff)

subsection \<open>Splitting a joined name\<close>

definition plain_word :: "string \<Rightarrow> bool" where
  "plain_word w \<longleftrightarrow> w \<noteq> [] \<and> CHR ''_'' \<notin> set w \<and> (\<forall>c \<in> set w. \<not> isupper c)"

lemma split_words_plain:
  "CHR ''_'' \<notin> set v \<Longrightarrow> \<forall>c \<in> set v. \<not> isupper c \<Longrightarrow>
   split_words w prev (v @ s) =
     (if v = [] then split_words w prev s else split_words (w @ v) (islower (last v)) s)"
proof (induction v arbitrary: w prev)
  case (Cons c v)
  then show ?case by (cases v) auto
qed simp

lemma split_words_snake:
  "\<forall>w \<in> set ws. plain_word w \<Longrightarrow> split_words [] False (snake ws) = ws"
proof (induction ws rule: snake.induct)
  case (2 w)
  then show ?case
    using split_words_plain [of w "[]" False "[]"] by (simp add: plain_word_def)
next
  case (3 w v ws)
  then show ?case
    using split_words_plain [of w "[]" False "CHR ''_'' # snake (v # ws)"]
    by (simp add: plain_word_def)
qed simp

lemma plain_word_tolower: "plain_word w \<Longrightarrow> map tolower w = w"
  by (simp add: plain_word_def map_idI)

lemma split_snake: "\<forall>w \<in> set ws. plain_word w \<Longrightarrow> split (snake ws) = oset_insert_range ws []"
proof (rule oset.elems_canonical [OF oset_inv_split])
  assume "\<forall>w \<in> set ws. plain_word w"
  then show "set (split (snake ws)) = set (oset_insert_range ws [])"
    by (force simp: set_split words_of_def split_words_snake plain_word_tolower image_iff)
qed simp

lemma plain_word_split: "m \<in> set (split s) \<Longrightarrow> plain_word m"
  using split_morphemes by (simp add: plain_word_def)

lemma split_normalised: "split (snake (split s)) = split s"
  by (simp add: split_snake plain_word_split oset_insert_range_sorted_id)

lemma split_plain: "plain_word w \<Longrightarrow> split w = [w]"
  using split_snake [of "[w]"] by (simp add: oset_insert_range_def)

subsection \<open>Properties\<close>

text \<open>C1: \<open>split\<close> returns exactly the lower-cased words of the identifier, in
  increasing order and without duplicates; the words, put back together, are the
  identifier without its underscores, so no character is lost or invented.\<close>

theorem split_refines_words:
  "set (split s) = map tolower ` set (words_of s) \<and> sorted_wrt (<) (split s) \<and>
   concat (words_of s) = filter (\<lambda>c. c \<noteq> CHR ''_'') s"
  by (simp add: set_split words_of_def concat_split_words)

text \<open>C2: splitting is stable: every morpheme is non-empty, without an underscore and
  without an upper-case letter, and joining the morphemes of any identifier with
  underscores and splitting again gives the same set.\<close>

theorem split_join_stable:
  "list_all plain_word (split s) \<and> split (snake (split s)) = split s"
  by (simp add: list_all_iff plain_word_split split_normalised)

end
