(* ===== verification/Binary32.thy ===== *)
theory Binary32
  imports Complex_Main Prelude
begin

text \<open>
  The C++ type \<^verbatim>\<open>float\<close>: IEEE 754 binary32 under round to nearest,
  ties to even. A value is a NaN, an infinity, the negative zero, or a rational
  (\<open>Fin 0\<close> is the positive zero). \<open>round32\<close> rounds an exact result; the
  arithmetic operations round once, as the standard prescribes. A
  \<^verbatim>\<open>double\<close> column of the database is a value of the same type, and
  \<open>to_float32\<close> is \<^verbatim>\<open>static_cast<float>\<close>.
\<close>

datatype fp = NaN | PInf | NInf | NZero | Fin rat

subsection \<open>Rounding\<close>

function bit_length :: "int \<Rightarrow> int" where
  "bit_length n = (if n \<le> 0 then 0 else 1 + bit_length (n div 2))"
  by pat_completeness auto
termination
  by (relation "measure nat") auto

declare bit_length.simps [simp del]

text \<open>The exponent of a positive rational: \<open>2 powi e \<le> x < 2 powi (e + 1)\<close>.\<close>

definition ilog2 :: "rat \<Rightarrow> int" where
  "ilog2 x =
     (let (p, q) = quotient_of x;
          k = bit_length p - bit_length q
      in if 2 powi k \<le> x then k else k - 1)"

definition round_half_even :: "rat \<Rightarrow> int" where
  "round_half_even x =
     (let f = \<lfloor>x\<rfloor>; d = x - of_int f
      in if d < 1/2 then f else if 1/2 < d then f + 1 else if even f then f else f + 1)"

definition ulp32 :: "rat \<Rightarrow> rat" where
  "ulp32 x = 2 powi (max (ilog2 x) (-126) - 23)"

definition round32 :: "rat \<Rightarrow> fp" where
  "round32 x =
     (if x = 0 then Fin 0
      else let u = ulp32 \<bar>x\<bar>; r = of_int (round_half_even (\<bar>x\<bar> / u)) * u
           in if 2 ^ 128 \<le> r then (if x < 0 then NInf else PInf)
              else if r = 0 then (if x < 0 then NZero else Fin 0)
              else Fin (if x < 0 then - r else r))"

fun to_float32 :: "fp \<Rightarrow> fp" where
  "to_float32 (Fin x) = round32 x"
| "to_float32 a = a"

subsection \<open>Comparison\<close>

fun fp_less :: "fp \<Rightarrow> fp \<Rightarrow> bool" where
  "fp_less NaN _ = False"
| "fp_less _ NaN = False"
| "fp_less PInf _ = False"
| "fp_less _ NInf = False"
| "fp_less NInf _ = True"
| "fp_less _ PInf = True"
| "fp_less NZero NZero = False"
| "fp_less NZero (Fin y) = (0 < y)"
| "fp_less (Fin x) NZero = (x < 0)"
| "fp_less (Fin x) (Fin y) = (x < y)"

fun fp_eq :: "fp \<Rightarrow> fp \<Rightarrow> bool" where
  "fp_eq NaN _ = False"
| "fp_eq _ NaN = False"
| "fp_eq NZero (Fin y) = (y = 0)"
| "fp_eq (Fin x) NZero = (x = 0)"
| "fp_eq a b = (a = b)"

definition fp_le :: "fp \<Rightarrow> fp \<Rightarrow> bool" where
  "fp_le a b \<longleftrightarrow> fp_less a b \<or> fp_eq a b"

text \<open>\<^verbatim>\<open>std::max\<close> and \<^verbatim>\<open>std::min\<close>: a NaN in second place is ignored.\<close>

definition fp_max :: "fp \<Rightarrow> fp \<Rightarrow> fp" where
  "fp_max a b = (if fp_less a b then b else a)"

definition fp_min :: "fp \<Rightarrow> fp \<Rightarrow> fp" where
  "fp_min a b = (if fp_less b a then b else a)"

subsection \<open>Arithmetic\<close>

fun fp_neg :: "fp \<Rightarrow> bool" where
  "fp_neg NInf = True"
| "fp_neg NZero = True"
| "fp_neg (Fin x) = (x < 0)"
| "fp_neg _ = False"

fun fp_is_zero :: "fp \<Rightarrow> bool" where
  "fp_is_zero NZero = True"
| "fp_is_zero (Fin x) = (x = 0)"
| "fp_is_zero _ = False"

fun fp_rat :: "fp \<Rightarrow> rat" where
  "fp_rat (Fin x) = x"
| "fp_rat _ = 0"

definition signed_zero :: "bool \<Rightarrow> fp" where
  "signed_zero n = (if n then NZero else Fin 0)"

definition signed_inf :: "bool \<Rightarrow> fp" where
  "signed_inf n = (if n then NInf else PInf)"

fun is_inf :: "fp \<Rightarrow> bool" where
  "is_inf PInf = True"
| "is_inf NInf = True"
| "is_inf _ = False"

definition fp_add :: "fp \<Rightarrow> fp \<Rightarrow> fp" where
  "fp_add a b =
     (if a = NaN \<or> b = NaN then NaN
      else if is_inf a then (if is_inf b \<and> a \<noteq> b then NaN else a)
      else if is_inf b then b
      else if a = NZero \<and> b = NZero then NZero
      else round32 (fp_rat a + fp_rat b))"

definition fp_mul :: "fp \<Rightarrow> fp \<Rightarrow> fp" where
  "fp_mul a b =
     (let n = (fp_neg a \<noteq> fp_neg b)
      in if a = NaN \<or> b = NaN then NaN
         else if is_inf a \<or> is_inf b then
           (if fp_is_zero a \<or> fp_is_zero b then NaN else signed_inf n)
         else if fp_is_zero a \<or> fp_is_zero b then signed_zero n
         else round32 (fp_rat a * fp_rat b))"

definition fp_div :: "fp \<Rightarrow> fp \<Rightarrow> fp" where
  "fp_div a b =
     (let n = (fp_neg a \<noteq> fp_neg b)
      in if a = NaN \<or> b = NaN then NaN
         else if is_inf a then (if is_inf b then NaN else signed_inf n)
         else if is_inf b then signed_zero n
         else if fp_is_zero b then (if fp_is_zero a then NaN else signed_inf n)
         else if fp_is_zero a then signed_zero n
         else round32 (fp_rat a / fp_rat b))"

subsection \<open>Order laws\<close>

lemma fp_less_irrefl [simp]: "\<not> fp_less a a"
  by (cases a) simp_all

lemma fp_less_trans: "fp_less a b \<Longrightarrow> fp_less b c \<Longrightarrow> fp_less a c"
  by (cases a; cases b; cases c) auto

lemma fp_less_asym: "fp_less a b \<Longrightarrow> \<not> fp_less b a"
  by (cases a; cases b) auto

lemma fp_less_Fin [simp]: "fp_less (Fin x) (Fin y) \<longleftrightarrow> x < y"
  by simp

lemma fp_le_Fin [simp]: "fp_le (Fin x) (Fin y) \<longleftrightarrow> x \<le> y"
  by (auto simp: fp_le_def)

lemma fp_less_NaN [simp]: "\<not> fp_less a NaN" "\<not> fp_less NaN a"
  by (cases a; simp)+

lemma fp_le_NaN [simp]: "\<not> fp_le a NaN" "\<not> fp_le NaN a"
  by (cases a; simp add: fp_le_def)+

lemma fp_le_refl: "a \<noteq> NaN \<Longrightarrow> fp_le a a"
  by (cases a) (simp_all add: fp_le_def)

lemma not_fp_le: "\<not> fp_le a b \<Longrightarrow> a \<noteq> NaN \<Longrightarrow> b \<noteq> NaN \<Longrightarrow> fp_less b a"
  by (cases a; cases b) (auto simp: fp_le_def)

lemma fp_max_ge: "b \<noteq> NaN \<Longrightarrow> a \<noteq> NaN \<Longrightarrow> \<not> fp_less (fp_max a b) a \<and> \<not> fp_less (fp_max a b) b"
  by (auto simp: fp_max_def dest: fp_less_asym)

lemma fp_max_NaN [simp]: "fp_max a NaN = a" "fp_max NaN a = NaN"
  by (simp_all add: fp_max_def)

subsection \<open>Rounding laws\<close>

lemma round32_0 [simp]: "round32 0 = Fin 0"
  by (simp add: round32_def)

lemma round_half_even_of_int [simp]: "round_half_even (of_int n) = n"
  by (simp add: round_half_even_def)

lemma ulp32_pos [simp]: "0 < ulp32 x"
  by (simp add: ulp32_def)

text \<open>A multiple of its own unit in the last place is not changed.\<close>

lemma round32_exact:
  assumes "0 < x" "x = of_int n * ulp32 x" "x < 2 ^ 128"
  shows "round32 x = Fin x"
proof -
  have "x / ulp32 x = of_int n"
    using assms(2) ulp32_pos [of x] by (metis less_numeral_extra(3) nonzero_mult_div_cancel_right)
  then have "of_int (round_half_even (x / ulp32 x)) * ulp32 x = x"
    using assms(2) by simp
  with assms(1,3) show ?thesis by (simp add: round32_def Let_def)
qed

lemma round32_not_NaN [simp]: "round32 x \<noteq> NaN"
  by (simp add: round32_def Let_def)

lemma round_half_even_nonneg: "0 \<le> x \<Longrightarrow> 0 \<le> round_half_even x"
  by (simp add: round_half_even_def Let_def)

lemma round32_nonneg: "0 \<le> x \<Longrightarrow> \<not> fp_less (round32 x) (Fin 0)"
  using round_half_even_nonneg [of "x / ulp32 x"]
  by (auto simp: round32_def Let_def zero_le_mult_iff less_imp_le not_less)

lemma round32_1 [simp]: "round32 1 = Fin 1"
proof (rule round32_exact [where n = "2 ^ 23"])
  have "ilog2 1 = 0" by (simp add: ilog2_def)
  then have "ulp32 1 = 2 powi (-23)" by (simp add: ulp32_def)
  then show "(1::rat) = of_int (2 ^ 23) * ulp32 1" by (simp add: power_int_minus)
qed simp_all

lemmas fp_eval = fp_div_def fp_add_def fp_mul_def round32_def ulp32_def ilog2_def
  round_half_even_def bit_length.simps power_int_def signed_zero_def signed_inf_def

end
