(* ===== verification/Call_Model.thy ===== *)
theory Call_Model
  imports Binary32 Ordered_Set
begin

text \<open>
  The data of \<^verbatim>\<open>include/SwappedArgChecker.hpp\<close>: call sites, score cards,
  results and the configuration with its default thresholds, and the two accessors
  \<open>getParamName\<close> and \<open>getLastArgName\<close>. A \<^verbatim>\<open>size_t\<close> is a
  \<open>nat\<close>: every position is below the length of a vector in memory. A
  \<^verbatim>\<open>std::set<std::string>\<close> is an ordered set of \<open>Ordered_Set\<close>.
\<close>

subsection \<open>Call sites\<close>

record CallDeclDescriptor =
  fullyQualifiedName :: string
  paramNames :: "string list option"

record CallSite =
  callDecl :: CallDeclDescriptor
  positionalArgNames :: "string list list"

subsection \<open>Score cards and results\<close>

datatype CheckerKind = ParameterNameBased | UsageStatisticsBased

datatype ScoreCard =
    ParameterNameBasedScoreCard (Score: fp) (StatsVettedScore: "fp option")
  | UsageStatisticsBasedScoreCard (Fit1: fp) (Fit2: fp) (Psi1: fp) (Psi2: fp)

fun card_kind :: "ScoreCard \<Rightarrow> CheckerKind" where
  "card_kind (ParameterNameBasedScoreCard s v) = ParameterNameBased"
| "card_kind (UsageStatisticsBasedScoreCard f1 f2 p1 p2) = UsageStatisticsBased"

fun card_score :: "ScoreCard \<Rightarrow> fp" where
  "card_score (ParameterNameBasedScoreCard s v) = s"
| "card_score (UsageStatisticsBasedScoreCard f1 f2 p1 p2) = fp_max f1 f2"

definition vettedWithStats :: "ScoreCard \<Rightarrow> bool" where
  "vettedWithStats c =
     (case c of ParameterNameBasedScoreCard s v \<Rightarrow> v \<noteq> None | _ \<Rightarrow> False)"

record Result =
  arg1 :: nat
  arg2 :: nat
  morphemes1 :: "string list"
  morphemes2 :: "string list"
  score :: ScoreCard

subsection \<open>Configuration\<close>

record CheckerConfiguration =
  ModelPath :: string
  ExistingMorphemeMatchMax :: fp
  SwappedMorphemeMatchMin :: fp
  StatsSwappedMorphemeThreshold :: fp
  StatsSwappedFitnessThreshold :: fp
  CoverSwappedStatsVettingThreshold :: fp

definition default_config :: "string \<Rightarrow> CheckerConfiguration" where
  "default_config path =
     \<lparr>ModelPath = path,
      ExistingMorphemeMatchMax = Fin (1/2),
      SwappedMorphemeMatchMin = Fin (3/4),
      StatsSwappedMorphemeThreshold = Fin (3/4),
      StatsSwappedFitnessThreshold = Fin (3/4),
      CoverSwappedStatsVettingThreshold = Fin (3/4)\<rparr>"

text \<open>
  Thresholds under which a match value of 0 or 1 is decided the way the checker means it:
  0 is not above the first and 1 is; 0 is below the second and 1 is not.
\<close>

definition sane_thresholds :: "CheckerConfiguration \<Rightarrow> bool" where
  "sane_thresholds opts \<longleftrightarrow>
     \<not> fp_less (ExistingMorphemeMatchMax opts) (Fin 0) \<and> fp_less (ExistingMorphemeMatchMax opts) (Fin 1) \<and>
     fp_less (Fin 0) (SwappedMorphemeMatchMin opts) \<and> \<not> fp_less (Fin 1) (SwappedMorphemeMatchMin opts)"

lemma sane_default [simp]: "sane_thresholds (default_config path)"
  by (simp add: sane_thresholds_def default_config_def)

lemma default_thresholds [simp]:
  "StatsSwappedMorphemeThreshold (default_config path) = Fin (3/4)"
  "StatsSwappedFitnessThreshold (default_config path) = Fin (3/4)"
  "CoverSwappedStatsVettingThreshold (default_config path) = Fin (3/4)"
  by (simp_all add: default_config_def)

subsection \<open>Accessors\<close>

definition getParamName :: "CallSite \<Rightarrow> nat \<Rightarrow> string option" where
  "getParamName site pos =
     (case paramNames (callDecl site) of
        None \<Rightarrow> None
      | Some names \<Rightarrow> if pos \<ge> length names then None else Some (names ! pos))"

text \<open>\<open>back()\<close> of an empty vector is undefined behaviour.\<close>

definition getLastArgName :: "CallSite \<Rightarrow> nat \<Rightarrow> string option result" where
  "getLastArgName site pos =
     (if pos \<ge> length (positionalArgNames site) then Inr None
      else let names = positionalArgNames site ! pos
           in if names = [] then Inl Out_Of_Range else Inr (Some (last names)))"

subsection \<open>Morpheme sets with their position\<close>

record MorphemeSet =
  Morphemes :: "string list"
  Position :: nat

definition morphemeSetDifference :: "MorphemeSet \<Rightarrow> MorphemeSet \<Rightarrow> MorphemeSet" where
  "morphemeSetDifference one two =
     \<lparr>Morphemes = oset_insert_range (std_set_difference (Morphemes one) (Morphemes two)) [],
      Position = Position one\<rparr>"

lemma morphemeSetDifference_simps [simp]:
  "Position (morphemeSetDifference a b) = Position a"
  "Morphemes (morphemeSetDifference a b) = oset_diff (Morphemes a) (Morphemes b)"
  by (simp_all add: morphemeSetDifference_def oset_diff_def)

definition nonLowEntropyDifference :: "string list \<Rightarrow> string list \<Rightarrow> string list" where
  "nonLowEntropyDifference lhs rhs = oset_insert_range (std_set_difference lhs rhs) []"

lemma nonLowEntropyDifference_eq: "nonLowEntropyDifference = oset_diff"
  by (intro ext) (simp add: nonLowEntropyDifference_def oset_diff_def)

text \<open>The reduction heuristics are not implemented: the set is only tested for emptiness.\<close>

definition removeLowQualityMorphemes :: "string list \<Rightarrow> string list \<times> bool" where
  "removeLowQualityMorphemes morphemes = (morphemes, morphemes = [])"

end
