(* ===== verification/Statistics_DB.thy ===== *)
theory Statistics_DB
  imports Call_Model
begin

text \<open>
  The class \<open>Statistics\<close> of \<^verbatim>\<open>src/SwappedArgChecker.cpp\<close>: the model
  database behind two prepared queries. What SQLite gives for a path is the argument
  \<open>open_v2\<close>: an opened database, or a failure that may or may not leave a handle.
  A prepared query is a function of its bound values to a cursor (the rows
  \<^verbatim>\<open>sqlite3_step\<close> will yield and the error, if any, that ends them).
  \<open>weights_database\<close> is the database of a table of weight rows, the meaning of
  the two SELECT statements the constructor prepares; the locale
  \<open>weight_source\<close> is what the checkers rely on, interpreted on it.
\<close>

subsection \<open>Cursors\<close>

datatype 'r step_result = SQLITE_ROW 'r | SQLITE_DONE | SQLITE_ERROR int

type_synonym 'r cursor = "'r list \<times> int option"

fun sqlite3_step :: "'r cursor \<Rightarrow> 'r step_result \<times> 'r cursor" where
  "sqlite3_step (r # rs, e) = (SQLITE_ROW r, (rs, e))"
| "sqlite3_step ([], None) = (SQLITE_DONE, ([], None))"
| "sqlite3_step ([], Some rc) = (SQLITE_ERROR rc, ([], Some rc))"

lemma sqlite3_step_row: "sqlite3_step c = (SQLITE_ROW r, c') \<Longrightarrow> length (fst c') < length (fst c)"
  by (cases c rule: sqlite3_step.cases) auto

text \<open>The columns \<open>morpheme\<close> (\<open>None\<close> is NULL) and \<open>value\<close>.\<close>

type_synonym morph_value_stmt = "string \<Rightarrow> int \<Rightarrow> (string option \<times> fp) cursor"
type_synonym value_stmt = "string \<Rightarrow> int \<Rightarrow> string \<Rightarrow> fp cursor"

record database =
  prepare_morph_value :: "morph_value_stmt option"
  prepare_value :: "value_stmt option"

datatype open_outcome = Opened database | Open_Failed bool

subsection \<open>The class\<close>

record Statistics =
  db_handle :: bool
  morph_value_query :: "morph_value_stmt option"
  value_query :: "value_stmt option"

definition Statistics_new :: "(string \<Rightarrow> open_outcome) \<Rightarrow> string \<Rightarrow> Statistics" where
  "Statistics_new open_v2 path =
     (if path \<noteq> [] then
        case open_v2 (c_str path) of
          Opened d \<Rightarrow> \<lparr>db_handle = True, morph_value_query = prepare_morph_value d,
                       value_query = prepare_value d\<rparr>
        | Open_Failed h \<Rightarrow> \<lparr>db_handle = h, morph_value_query = None, value_query = None\<rparr>
      else \<lparr>db_handle = False, morph_value_query = None, value_query = None\<rparr>)"

definition valid :: "Statistics \<Rightarrow> bool" where
  "valid st \<longleftrightarrow> db_handle st \<and> morph_value_query st \<noteq> None \<and> value_query st \<noteq> None"

text \<open>\<^verbatim>\<open>static_cast<sqlite3_int64>(argPos)\<close>.\<close>

definition to_int64 :: "nat \<Rightarrow> int" where
  "to_int64 n = sint (of_nat n :: 64 word)"

text \<open>
  The loop over the value query ends in its first round: it returns on a row and breaks
  on anything else.
\<close>

definition weightForMorphemeAtPos ::
  "Statistics \<Rightarrow> string \<Rightarrow> nat \<Rightarrow> string \<Rightarrow> fp option result" where
  "weightForMorphemeAtPos st funcName argPos morph =
     bind_result (cassert (valid st)) (\<lambda>_.
     bind_result (deref (value_query st)) (\<lambda>query.
       case fst (sqlite3_step (query (c_str funcName) (to_int64 argPos) (c_str morph))) of
         SQLITE_DONE \<Rightarrow> Inr None
       | SQLITE_ROW v \<Rightarrow> Inr (Some (to_float32 v))
       | SQLITE_ERROR rc \<Rightarrow> Inr None))"

function step_rows ::
  "(string option \<times> fp) cursor \<Rightarrow> bool \<Rightarrow> (string \<times> fp) list \<Rightarrow> (bool \<times> (string \<times> fp) list) result"
where
  "step_rows cur ret res =
     (case sqlite3_step cur of
        (SQLITE_DONE, _) \<Rightarrow> Inr (ret, res)
      | (SQLITE_ROW (text, v), cur') \<Rightarrow>
          (case text of
             None \<Rightarrow> Inl Null_Pointer
           | Some s \<Rightarrow> step_rows cur' True (res @ [(c_str s, to_float32 v)]))
      | (SQLITE_ERROR rc, _) \<Rightarrow> Inr (False, res))"
  by pat_completeness auto
termination
  by (relation "measure (\<lambda>(cur, ret, res). length (fst cur))") (auto dest!: sqlite3_step_row [OF sym])

declare step_rows.simps [simp del]

definition morphemesAndWeightsAtPos ::
  "Statistics \<Rightarrow> string \<Rightarrow> nat \<Rightarrow> (string \<times> fp) list \<Rightarrow> (bool \<times> (string \<times> fp) list) result" where
  "morphemesAndWeightsAtPos st funcName argPos res =
     bind_result (cassert (valid st)) (\<lambda>_.
     bind_result (deref (morph_value_query st)) (\<lambda>query.
       step_rows (query (c_str funcName) (to_int64 argPos)) False res))"

lemma step_rows_done:
  "step_rows (map (\<lambda>(s, v). (Some s, v)) rs, None) ret res =
     Inr (ret \<or> rs \<noteq> [], res @ map (\<lambda>(s, v). (c_str s, to_float32 v)) rs)"
proof (induction rs arbitrary: ret res)
  case Nil
  then show ?case by (simp add: step_rows.simps)
next
  case (Cons r rs)
  then show ?case by (cases r) (subst step_rows.simps, simp)
qed

lemma step_rows_error:
  "step_rows (map (\<lambda>(s, v). (Some s, v)) rs, Some rc) ret res =
     Inr (False, res @ map (\<lambda>(s, v). (c_str s, to_float32 v)) rs)"
proof (induction rs arbitrary: ret res)
  case Nil
  then show ?case by (simp add: step_rows.simps)
next
  case (Cons r rs)
  then show ?case by (cases r) (subst step_rows.simps, simp)
qed

subsection \<open>A table of weights\<close>

record weight_row =
  row_func :: string
  row_arg :: int
  row_morpheme :: string
  row_value :: fp

text \<open>
  \<^verbatim>\<open>SELECT morpheme, value FROM weights WHERE func == ? AND arg == ?\<close> and
  \<^verbatim>\<open>SELECT value FROM weights WHERE func == ? AND arg == ? AND morpheme == ?\<close>:
  the matching rows, in table order.
\<close>

definition rows_at :: "weight_row list \<Rightarrow> string \<Rightarrow> int \<Rightarrow> weight_row list" where
  "rows_at rows f a = filter (\<lambda>r. row_func r = f \<and> row_arg r = a) rows"

definition weights_database :: "weight_row list \<Rightarrow> database" where
  "weights_database rows =
     \<lparr>prepare_morph_value =
        Some (\<lambda>f a. (map (\<lambda>r. (Some (row_morpheme r), row_value r)) (rows_at rows f a), None)),
      prepare_value =
        Some (\<lambda>f a m. (map row_value (filter (\<lambda>r. row_morpheme r = m) (rows_at rows f a)), None))\<rparr>"

definition table_statistics :: "weight_row list \<Rightarrow> Statistics" where
  "table_statistics rows = Statistics_new (\<lambda>_. Opened (weights_database rows)) ''model.db''"

text \<open>The rows whose morpheme a C string can hold, and what the checkers see of them.\<close>

definition storable :: "weight_row list \<Rightarrow> weight_row list" where
  "storable rows = filter (\<lambda>r. CHR 0x00 \<notin> set (row_morpheme r)) rows"

definition weights_at :: "weight_row list \<Rightarrow> string \<Rightarrow> nat \<Rightarrow> (string \<times> fp) list" where
  "weights_at rows f p =
     map (\<lambda>r. (row_morpheme r, to_float32 (row_value r))) (rows_at rows f (to_int64 p))"

lemma valid_table [simp]: "valid (table_statistics rows)"
  by (simp add: valid_def table_statistics_def Statistics_new_def weights_database_def)

lemma map_of_weights:
  "map_of (map (\<lambda>r. (row_morpheme r, to_float32 (row_value r))) rs) m =
     (case filter (\<lambda>r. row_morpheme r = m) rs of [] \<Rightarrow> None | r # _ \<Rightarrow> Some (to_float32 (row_value r)))"
  by (induction rs) auto

lemma table_weight:
  "weightForMorphemeAtPos (table_statistics rows) f p m =
     Inr (map_of (weights_at rows (c_str f) p) (c_str m))"
  by (cases "filter (\<lambda>r. row_morpheme r = c_str m) (rows_at rows (c_str f) (to_int64 p))")
    (simp_all add: weightForMorphemeAtPos_def table_statistics_def Statistics_new_def valid_def
      weights_database_def weights_at_def map_of_weights)

lemma table_rows:
  "morphemesAndWeightsAtPos (table_statistics (storable rows)) f p res =
     Inr (weights_at (storable rows) (c_str f) p \<noteq> [], res @ weights_at (storable rows) (c_str f) p)"
proof -
  let ?rs = "rows_at (storable rows) (c_str f) (to_int64 p)"
  have "map (\<lambda>r. (Some (row_morpheme r), row_value r)) ?rs =
      map (\<lambda>(s, v). (Some s, v)) (map (\<lambda>r. (row_morpheme r, row_value r)) ?rs)" by simp
  then have "morphemesAndWeightsAtPos (table_statistics (storable rows)) f p res =
      Inr (?rs \<noteq> [], res @ map (\<lambda>r. (c_str (row_morpheme r), to_float32 (row_value r))) ?rs)"
    using step_rows_done [of "map (\<lambda>r. (row_morpheme r, row_value r)) ?rs" False res]
    by (simp add: morphemesAndWeightsAtPos_def table_statistics_def Statistics_new_def valid_def
        weights_database_def comp_def)
  moreover have "map (\<lambda>r. (c_str (row_morpheme r), to_float32 (row_value r))) ?rs =
      weights_at (storable rows) (c_str f) p"
    by (auto simp: weights_at_def rows_at_def storable_def c_str_id)
  ultimately show ?thesis by (simp add: weights_at_def)
qed

subsection \<open>The interface the checkers use\<close>

locale weight_source =
  fixes st :: Statistics
    and ws :: "string \<Rightarrow> nat \<Rightarrow> (string \<times> fp) list"
  assumes src_valid: "valid st"
    and src_weight: "weightForMorphemeAtPos st f p m = Inr (map_of (ws (c_str f) p) (c_str m))"
    and src_rows: "morphemesAndWeightsAtPos st f p res =
      Inr (ws (c_str f) p \<noteq> [], res @ ws (c_str f) p)"
begin

lemma weight_listed:
  "weightForMorphemeAtPos st f p m = Inr (Some w) \<Longrightarrow> (c_str m, w) \<in> set (ws (c_str f) p)"
  by (simp add: src_weight map_of_SomeD)

lemma weight_absent_iff:
  "weightForMorphemeAtPos st f p m = Inr None \<longleftrightarrow> c_str m \<notin> fst ` set (ws (c_str f) p)"
  by (simp add: src_weight map_of_eq_None_iff)

lemma no_fault:
  "ok_result (weightForMorphemeAtPos st f p m)" "ok_result (morphemesAndWeightsAtPos st f p res)"
  by (simp_all add: src_weight src_rows)

end

interpretation table: weight_source "table_statistics (storable rows)" "weights_at (storable rows)"
  for rows
  by unfold_locales (simp_all add: table_weight table_rows)

lemma storable_id: "\<forall>r \<in> set rows. CHR 0x00 \<notin> set (row_morpheme r) \<Longrightarrow> storable rows = rows"
  by (simp add: storable_def)

end
