(* ===== verification/Cover_Check.thy ===== *)
theory Cover_Check
  imports Statistics_DB Identifier_Splitting
begin

text \<open>
  The cover-based checker of \<^verbatim>\<open>src/SwappedArgChecker.cpp\<close>: matching of
  morpheme sets under a bias, the vetting against the statistics, and
  \<open>checkForCoverBasedSwap\<close>. The specification \<open>cover_swapped\<close> says in set
  terms when the arguments cover each other's parameters.
\<close>

subsection \<open>The code\<close>

record Checker =
  Opts :: CheckerConfiguration
  Stats :: "Statistics option"

fun anyAreSynonyms :: "string \<Rightarrow> string list \<Rightarrow> fp" where
  "anyAreSynonyms m [] = Fin 0"
| "anyAreSynonyms m (syn # potentialSynonyms) =
     (if syn = m then Fin 1 else anyAreSynonyms m potentialSynonyms)"

datatype Bias = Pessimistic | Optimistic

fun BiasComp :: "Bias \<Rightarrow> fp \<Rightarrow> fp \<Rightarrow> bool" where
  "BiasComp Pessimistic lhs rhs = fp_less lhs rhs"
| "BiasComp Optimistic lhs rhs = fp_less rhs lhs"

fun match_loop :: "string list \<Rightarrow> Bias \<Rightarrow> string list \<Rightarrow> fp option \<Rightarrow> fp option" where
  "match_loop as bias [] extreme = extreme"
| "match_loop as bias (paramMorph # params) extreme =
     (let val = anyAreSynonyms paramMorph as
      in match_loop as bias params
           (case extreme of
              None \<Rightarrow> Some val
            | Some e \<Rightarrow> if BiasComp bias val e then Some val else extreme))"

definition morphemesMatch :: "string list \<Rightarrow> string list \<Rightarrow> Bias \<Rightarrow> fp result" where
  "morphemesMatch as params bias =
     (let extreme = match_loop as bias params None
      in bind_result (cassert (extreme \<noteq> None)) (\<lambda>_. deref extreme))"

definition morphemeConfidenceAtPosition ::
  "Checker \<Rightarrow> CallSite \<Rightarrow> string \<Rightarrow> nat \<Rightarrow> nat \<Rightarrow> fp option result" where
  "morphemeConfidenceAtPosition chk callSite morph pos comparedToPos =
     (case Stats chk of
        None \<Rightarrow> Inl Assert_Failed
      | Some st \<Rightarrow>
          bind_result (cassert (valid st)) (\<lambda>_.
          bind_result (weightForMorphemeAtPos st (fullyQualifiedName (callDecl callSite)) pos morph)
            (\<lambda>pos1.
          bind_result
            (weightForMorphemeAtPos st (fullyQualifiedName (callDecl callSite)) comparedToPos morph)
            (\<lambda>pos2.
              case (pos1, pos2) of
                (Some w1, None) \<Rightarrow> Inr (Some (Fin 1))
              | (None, Some w2) \<Rightarrow> Inr (Some (Fin 0))
              | (Some w1, Some w2) \<Rightarrow> Inr (Some (fp_div w1 w2))
              | (None, None) \<Rightarrow> Inr None))))"

text \<open>
  \<open>suffixCheck\<close>, as written: both suffix characters are read from \<open>one\<close>, and
  \<open>two.length() - 1\<close> wraps around when \<open>two\<close> is empty.
\<close>

definition size_pred :: "nat \<Rightarrow> nat" where
  "size_pred n = (if n = 0 then 2 ^ 64 - 1 else n - 1)"

definition suffixCheck :: "string \<Rightarrow> string \<Rightarrow> bool result" where
  "suffixCheck one two =
     bind_result (cassert (one \<noteq> [] \<and> one \<noteq> [])) (\<lambda>_.
       let suf1 = last one; suf2 = last one
       in Inr (isdigit suf1 \<and> isdigit suf2 \<and>
            substr one 0 (size_pred (length one)) = substr two 0 (size_pred (length two))))"

text \<open>One of the two vetting loops: the highest confidence so far.\<close>

definition vet_loop ::
  "Checker \<Rightarrow> CallSite \<Rightarrow> nat \<Rightarrow> nat \<Rightarrow> string list \<Rightarrow> fp option \<Rightarrow> fp option result" where
  "vet_loop chk site pos comparedToPos =
     fold_result (\<lambda>morph stats_score.
       bind_result (morphemeConfidenceAtPosition chk site morph pos comparedToPos) (\<lambda>val.
         Inr (case val of
                None \<Rightarrow> stats_score
              | Some v \<Rightarrow>
                  Some (fp_max (case stats_score of None \<Rightarrow> Fin 0 | Some s \<Rightarrow> s) v))))"

text \<open>
  The vetting against the statistics: the score, and whether it suppresses the report.
\<close>

definition stats_vetting ::
  "Checker \<Rightarrow> CallSite \<Rightarrow> nat \<Rightarrow> nat \<Rightarrow> string list \<Rightarrow> string list \<Rightarrow> (fp option \<times> bool) result"
where
  "stats_vetting chk site pos1 pos2 uniqueMorphsArg1 uniqueMorphsArg2 =
     (case Stats chk of
        None \<Rightarrow> Inr (None, False)
      | Some st \<Rightarrow>
          bind_result (cassert (valid st)) (\<lambda>_.
          bind_result (vet_loop chk site pos1 pos2 uniqueMorphsArg1 None) (\<lambda>s1.
          bind_result (vet_loop chk site pos2 pos1 uniqueMorphsArg2 s1) (\<lambda>s2.
            Inr (s2, case s2 of
                       None \<Rightarrow> False
                     | Some s \<Rightarrow> fp_less (CoverSwappedStatsVettingThreshold (Opts chk)) s)))))"

text \<open>\<^verbatim>\<open>0.01f\<close> and the two quotients of the score.\<close>

definition f_001 :: fp where
  "f_001 = to_float32 (Fin (1/100))"

definition swap_psi :: "fp \<Rightarrow> fp \<Rightarrow> fp" where
  "swap_psi swapped existing = fp_div swapped (fp_add existing f_001)"

definition checkForCoverBasedSwap ::
  "Checker \<Rightarrow> MorphemeSet \<times> MorphemeSet \<Rightarrow> MorphemeSet \<times> MorphemeSet \<Rightarrow> CallSite \<Rightarrow>
   Result option result" where
  "checkForCoverBasedSwap chk params args site =
     (let param1Morphs = Morphemes (fst params); param2Morphs = Morphemes (snd params);
          arg1Morphs = Morphemes (fst args); arg2Morphs = Morphemes (snd args)
      in bind_result (cassert (param1Morphs \<noteq> [] \<and> param2Morphs \<noteq> [] \<and>
           arg1Morphs \<noteq> [] \<and> arg2Morphs \<noteq> [])) (\<lambda>_.
      if length param1Morphs \<noteq> length param2Morphs \<or> length arg1Morphs \<noteq> length arg2Morphs \<or>
         length param1Morphs \<noteq> length arg1Morphs
      then Inr None
      else
      let uniqueMorphsParam1 = nonLowEntropyDifference param1Morphs param2Morphs;
          uniqueMorphsParam2 = nonLowEntropyDifference param2Morphs param1Morphs;
          uniqueMorphsArg1 = nonLowEntropyDifference arg1Morphs arg2Morphs;
          uniqueMorphsArg2 = nonLowEntropyDifference arg2Morphs arg1Morphs
      in
      if uniqueMorphsParam1 = [] \<or> uniqueMorphsParam2 = [] \<or>
         uniqueMorphsArg1 = [] \<or> uniqueMorphsArg2 = []
      then Inr None
      else
      bind_result (morphemesMatch uniqueMorphsArg1 uniqueMorphsParam1 Optimistic) (\<lambda>mm_ai_pi.
      if fp_less (ExistingMorphemeMatchMax (Opts chk)) mm_ai_pi then Inr None
      else
      bind_result (morphemesMatch uniqueMorphsArg2 uniqueMorphsParam2 Optimistic) (\<lambda>mm_aj_pj.
      if fp_less (ExistingMorphemeMatchMax (Opts chk)) mm_aj_pj then Inr None
      else
      bind_result (morphemesMatch uniqueMorphsArg1 uniqueMorphsParam2 Pessimistic) (\<lambda>mm_ai_pj.
      if fp_less mm_ai_pj (SwappedMorphemeMatchMin (Opts chk)) then Inr None
      else
      bind_result (morphemesMatch uniqueMorphsArg2 uniqueMorphsParam1 Pessimistic) (\<lambda>mm_aj_pi.
      if fp_less mm_aj_pi (SwappedMorphemeMatchMin (Opts chk)) then Inr None
      else
      bind_result (deref (getParamName site (Position (fst params)))) (\<lambda>param1.
      bind_result (deref (getParamName site (Position (snd params)))) (\<lambda>param2.
      bind_result (suffixCheck param1 param2) (\<lambda>sameParam.
      if sameParam then Inr None
      else
      bind_result (bind_result (getLastArgName site (Position (fst args))) deref) (\<lambda>a1.
      bind_result (bind_result (getLastArgName site (Position (snd args))) deref) (\<lambda>a2.
      bind_result (suffixCheck a1 a2) (\<lambda>sameArg.
      if sameArg then Inr None
      else
      let psi_i = swap_psi mm_ai_pj mm_aj_pj; psi_j = swap_psi mm_aj_pi mm_ai_pi;
          worst_psi = fp_min psi_i psi_j
      in
      bind_result (stats_vetting chk site (Position (fst args)) (Position (snd args))
          uniqueMorphsArg1 uniqueMorphsArg2) (\<lambda>(stats_score, suppressed).
      if suppressed then Inr None
      else Inr (Some
        \<lparr>arg1 = Position (fst args) + 1, arg2 = Position (snd args) + 1,
         morphemes1 = uniqueMorphsArg1, morphemes2 = uniqueMorphsArg2,
         score = ParameterNameBasedScoreCard worst_psi stats_score\<rparr>))))))))))))))"

subsection \<open>Matching in set terms\<close>

lemma anyAreSynonyms_eq: "anyAreSynonyms m xs = (if m \<in> set xs then Fin 1 else Fin 0)"
  by (induction xs) auto

lemma match_loop_Some:
  "match_loop as Optimistic ps (Some e) =
     (if e = Fin 0 then Some (if set ps \<inter> set as = {} then Fin 0 else Fin 1) else Some e)"
  if "e = Fin 0 \<or> e = Fin 1"
  using that by (induction ps arbitrary: e) (auto simp: anyAreSynonyms_eq)

lemma match_loop_Some_pess:
  "match_loop as Pessimistic ps (Some e) =
     (if e = Fin 1 then Some (if set ps \<subseteq> set as then Fin 1 else Fin 0) else Some e)"
  if "e = Fin 0 \<or> e = Fin 1"
  using that by (induction ps arbitrary: e) (auto simp: anyAreSynonyms_eq)

lemma morphemesMatch_optimistic:
  "ps \<noteq> [] \<Longrightarrow>
     morphemesMatch as ps Optimistic = Inr (if set ps \<inter> set as = {} then Fin 0 else Fin 1)"
  by (cases ps) (auto simp: morphemesMatch_def anyAreSynonyms_eq match_loop_Some)

lemma morphemesMatch_pessimistic:
  "ps \<noteq> [] \<Longrightarrow>
     morphemesMatch as ps Pessimistic = Inr (if set ps \<subseteq> set as then Fin 1 else Fin 0)"
  by (cases ps) (auto simp: morphemesMatch_def anyAreSynonyms_eq match_loop_Some_pess)

text \<open>
  The arguments cover each other's parameters: equally many morphemes everywhere, the
  parameters differ, and what is particular to each parameter occurs among what is
  particular to the other argument.
\<close>

definition cover_swapped ::
  "string list \<Rightarrow> string list \<Rightarrow> string list \<Rightarrow> string list \<Rightarrow> bool" where
  "cover_swapped p1 p2 a1 a2 \<longleftrightarrow>
     length p1 = length p2 \<and> length a1 = length a2 \<and> length p1 = length a1 \<and>
     set p1 \<noteq> set p2 \<and>
     set p2 - set p1 \<subseteq> set a1 - set a2 \<and> set p1 - set p2 \<subseteq> set a2 - set a1"

text \<open>Two names equal up to one trailing character, where the first one's is a digit.\<close>

definition suffix_pair :: "string \<Rightarrow> string \<Rightarrow> bool" where
  "suffix_pair one two \<longleftrightarrow> isdigit (last one) \<and>
     butlast one = substr two 0 (size_pred (length two))"

lemma suffixCheck_eq: "one \<noteq> [] \<Longrightarrow> suffixCheck one two = Inr (suffix_pair one two)"
  by (simp add: suffixCheck_def suffix_pair_def size_pred_def substr_def butlast_conv_take)

lemma suffixCheck_empty: "suffixCheck [] two = Inl Assert_Failed"
  by (simp add: suffixCheck_def)

text \<open>A full match where there was none scores exactly 100.\<close>

lemma swap_psi_100: "swap_psi (Fin 1) (Fin 0) = Fin 100"
  unfolding swap_psi_def f_001_def by code_simp

lemma fp_min_same [simp]: "fp_min a a = a"
  by (simp add: fp_min_def)

lemma unique_empty_iff:
  "oset_inv s \<Longrightarrow> oset_inv t \<Longrightarrow> nonLowEntropyDifference s t = [] \<longleftrightarrow> set s \<subseteq> set t"
  using oset.sdiff_empty_iff by (simp add: nonLowEntropyDifference_eq)

lemma set_unique [oset_simps]:
  "oset_inv s \<Longrightarrow> oset_inv t \<Longrightarrow> set (nonLowEntropyDifference s t) = set s - set t"
  by (simp add: nonLowEntropyDifference_eq set_oset_diff)

lemma oset_inv_unique [simp]: "oset_inv (nonLowEntropyDifference s t)"
  by (simp add: nonLowEntropyDifference_eq)

lemma oset_subset_same_length:
  assumes "oset_inv s" "oset_inv t" "length s = length t"
  shows "set s \<subseteq> set t \<longleftrightarrow> set s = set t"
  using assms by (metis List.finite_set card_subset_eq oset.size_elems order_refl)

lemma unique_empty_same_length:
  "oset_inv s \<Longrightarrow> oset_inv t \<Longrightarrow> length s = length t \<Longrightarrow>
     nonLowEntropyDifference s t = [] \<longleftrightarrow> set s = set t"
  by (simp only: unique_empty_iff oset_subset_same_length)

text \<open>
  The whole check: nothing unless \<open>cover_swapped\<close>, and then whatever the two
  suffix checks and the vetting leave.
\<close>

definition cover_report ::
  "Checker \<Rightarrow> MorphemeSet \<times> MorphemeSet \<Rightarrow> CallSite \<Rightarrow> string list \<Rightarrow> string list \<Rightarrow>
   Result option result" where
  "cover_report chk args site u1 u2 =
     bind_result (stats_vetting chk site (Position (fst args)) (Position (snd args)) u1 u2)
       (\<lambda>(stats_score, suppressed).
         if suppressed then Inr None
         else Inr (Some
           \<lparr>arg1 = Position (fst args) + 1, arg2 = Position (snd args) + 1,
            morphemes1 = u1, morphemes2 = u2,
            score = ParameterNameBasedScoreCard (Fin 100) stats_score\<rparr>))"

lemma cover_check_eq:
  assumes inv: "oset_inv (Morphemes (fst params))" "oset_inv (Morphemes (snd params))"
      "oset_inv (Morphemes (fst args))" "oset_inv (Morphemes (snd args))"
    and ne: "Morphemes (fst params) \<noteq> []" "Morphemes (snd params) \<noteq> []"
      "Morphemes (fst args) \<noteq> []" "Morphemes (snd args) \<noteq> []"
    and sane: "sane_thresholds (Opts chk)"
  shows "checkForCoverBasedSwap chk params args site =
    (if \<not> cover_swapped (Morphemes (fst params)) (Morphemes (snd params))
          (Morphemes (fst args)) (Morphemes (snd args))
     then Inr None
     else
       bind_result (deref (getParamName site (Position (fst params)))) (\<lambda>param1.
       bind_result (deref (getParamName site (Position (snd params)))) (\<lambda>param2.
       bind_result (suffixCheck param1 param2) (\<lambda>sameParam.
       if sameParam then Inr None
       else
       bind_result (bind_result (getLastArgName site (Position (fst args))) deref) (\<lambda>a1.
       bind_result (bind_result (getLastArgName site (Position (snd args))) deref) (\<lambda>a2.
       bind_result (suffixCheck a1 a2) (\<lambda>sameArg.
       if sameArg then Inr None
       else cover_report chk args site
         (nonLowEntropyDifference (Morphemes (fst args)) (Morphemes (snd args)))
         (nonLowEntropyDifference (Morphemes (snd args)) (Morphemes (fst args))))))))))"
    (is "?lhs = ?rhs")
proof -
  define p1 p2 a1 a2 where "p1 = Morphemes (fst params)" and "p2 = Morphemes (snd params)"
    and "a1 = Morphemes (fst args)" and "a2 = Morphemes (snd args)"
  note defs = p1_def p2_def a1_def a2_def
  note inv' = inv [folded defs]
  let ?u1 = "nonLowEntropyDifference a1 a2" and ?u2 = "nonLowEntropyDifference a2 a1"
  let ?v1 = "nonLowEntropyDifference p1 p2" and ?v2 = "nonLowEntropyDifference p2 p1"
  show ?thesis
  proof (cases "length p1 = length p2 \<and> length a1 = length a2 \<and> length p1 = length a1")
    case False
    then show ?thesis
      using ne by (auto simp: checkForCoverBasedSwap_def cover_swapped_def defs [symmetric])
  next
    case sizes: True
    have p: "?v1 = [] \<longleftrightarrow> set p1 = set p2" "?v2 = [] \<longleftrightarrow> set p1 = set p2"
      and a: "?u1 = [] \<longleftrightarrow> set a1 = set a2" "?u2 = [] \<longleftrightarrow> set a1 = set a2"
      using unique_empty_same_length [of p1 p2] unique_empty_same_length [of p2 p1]
        unique_empty_same_length [of a1 a2] unique_empty_same_length [of a2 a1] inv' sizes
      by metis+
    show ?thesis
    proof (cases "set p1 = set p2 \<or> set a1 = set a2")
      case True
      then have "\<not> cover_swapped p1 p2 a1 a2"
        unfolding cover_swapped_def by blast
      with True sizes p a ne show ?thesis
        by (auto simp: checkForCoverBasedSwap_def defs [symmetric])
    next
      case False
      then have nonempty: "?v1 \<noteq> []" "?v2 \<noteq> []" "?u1 \<noteq> []" "?u2 \<noteq> []" using p a by auto
      have th: "\<not> fp_less (ExistingMorphemeMatchMax (Opts chk)) (Fin 0)"
        "fp_less (ExistingMorphemeMatchMax (Opts chk)) (Fin 1)"
        "fp_less (Fin 0) (SwappedMorphemeMatchMin (Opts chk))"
        "\<not> fp_less (Fin 1) (SwappedMorphemeMatchMin (Opts chk))"
        using sane by (auto simp: sane_thresholds_def)
      have u: "set ?u1 = set a1 - set a2" "set ?u2 = set a2 - set a1"
        "set ?v1 = set p1 - set p2" "set ?v2 = set p2 - set p1"
        using inv' by (simp_all add: set_unique)
      have cs: "cover_swapped p1 p2 a1 a2 \<longleftrightarrow> set ?v2 \<subseteq> set ?u1 \<and> set ?v1 \<subseteq> set ?u2"
        using sizes False by (auto simp: cover_swapped_def u)
      have ov: "set ?v1 \<inter> set ?u1 = {} \<and> set ?v2 \<inter> set ?u2 = {}"
        if "set ?v2 \<subseteq> set ?u1" "set ?v1 \<subseteq> set ?u2"
        using that u by blast
      note match = morphemesMatch_optimistic [OF nonempty(1), of ?u1]
        morphemesMatch_optimistic [OF nonempty(2), of ?u2]
        morphemesMatch_pessimistic [OF nonempty(2), of ?u1]
        morphemesMatch_pessimistic [OF nonempty(1), of ?u2]
      show ?thesis
      proof (cases "set ?v2 \<subseteq> set ?u1 \<and> set ?v1 \<subseteq> set ?u2")
        case True
        with ov have ov': "set ?v1 \<inter> set ?u1 = {}" "set ?v2 \<inter> set ?u2 = {}" by auto
        with True cs sizes ne nonempty th show ?thesis
          by (simp add: checkForCoverBasedSwap_def defs [symmetric] match swap_psi_100 cover_report_def
              Let_def cong: if_cong)
      next
        case no: False
        then consider "\<not> set ?v2 \<subseteq> set ?u1" | "\<not> set ?v1 \<subseteq> set ?u2" by blast
        then show ?thesis
          using no cs sizes ne nonempty th
          by cases (simp_all add: checkForCoverBasedSwap_def defs [symmetric] match Let_def)
      qed
    qed
  qed
qed

subsection \<open>Statistics behind the checker\<close>

text \<open>What the two weights of a morpheme say about the first position.\<close>

fun confidence :: "fp option \<Rightarrow> fp option \<Rightarrow> fp option" where
  "confidence (Some w1) None = Some (Fin 1)"
| "confidence None (Some w2) = Some (Fin 0)"
| "confidence (Some w1) (Some w2) = Some (fp_div w1 w2)"
| "confidence None None = None"

lemma valid_weight_ok:
  assumes "valid st"
  shows "\<exists>w. weightForMorphemeAtPos st f p m = Inr w"
  using assms
  by (auto simp: weightForMorphemeAtPos_def valid_def split: step_result.split)

lemma confidence_ok:
  assumes "Stats chk = Some st" "valid st"
  shows "\<exists>c. morphemeConfidenceAtPosition chk site m p q = Inr c"
proof -
  obtain w1 where w1: "weightForMorphemeAtPos st (fullyQualifiedName (callDecl site)) p m = Inr w1"
    using valid_weight_ok assms(2) by blast
  obtain w2 where w2: "weightForMorphemeAtPos st (fullyQualifiedName (callDecl site)) q m = Inr w2"
    using valid_weight_ok assms(2) by blast
  show ?thesis
    using assms by (simp add: morphemeConfidenceAtPosition_def w1 w2 split: option.split)
qed

text \<open>
  The vetting loop keeps the highest confidence and never stores a NaN: the result is
  above a threshold that is not below 0 exactly when some confidence is.
\<close>

definition above :: "fp \<Rightarrow> fp option \<Rightarrow> bool" where
  "above thr s \<longleftrightarrow> (case s of None \<Rightarrow> False | Some v \<Rightarrow> fp_less thr v)"

lemma above_simps [simp]: "above thr None = False" "above thr (Some v) = fp_less thr v"
  by (simp_all add: above_def)

lemma fp_less_max: "a \<noteq> NaN \<Longrightarrow> fp_less thr (fp_max a b) \<longleftrightarrow> fp_less thr a \<or> fp_less thr b"
  unfolding fp_max_def
  by (cases thr; cases a; cases b) auto

lemma fp_max_not_NaN: "a \<noteq> NaN \<Longrightarrow> fp_max a b \<noteq> NaN"
  by (cases a; cases b) (auto simp: fp_max_def)

lemma vet_loop_above:
  assumes "vet_loop chk site p q ms s = Inr t" "s \<noteq> Some NaN" "\<not> fp_less thr (Fin 0)"
  shows "t \<noteq> Some NaN \<and> (above thr t \<longleftrightarrow> above thr s \<or>
    (\<exists>m \<in> set ms. \<exists>c. morphemeConfidenceAtPosition chk site m p q = Inr c \<and> above thr c))"
  using assms(1,2)
proof (induction ms arbitrary: s)
  case Nil
  then show ?case by (simp add: vet_loop_def)
next
  case (Cons m ms)
  from Cons.prems(1) obtain c where c: "morphemeConfidenceAtPosition chk site m p q = Inr c"
    by (auto simp: vet_loop_def bind_result_Inr)
  define s' where "s' = (case c of None \<Rightarrow> s
    | Some v \<Rightarrow> Some (fp_max (case s of None \<Rightarrow> Fin 0 | Some x \<Rightarrow> x) v))"
  have step: "vet_loop chk site p q ms s' = Inr t"
    using Cons.prems(1) c by (simp add: vet_loop_def s'_def)
  have s': "s' \<noteq> Some NaN \<and> (above thr s' \<longleftrightarrow> above thr s \<or> above thr c)"
    using Cons.prems(2) assms(3)
    by (cases c; cases s) (auto simp: s'_def fp_less_max fp_max_not_NaN)
  from Cons.IH [OF step] s' c show ?case by auto
qed

lemma vet_loop_ok:
  assumes "Stats chk = Some st" "valid st"
  shows "\<exists>t. vet_loop chk site p q ms s = Inr t"
proof -
  have "\<exists>t. vet_loop chk site p q ms s = Inr t \<and> True"
    unfolding vet_loop_def
  proof (rule fold_result_ok [where P = "\<lambda>_. True"])
    fix m s
    show "\<exists>t. bind_result (morphemeConfidenceAtPosition chk site m p q) (\<lambda>val. Inr (case val of
        None \<Rightarrow> s | Some v \<Rightarrow> Some (fp_max (case s of None \<Rightarrow> Fin 0 | Some s \<Rightarrow> s) v))) = Inr t \<and> True"
      using confidence_ok [OF assms, of site m p q] by auto
  qed simp
  then show ?thesis by simp
qed

lemma stats_vetting_ok:
  assumes "\<And>st. Stats chk = Some st \<Longrightarrow> valid st"
  shows "\<exists>sc hide. stats_vetting chk site p q u1 u2 = Inr (sc, hide)"
proof (cases "Stats chk")
  case (Some st)
  note v = assms [OF Some]
  obtain s1 where s1: "vet_loop chk site p q u1 None = Inr s1"
    using vet_loop_ok [OF Some v] by blast
  obtain s2 where s2: "vet_loop chk site q p u2 s1 = Inr s2"
    using vet_loop_ok [OF Some v] by blast
  show ?thesis using Some v s1 s2 by (simp add: stats_vetting_def)
qed (auto simp: stats_vetting_def)

lemma stats_vetting_suppressed:
  assumes "stats_vetting chk site p q u1 u2 = Inr (sc, hide)" "Stats chk = Some st"
    and thr: "\<not> fp_less (CoverSwappedStatsVettingThreshold (Opts chk)) (Fin 0)"
  shows "hide \<longleftrightarrow>
    (\<exists>m \<in> set u1. \<exists>c. morphemeConfidenceAtPosition chk site m p q = Inr c \<and>
       above (CoverSwappedStatsVettingThreshold (Opts chk)) c) \<or>
    (\<exists>m \<in> set u2. \<exists>c. morphemeConfidenceAtPosition chk site m q p = Inr c \<and>
       above (CoverSwappedStatsVettingThreshold (Opts chk)) c)"
proof -
  from assms(1,2) obtain s1 where s1: "vet_loop chk site p q u1 None = Inr s1"
    and s2: "vet_loop chk site q p u2 s1 = Inr sc"
    and hide: "hide = above (CoverSwappedStatsVettingThreshold (Opts chk)) sc"
    by (auto simp: stats_vetting_def bind_result_Inr above_def)
  show ?thesis
    using vet_loop_above [OF s1 _ thr] vet_loop_above [OF s2 _ thr] hide by auto
qed

text \<open>The confidence as a function of what the weight source lists for the callee.\<close>

definition source_confidence ::
  "(string \<Rightarrow> nat \<Rightarrow> (string \<times> fp) list) \<Rightarrow> CallSite \<Rightarrow> string \<Rightarrow> nat \<Rightarrow> nat \<Rightarrow> fp option" where
  "source_confidence ws site m p q =
     confidence
       (map_of (ws (c_str (fullyQualifiedName (callDecl site))) p) (c_str m))
       (map_of (ws (c_str (fullyQualifiedName (callDecl site))) q) (c_str m))"

text \<open>A checker whose statistics are a weight source: the client's view of it.\<close>

locale stats_checker = weight_source +
  fixes chk :: Checker
  assumes chk_stats: "Stats chk = Some st"
begin

lemma confidence_eq:
  "morphemeConfidenceAtPosition chk site m p q = Inr (source_confidence ws site m p q)"
  using src_valid
  by (auto simp: morphemeConfidenceAtPosition_def source_confidence_def chk_stats src_weight
      split: option.split)

lemma confidence_None_iff:
  "morphemeConfidenceAtPosition chk site m p q = Inr None \<longleftrightarrow>
     c_str m \<notin> fst ` set (ws (c_str (fullyQualifiedName (callDecl site))) p) \<and>
     c_str m \<notin> fst ` set (ws (c_str (fullyQualifiedName (callDecl site))) q)"
  by (auto simp: confidence_eq source_confidence_def map_of_eq_None_iff [symmetric]
      elim!: confidence.elims)

end

definition table_checker :: "CheckerConfiguration \<Rightarrow> weight_row list \<Rightarrow> Checker" where
  "table_checker opts rows = \<lparr>Opts = opts, Stats = Some (table_statistics (storable rows))\<rparr>"

lemma table_checker_simps [simp]:
  "Opts (table_checker opts rows) = opts"
  "Stats (table_checker opts rows) = Some (table_statistics (storable rows))"
  by (simp_all add: table_checker_def)

interpretation table_chk: stats_checker "table_statistics (storable rows)"
  "weights_at (storable rows)" "table_checker opts rows" for rows opts
  by unfold_locales (simp add: table_checker_def)

subsection \<open>Properties\<close>

abbreviation proper_morphemes :: "MorphemeSet \<Rightarrow> bool" where
  "proper_morphemes m \<equiv> oset_inv (Morphemes m) \<and> Morphemes m \<noteq> []"

definition mkmorphs :: "string list \<Rightarrow> nat \<Rightarrow> MorphemeSet" where
  "mkmorphs ms pos = \<lparr>Morphemes = ms, Position = pos\<rparr>"

lemma mkmorphs_simps [simp]: "Morphemes (mkmorphs ms p) = ms" "Position (mkmorphs ms p) = p"
  by (simp_all add: mkmorphs_def)

text \<open>A two-argument call with its parameter names, for the witnesses.\<close>

definition example_site :: "string \<Rightarrow> string \<Rightarrow> string \<Rightarrow> string \<Rightarrow> CallSite" where
  "example_site p1 p2 a1 a2 =
     \<lparr>callDecl = \<lparr>fullyQualifiedName = ''f'', paramNames = Some [p1, p2]\<rparr>,
      positionalArgNames = [[a1], [a2]]\<rparr>"

lemma example_site_simps [simp]:
  "getParamName (example_site p1 p2 a1 a2) 0 = Some p1"
  "getParamName (example_site p1 p2 a1 a2) (Suc 0) = Some p2"
  "getLastArgName (example_site p1 p2 a1 a2) 0 = Inr (Some a1)"
  "getLastArgName (example_site p1 p2 a1 a2) (Suc 0) = Inr (Some a2)"
  "positionalArgNames (example_site p1 p2 a1 a2) = [[a1], [a2]]"
  "paramNames (callDecl (example_site p1 p2 a1 a2)) = Some [p1, p2]"
  "fullyQualifiedName (callDecl (example_site p1 p2 a1 a2)) = ''f''"
  by (simp_all add: example_site_def getParamName_def getLastArgName_def)



text \<open>C5: without statistics the cover-based check is decided by \<open>cover_swapped\<close> and
  the two suffix tests alone: it reports exactly when the first holds and the others do
  not, whatever the call site holds beyond the four names.\<close>

theorem cover_check_complete:
  assumes "proper_morphemes p1" "proper_morphemes p2" "proper_morphemes a1" "proper_morphemes a2"
    and "sane_thresholds (Opts chk)" "Stats chk = None"
    and "getParamName site (Position p1) = Some n1" "getParamName site (Position p2) = Some n2"
    and "getLastArgName site (Position a1) = Inr (Some l1)"
    and "getLastArgName site (Position a2) = Inr (Some l2)"
    and "n1 \<noteq> []" "l1 \<noteq> []"
  shows "checkForCoverBasedSwap chk (p1, p2) (a1, a2) site = Inr
    (if cover_swapped (Morphemes p1) (Morphemes p2) (Morphemes a1) (Morphemes a2) \<and>
        \<not> suffix_pair n1 n2 \<and> \<not> suffix_pair l1 l2
     then Some \<lparr>arg1 = Position a1 + 1, arg2 = Position a2 + 1,
       morphemes1 = nonLowEntropyDifference (Morphemes a1) (Morphemes a2),
       morphemes2 = nonLowEntropyDifference (Morphemes a2) (Morphemes a1),
       score = ParameterNameBasedScoreCard (Fin 100) None\<rparr>
     else None)"
  using assms by (simp add: cover_check_eq suffixCheck_eq cover_report_def stats_vetting_def)

theorem cover_check_complete_witness:
  "checkForCoverBasedSwap \<lparr>Opts = default_config [], Stats = None\<rparr>
      (mkmorphs [''horses1''] 0, mkmorphs [''horses2''] 1)
      (mkmorphs [''horses2''] 0, mkmorphs [''horses1''] 1)
      (example_site ''horses1'' ''horses2'' ''horses2'' ''horses1'') = Inr None"
  using cover_check_complete [of "mkmorphs [''horses1''] 0" "mkmorphs [''horses2''] 1"
      "mkmorphs [''horses2''] 0" "mkmorphs [''horses1''] 1" "\<lparr>Opts = default_config [], Stats = None\<rparr>"
      "example_site ''horses1'' ''horses2'' ''horses2'' ''horses1''"
      "''horses1''" "''horses2''" "''horses2''" "''horses1''"]
  by (simp add: suffix_pair_def isdigit_def substr_def size_pred_def)

text \<open>C6: statistics can only take a cover-based report back, never add one: with a
  weights table the check reports exactly when it would report without one and no
  morpheme particular to an argument is, by its confidence, above the vetting threshold
  where it stands.\<close>

theorem cover_check_vetted:
  assumes "proper_morphemes p1" "proper_morphemes p2" "proper_morphemes a1" "proper_morphemes a2"
    and "sane_thresholds opts" "\<not> fp_less (CoverSwappedStatsVettingThreshold opts) (Fin 0)"
  shows "(\<exists>r. checkForCoverBasedSwap (table_checker opts rows) (p1, p2) (a1, a2) site = Inr (Some r)) \<longleftrightarrow>
    (\<exists>r. checkForCoverBasedSwap \<lparr>Opts = opts, Stats = None\<rparr> (p1, p2) (a1, a2) site = Inr (Some r)) \<and>
    (\<forall>m \<in> set (Morphemes a1) - set (Morphemes a2).
       \<not> above (CoverSwappedStatsVettingThreshold opts)
         (source_confidence (weights_at (storable rows)) site m (Position a1) (Position a2))) \<and>
    (\<forall>m \<in> set (Morphemes a2) - set (Morphemes a1).
       \<not> above (CoverSwappedStatsVettingThreshold opts)
         (source_confidence (weights_at (storable rows)) site m (Position a2) (Position a1)))"
proof -
  let ?chk = "table_checker opts rows"
  let ?u1 = "nonLowEntropyDifference (Morphemes a1) (Morphemes a2)"
  let ?u2 = "nonLowEntropyDifference (Morphemes a2) (Morphemes a1)"
  have o: "Opts ?chk = opts" "Stats ?chk = Some (table_statistics (storable rows))"
    by (simp_all add: table_checker_def)
  obtain sc hide where v: "stats_vetting ?chk site (Position a1) (Position a2) ?u1 ?u2 = Inr (sc, hide)"
    using stats_vetting_ok [of ?chk] o by fastforce
  have h: "hide \<longleftrightarrow>
      (\<exists>m \<in> set ?u1. above (CoverSwappedStatsVettingThreshold opts)
        (source_confidence (weights_at (storable rows)) site m (Position a1) (Position a2))) \<or>
      (\<exists>m \<in> set ?u2. above (CoverSwappedStatsVettingThreshold opts)
        (source_confidence (weights_at (storable rows)) site m (Position a2) (Position a1)))"
    using stats_vetting_suppressed [OF v o(2)] assms(6) o(1)
    by (simp add: table_chk.confidence_eq)
  have r: "(\<exists>r. cover_report ?chk (a1, a2) site ?u1 ?u2 = Inr (Some r)) \<longleftrightarrow> \<not> hide"
    "\<exists>r. cover_report \<lparr>Opts = opts, Stats = None\<rparr> (a1, a2) site ?u1 ?u2 = Inr (Some r)"
    by (simp add: cover_report_def v) (simp add: cover_report_def stats_vetting_def)
  have s: "set ?u1 = set (Morphemes a1) - set (Morphemes a2)"
    "set ?u2 = set (Morphemes a2) - set (Morphemes a1)"
    using assms(3,4) by (simp_all add: set_unique)
  have "(\<exists>r. checkForCoverBasedSwap ?chk (p1, p2) (a1, a2) site = Inr (Some r)) \<longleftrightarrow>
    (\<exists>r. checkForCoverBasedSwap \<lparr>Opts = opts, Stats = None\<rparr> (p1, p2) (a1, a2) site = Inr (Some r)) \<and> \<not> hide"
    using assms(1-5) r o
    by (simp add: cover_check_eq bind_result_Inr split: if_splits) blast
  then show ?thesis using h s by auto
qed

theorem cover_check_vetted_witness:
  "(\<nexists>r. checkForCoverBasedSwap (table_checker (default_config [])
        [\<lparr>row_func = ''f'', row_arg = 0, row_morpheme = ''dogs'', row_value = Fin 1\<rparr>,
         \<lparr>row_func = ''f'', row_arg = 1, row_morpheme = ''cats'', row_value = Fin 1\<rparr>])
      (mkmorphs [''cats''] 0, mkmorphs [''dogs''] 1) (mkmorphs [''dogs''] 0, mkmorphs [''cats''] 1)
      (example_site ''cats'' ''dogs'' ''dogs'' ''cats'') = Inr (Some r))"
  using cover_check_vetted [of "mkmorphs [''cats''] 0" "mkmorphs [''dogs''] 1" "mkmorphs [''dogs''] 0"
      "mkmorphs [''cats''] 1" "default_config []"
      "[\<lparr>row_func = ''f'', row_arg = 0, row_morpheme = ''dogs'', row_value = Fin 1\<rparr>,
        \<lparr>row_func = ''f'', row_arg = 1, row_morpheme = ''cats'', row_value = Fin 1\<rparr>]"
      "example_site ''cats'' ''dogs'' ''dogs'' ''cats''"]
  by (simp add: source_confidence_def storable_def weights_at_def rows_at_def c_str_def
      to_int64_def)

text \<open>C7: the numeric-suffix test never reads the last character of its second name (it
  reads the first name's twice): replacing that character, by a letter say, changes
  nothing, so \<open>horses1\<close> and \<open>horsesX\<close> count as a numbered pair.\<close>

theorem suffix_check_ignores_second_suffix:
  "suffixCheck one (stem @ [c]) = suffixCheck one (stem @ [d]) \<and>
   suffixCheck ''horses1'' ''horsesX'' = Inr True"
  by (simp add: suffixCheck_def substr_def size_pred_def isdigit_def Let_def)

end
