(* ===== verification/Stats_Check.thy ===== *)
theory Stats_Check
  imports Cover_Check
begin

text \<open>
  The statistics-based checker of \<^verbatim>\<open>src/SwappedArgChecker.cpp\<close>:
  \<open>similarity\<close>, \<open>fit\<close> and \<open>checkForStatisticsBasedSwap\<close> with its two
  nested loops. The comparison of the remaining morphemes makes the loops equivalent to
  one test on a single morpheme per argument, which \<open>stats_check_eq\<close> shows for
  any weight source.
\<close>

subsection \<open>The code\<close>

definition similarity :: "string \<Rightarrow> string \<Rightarrow> fp" where
  "similarity morph1 morph2 = (if morph1 = morph2 then Fin 1 else Fin 0)"

definition fit_sum :: "string \<Rightarrow> (string \<times> fp) list \<Rightarrow> fp" where
  "fit_sum morph rows =
     foldl (\<lambda>ret (m, weight). fp_add ret (fp_mul (similarity morph m) weight)) (Fin 0) rows"

definition fit :: "Checker \<Rightarrow> string \<Rightarrow> CallSite \<Rightarrow> nat \<Rightarrow> fp result" where
  "fit chk morph site argPos =
     (case Stats chk of
        None \<Rightarrow> Inl Assert_Failed
      | Some st \<Rightarrow>
          bind_result (cassert (valid st)) (\<lambda>_.
          bind_result (morphemesAndWeightsAtPos st (fullyQualifiedName (callDecl site)) argPos [])
            (\<lambda>(found, morphsAndWeightsAtPos).
              if \<not> found then Inr (Fin 0) else Inr (fit_sum morph morphsAndWeightsAtPos))))"

fun stats_inner ::
  "Checker \<Rightarrow> CallSite \<Rightarrow> MorphemeSet \<Rightarrow> MorphemeSet \<Rightarrow> MorphemeSet \<times> MorphemeSet \<Rightarrow> string \<Rightarrow>
   string list \<Rightarrow> Result option result" where
  "stats_inner chk site uniq1 uniq2 args argMorph1 [] = Inr None"
| "stats_inner chk site uniq1 uniq2 args argMorph1 (argMorph2 # rest) =
     bind_result (morphemeConfidenceAtPosition chk site argMorph1 (Position uniq2) (Position uniq1))
       (\<lambda>psi1.
     bind_result (morphemeConfidenceAtPosition chk site argMorph2 (Position uniq1) (Position uniq2))
       (\<lambda>psi2.
     case (psi1, psi2) of
       (Some v1, Some v2) \<Rightarrow>
         if fp_le v1 (StatsSwappedMorphemeThreshold (Opts chk)) \<or>
            fp_le v2 (StatsSwappedMorphemeThreshold (Opts chk))
         then stats_inner chk site uniq1 uniq2 args argMorph1 rest
         else
         let one = oset_insert_range (std_remove_copy (Morphemes uniq1) argMorph1) [];
             two = oset_insert_range (std_remove_copy (Morphemes uniq2) argMorph2) []
         in
         if one \<noteq> two then stats_inner chk site uniq1 uniq2 args argMorph1 rest
         else
         bind_result (fit chk argMorph1 site (Position (snd args))) (\<lambda>fit1.
         bind_result (fit chk argMorph2 site (Position (fst args))) (\<lambda>fit2.
         if fp_less (StatsSwappedFitnessThreshold (Opts chk)) fit1 \<and>
            fp_less (StatsSwappedFitnessThreshold (Opts chk)) fit2
         then Inr (Some
           \<lparr>arg1 = Position (fst args) + 1, arg2 = Position (snd args) + 1,
            morphemes1 = Morphemes uniq1, morphemes2 = Morphemes uniq2,
            score = UsageStatisticsBasedScoreCard fit1 fit2 v1 v2\<rparr>)
         else stats_inner chk site uniq1 uniq2 args argMorph1 rest))
     | _ \<Rightarrow> stats_inner chk site uniq1 uniq2 args argMorph1 rest))"

fun stats_outer ::
  "Checker \<Rightarrow> CallSite \<Rightarrow> MorphemeSet \<Rightarrow> MorphemeSet \<Rightarrow> MorphemeSet \<times> MorphemeSet \<Rightarrow>
   string list \<Rightarrow> Result option result" where
  "stats_outer chk site uniq1 uniq2 args [] = Inr None"
| "stats_outer chk site uniq1 uniq2 args (argMorph1 # rest) =
     bind_result (stats_inner chk site uniq1 uniq2 args argMorph1 (Morphemes uniq2)) (\<lambda>found.
       case found of
         Some r \<Rightarrow> Inr (Some r)
       | None \<Rightarrow> stats_outer chk site uniq1 uniq2 args rest)"

definition checkForStatisticsBasedSwap ::
  "Checker \<Rightarrow> MorphemeSet \<times> MorphemeSet \<Rightarrow> MorphemeSet \<times> MorphemeSet \<Rightarrow> CallSite \<Rightarrow>
   Result option result" where
  "checkForStatisticsBasedSwap chk params args callSite =
     (let uniqArgMorphs1 = morphemeSetDifference (fst args) (snd args);
          uniqArgMorphs2 = morphemeSetDifference (snd args) (fst args)
      in stats_outer chk callSite uniqArgMorphs1 uniqArgMorphs2 args (Morphemes uniqArgMorphs1))"

subsection \<open>One morpheme per argument\<close>

text \<open>
  The remainders of two disjoint sets are equal only when both are empty: each argument
  then has exactly one morpheme of its own.
\<close>

lemma remainder_equal_iff:
  fixes u1 u2 :: "'a::linorder list"
  assumes "oset_inv u1" "oset_inv u2" "set u1 \<inter> set u2 = {}" "m1 \<in> set u1" "m2 \<in> set u2"
  shows "oset_insert_range (std_remove_copy u1 m1) [] = oset_insert_range (std_remove_copy u2 m2) [] \<longleftrightarrow>
    u1 = [m1] \<and> u2 = [m2]"
proof -
  have s: "set u - {m} = {} \<longleftrightarrow> u = [m]" if "oset_inv u" "m \<in> set u" for u :: "'a list" and m
    using that sorted_wrt_less_eqI [of u "[m]"] by auto
  have "oset_insert_range (std_remove_copy u1 m1) [] = oset_insert_range (std_remove_copy u2 m2) [] \<longleftrightarrow>
      set u1 - {m1} = set u2 - {m2}"
    by (simp add: oset_insert_range_eq_iff)
  also have "\<dots> \<longleftrightarrow> set u1 - {m1} = {} \<and> set u2 - {m2} = {}"
    using assms(3) by blast
  finally show ?thesis using s [OF assms(1,4)] s [OF assms(2,5)] by metis
qed

text \<open>The test the loops amount to, for one morpheme per argument.\<close>

definition site_weights ::
  "(string \<Rightarrow> nat \<Rightarrow> (string \<times> fp) list) \<Rightarrow> CallSite \<Rightarrow> nat \<Rightarrow> (string \<times> fp) list" where
  "site_weights ws site p = ws (c_str (fullyQualifiedName (callDecl site))) p"

definition stats_accepts ::
  "CheckerConfiguration \<Rightarrow> (string \<Rightarrow> nat \<Rightarrow> (string \<times> fp) list) \<Rightarrow> CallSite \<Rightarrow> nat \<Rightarrow> nat \<Rightarrow>
   string \<Rightarrow> string \<Rightarrow> ScoreCard option" where
  "stats_accepts opts ws site p q m1 m2 =
     (case (source_confidence ws site m1 q p, source_confidence ws site m2 p q) of
        (Some v1, Some v2) \<Rightarrow>
          let f1 = fit_sum m1 (site_weights ws site q); f2 = fit_sum m2 (site_weights ws site p)
          in if \<not> fp_le v1 (StatsSwappedMorphemeThreshold opts) \<and>
                \<not> fp_le v2 (StatsSwappedMorphemeThreshold opts) \<and>
                fp_less (StatsSwappedFitnessThreshold opts) f1 \<and>
                fp_less (StatsSwappedFitnessThreshold opts) f2
             then Some (UsageStatisticsBasedScoreCard f1 f2 v1 v2) else None
      | _ \<Rightarrow> None)"

context stats_checker
begin

lemma fit_eq: "fit chk m site p = Inr (fit_sum m (site_weights ws site p))"
  using src_valid by (auto simp: fit_def chk_stats src_rows site_weights_def fit_sum_def)

lemma stats_inner_None:
  assumes "oset_inv (Morphemes u1)" "oset_inv (Morphemes u2)"
    and "set (Morphemes u1) \<inter> set (Morphemes u2) = {}"
    and "m1 \<in> set (Morphemes u1)" "set ms \<subseteq> set (Morphemes u2)"
    and "\<And>m2. m2 \<in> set ms \<Longrightarrow> \<not> (Morphemes u1 = [m1] \<and> Morphemes u2 = [m2])"
  shows "stats_inner chk site u1 u2 args m1 ms = Inr None"
  using assms(5,6)
proof (induction ms)
  case (Cons m2 ms)
  have "oset_insert_range (std_remove_copy (Morphemes u1) m1) [] \<noteq>
      oset_insert_range (std_remove_copy (Morphemes u2) m2) []"
    using remainder_equal_iff [OF assms(1-4), of m2] Cons.prems by auto
  with Cons show ?case by (simp add: confidence_eq split: option.split)
qed simp

lemma stats_inner_single:
  assumes "Morphemes u1 = [m1]" "Morphemes u2 = [m2]" "m1 \<noteq> m2"
    and "Position u1 = Position (fst args)" "Position u2 = Position (snd args)"
  shows "stats_inner chk site u1 u2 args m1 [m2] = Inr
    (map_option (\<lambda>sc. \<lparr>arg1 = Position (fst args) + 1, arg2 = Position (snd args) + 1,
        morphemes1 = [m1], morphemes2 = [m2], score = sc\<rparr>)
      (stats_accepts (Opts chk) ws site (Position (fst args)) (Position (snd args)) m1 m2))"
  using assms
  by (auto simp: confidence_eq fit_eq stats_accepts_def std_remove_copy_def oset_insert_range_def
      Let_def split: option.split)

lemma stats_outer_None:
  assumes "\<And>m. m \<in> set ms \<Longrightarrow> stats_inner chk site u1 u2 args m (Morphemes u2) = Inr None"
  shows "stats_outer chk site u1 u2 args ms = Inr None"
  using assms by (induction ms) auto

lemma stats_check_eq:
  assumes "oset_inv (Morphemes a1)" "oset_inv (Morphemes a2)"
  shows "checkForStatisticsBasedSwap chk params (a1, a2) site = Inr
    (case (oset_diff (Morphemes a1) (Morphemes a2), oset_diff (Morphemes a2) (Morphemes a1)) of
       ([m1], [m2]) \<Rightarrow>
         map_option (\<lambda>sc. \<lparr>arg1 = Position a1 + 1, arg2 = Position a2 + 1,
             morphemes1 = [m1], morphemes2 = [m2], score = sc\<rparr>)
           (stats_accepts (Opts chk) ws site (Position a1) (Position a2) m1 m2)
     | _ \<Rightarrow> None)"
proof -
  let ?u1 = "morphemeSetDifference a1 a2" and ?u2 = "morphemeSetDifference a2 a1"
  have disj: "set (Morphemes ?u1) \<inter> set (Morphemes ?u2) = {}"
    using assms by (auto simp: set_oset_diff)
  show ?thesis
  proof (cases "\<exists>m1 m2. Morphemes ?u1 = [m1] \<and> Morphemes ?u2 = [m2]")
    case True
    then obtain m1 m2 where m: "Morphemes ?u1 = [m1]" "Morphemes ?u2 = [m2]" by blast
    with disj have "m1 \<noteq> m2" by auto
    from stats_inner_single [OF m this, of "(a1, a2)" site] m show ?thesis
      by (auto simp: checkForStatisticsBasedSwap_def Let_def split: option.split)
  next
    case False
    have "stats_outer chk site ?u1 ?u2 (a1, a2) (Morphemes ?u1) = Inr None"
    proof (rule stats_outer_None)
      fix m assume "m \<in> set (Morphemes ?u1)"
      with False disj show "stats_inner chk site ?u1 ?u2 (a1, a2) m (Morphemes ?u2) = Inr None"
        by (intro stats_inner_None) auto
    qed
    with False show ?thesis
      by (auto simp: checkForStatisticsBasedSwap_def Let_def split: list.split)
  qed
qed

end

subsection \<open>Properties\<close>

text \<open>C8: on a weights table, the two nested loops over the argument morphemes are
  equivalent to one test: a swap is reported only when each argument has exactly one
  morpheme the other has not, and then exactly when both are more common at the other
  position than the morpheme threshold and both fit there above the fitness threshold.\<close>

theorem stats_check_single_morpheme:
  assumes "oset_inv (Morphemes a1)" "oset_inv (Morphemes a2)"
  shows "checkForStatisticsBasedSwap (table_checker opts rows) params (a1, a2) site = Inr
    (case (oset_diff (Morphemes a1) (Morphemes a2), oset_diff (Morphemes a2) (Morphemes a1)) of
       ([m1], [m2]) \<Rightarrow>
         map_option (\<lambda>sc. \<lparr>arg1 = Position a1 + 1, arg2 = Position a2 + 1,
             morphemes1 = [m1], morphemes2 = [m2], score = sc\<rparr>)
           (stats_accepts opts (weights_at (storable rows)) site (Position a1) (Position a2) m1 m2)
     | _ \<Rightarrow> None)"
  by (rule table_chk.stats_check_eq [OF assms, of opts rows params site, unfolded table_checker_simps])

definition swap_table :: "weight_row list" where
  "swap_table =
     [\<lparr>row_func = ''f'', row_arg = 0, row_morpheme = ''cats'', row_value = Fin 1\<rparr>,
      \<lparr>row_func = ''f'', row_arg = 1, row_morpheme = ''dogs'', row_value = Fin 1\<rparr>]"

lemma round32_half [simp]: "fp_mul (Fin 1) (Fin 1) = Fin 1" "fp_add (Fin 0) (Fin 1) = Fin 1"
  "fp_mul (Fin 0) (Fin 1) = Fin 0" "fp_add (Fin 0) (Fin 0) = Fin 0" "fp_add (Fin 1) (Fin 0) = Fin 1"
  by (simp_all add: fp_mul_def fp_add_def signed_zero_def)

lemma swap_table_weights:
  "weights_at (storable swap_table) ''f'' 0 = [(''cats'', Fin 1)]"
  "weights_at (storable swap_table) ''f'' (Suc 0) = [(''dogs'', Fin 1)]"
  by (simp_all add: weights_at_def rows_at_def swap_table_def storable_def
      to_int64_def c_str_def)

theorem stats_check_single_morpheme_witness:
  "checkForStatisticsBasedSwap (table_checker (default_config []) swap_table)
     (mkmorphs [''oldCats''] 0, mkmorphs [''oldDogs''] 1)
     (mkmorphs [''dogs'', ''old''] 0, mkmorphs [''cats'', ''old''] 1)
     (example_site ''oldCats'' ''oldDogs'' ''oldDogs'' ''oldCats'') = Inr (Some
       \<lparr>arg1 = 1, arg2 = 2, morphemes1 = [''dogs''], morphemes2 = [''cats''],
        score = UsageStatisticsBasedScoreCard (Fin 1) (Fin 1) (Fin 1) (Fin 1)\<rparr>)"
  using stats_check_single_morpheme [of "mkmorphs [''dogs'', ''old''] 0" "mkmorphs [''cats'', ''old''] 1"
      "default_config []" swap_table "(mkmorphs [''oldCats''] 0, mkmorphs [''oldDogs''] 1)"
      "example_site ''oldCats'' ''oldDogs'' ''oldDogs'' ''oldCats''"]
  by (simp add: oset_diff_def oset_insert_range_def stats_accepts_def source_confidence_def
      site_weights_def swap_table_weights Let_def c_str_def fit_sum_def similarity_def)

end
