(* ===== verification/Pairwise.thy ===== *)
theory Pairwise
  imports Prelude
begin

text \<open>
  \<open>pairwise_combinations\<close> of \<^verbatim>\<open>src/SwappedArgChecker.cpp\<close>: all pairs of
  argument positions, enumerated by running \<^verbatim>\<open>std::prev_permutation\<close> over
  a bit vector with two bits set. \<open>prev_permutation\<close> is the library algorithm
  (the longest non-decreasing suffix, the last smaller element, a swap, a reversal);
  its runs are shown to be the pairs in lexicographic order.
\<close>

subsection \<open>The library algorithm\<close>

text \<open>
  \<open>descent xs\<close>: the largest \<open>i\<close> with \<open>xs ! (i + 1) < xs ! i\<close>, searched from
  the end; \<open>last_less xs i\<close>: the largest \<open>j\<close> with \<open>xs ! j < xs ! i\<close>.
\<close>

fun descent_from :: "bool list \<Rightarrow> nat \<Rightarrow> nat option" where
  "descent_from xs 0 = None"
| "descent_from xs (Suc i) = (if xs ! Suc i < xs ! i then Some i else descent_from xs i)"

fun last_less_from :: "bool list \<Rightarrow> bool \<Rightarrow> nat \<Rightarrow> nat" where
  "last_less_from xs v 0 = 0"
| "last_less_from xs v (Suc j) = (if xs ! Suc j < v then Suc j else last_less_from xs v j)"

definition reverse_from :: "nat \<Rightarrow> 'a list \<Rightarrow> 'a list" where
  "reverse_from i xs = take i xs @ rev (drop i xs)"

definition prev_permutation :: "bool list \<Rightarrow> bool list \<times> bool" where
  "prev_permutation xs =
     (if length xs < 2 then (xs, False)
      else case descent_from xs (length xs - 1) of
        None \<Rightarrow> (rev xs, False)
      | Some i \<Rightarrow>
          let j = last_less_from xs (xs ! i) (length xs - 1)
          in (reverse_from (Suc i) (xs[i := xs ! j, j := xs ! i]), True))"

subsection \<open>The code\<close>

definition NOT_FOUND :: nat where
  "NOT_FOUND = 2 ^ 32 - 1"

text \<open>The inner loop of one round: the first two set bits.\<close>

fun scan_bits :: "bool list \<Rightarrow> nat \<Rightarrow> nat \<times> nat \<Rightarrow> (nat \<times> nat) result" where
  "scan_bits [] idx (first, second) = Inr (first, second)"
| "scan_bits (b # bs) idx (first, second) =
     (if b then
        if first = NOT_FOUND then scan_bits bs (Suc idx) (idx, second)
        else bind_result (cassert (second = NOT_FOUND)) (\<lambda>_. scan_bits bs (Suc idx) (first, idx))
      else scan_bits bs (Suc idx) (first, second))"

definition scan_pair :: "bool list \<Rightarrow> (nat \<times> nat) result" where
  "scan_pair bitset =
     bind_result (scan_bits bitset 0 (NOT_FOUND, NOT_FOUND))
       (\<lambda>p. bind_result (cassert (fst p \<noteq> NOT_FOUND \<and> snd p \<noteq> NOT_FOUND)) (\<lambda>_. Inr p))"

text \<open>
  The do-while loop. The bit vector, read as a binary number with its first bit the
  highest, gets smaller in every round that is not the last.
\<close>

fun bits_value :: "bool list \<Rightarrow> nat" where
  "bits_value [] = 0"
| "bits_value (b # bs) = (if b then 2 ^ length bs else 0) + bits_value bs"

lemma bits_value_bound: "bits_value bs < 2 ^ length bs"
  by (induction bs) auto

lemma bits_value_append:
  "bits_value (xs @ ys) = bits_value xs * 2 ^ length ys + bits_value ys"
  by (induction xs) (auto simp: power_add algebra_simps)

lemma descent_from_Some:
  "descent_from xs n = Some i \<Longrightarrow> i < n \<and> xs ! Suc i < xs ! i"
  by (induction n) (auto split: if_splits)

lemma last_less_from_gt:
  "i < k \<Longrightarrow> k \<le> n \<Longrightarrow> xs ! k < v \<Longrightarrow>
     i < last_less_from xs v n \<and> last_less_from xs v n \<le> n \<and> xs ! last_less_from xs v n < v"
proof (induction n)
  case (Suc n)
  then show ?case by (cases "k = Suc n") (auto simp: le_Suc_eq)
qed simp

lemma prev_permutation_length [simp]: "length (fst (prev_permutation xs)) = length xs"
  by (auto simp: prev_permutation_def reverse_from_def Let_def split: option.split)

lemma prev_permutation_decreases:
  assumes "prev_permutation xs = (ys, True)"
  shows "bits_value ys < bits_value xs"
proof -
  let ?n = "length xs - 1"
  from assms obtain i where len: "2 \<le> length xs" and d: "descent_from xs ?n = Some i"
    by (auto simp: prev_permutation_def split: if_splits option.splits)
  define j where "j = last_less_from xs (xs ! i) ?n"
  from descent_from_Some [OF d] have i: "i < ?n" and lt: "xs ! Suc i < xs ! i" by auto
  then have j: "i < j" "j \<le> ?n" "xs ! j < xs ! i"
    using last_less_from_gt [of i "Suc i" ?n xs "xs ! i"] by (auto simp: j_def)
  then have b: "xs ! i = True" "xs ! j = False" by auto
  have il: "i < length xs" using i by simp
  define zs where "zs = xs[i := xs ! j, j := xs ! i]"
  have ys: "ys = take (Suc i) zs @ rev (drop (Suc i) zs)"
    using assms d len by (simp add: prev_permutation_def reverse_from_def j_def zs_def Let_def)
  have "take (Suc i) zs = take i xs @ [False]"
    using j il b by (simp add: zs_def take_Suc_conv_app_nth)
  then have yv: "bits_value ys = bits_value (take i xs) * 2 ^ (length xs - i) +
      bits_value (rev (drop (Suc i) zs))"
    using il by (simp add: ys bits_value_append power_add [symmetric] Suc_diff_Suc zs_def
        del: power_Suc add: power_Suc [symmetric])
  have "bits_value (rev (drop (Suc i) zs)) < 2 ^ (length xs - Suc i)"
    using bits_value_bound [of "rev (drop (Suc i) zs)"] by (simp add: zs_def)
  moreover have "bits_value xs = bits_value (take i xs) * 2 ^ (length xs - i) +
      (2 ^ (length xs - Suc i) + bits_value (drop (Suc i) xs))"
  proof -
    have "xs = take i xs @ True # drop (Suc i) xs"
      using il b by (metis id_take_nth_drop)
    then have "bits_value xs = bits_value (take i xs @ True # drop (Suc i) xs)" by simp
    then show ?thesis using il by (simp add: bits_value_append Suc_diff_Suc)
  qed
  ultimately show ?thesis using yv by simp
qed

function combine_loop :: "bool list \<Rightarrow> (nat \<times> nat) list \<Rightarrow> (nat \<times> nat) list result" where
  "combine_loop bitset ret =
     bind_result (scan_pair bitset) (\<lambda>p.
       let ret' = ret @ [p]
       in if snd (prev_permutation bitset) then combine_loop (fst (prev_permutation bitset)) ret'
          else Inr ret')"
  by pat_completeness auto
termination
proof (relation "measure (\<lambda>(bitset, ret). bits_value bitset)")
  fix bitset :: "bool list" and ret ret' :: "(nat \<times> nat) list" and p :: "nat \<times> nat"
  assume "snd (prev_permutation bitset)"
  then have "prev_permutation bitset = (fst (prev_permutation bitset), True)"
    by (metis prod.collapse)
  then show "((fst (prev_permutation bitset), ret'), bitset, ret)
      \<in> measure (\<lambda>(bitset, ret). bits_value bitset)"
    using prev_permutation_decreases by auto
qed simp

declare combine_loop.simps [simp del]

text \<open>\<open>bitset(2, true)\<close> resized to the count: cut when the count is below two.\<close>

definition pairwise_combinations :: "nat \<Rightarrow> (nat \<times> nat) list result" where
  "pairwise_combinations totalCount =
     combine_loop (take totalCount [True, True] @ replicate (totalCount - 2) False) []"

subsection \<open>The enumeration\<close>

text \<open>The bit vector of the pair \<open>(i, j)\<close> among \<open>n\<close>, in runs.\<close>

definition pair_bits :: "nat \<Rightarrow> nat \<Rightarrow> nat \<Rightarrow> bool list" where
  "pair_bits n i j =
     replicate i False @ True # replicate (j - Suc i) False @ True # replicate (n - Suc j) False"

lemma length_pair_bits [simp]: "i < j \<Longrightarrow> j < n \<Longrightarrow> length (pair_bits n i j) = n"
  by (simp add: pair_bits_def)

lemma nth_pair_bits: "i < j \<Longrightarrow> j < n \<Longrightarrow> k < n \<Longrightarrow> pair_bits n i j ! k \<longleftrightarrow> k = i \<or> k = j"
  by (auto simp: pair_bits_def nth_append nth_Cons' less_diff_conv)

lemma pair_bits_eqI:
  assumes "length xs = n" "i < j" "j < n" "\<And>k. k < n \<Longrightarrow> xs ! k \<longleftrightarrow> k = i \<or> k = j"
  shows "xs = pair_bits n i j"
  using assms by (auto intro!: nth_equalityI simp: nth_pair_bits)

lemma scan_bits_replicate:
  "scan_bits (replicate k False @ bs) idx st = scan_bits bs (idx + k) st"
  by (induction k arbitrary: idx; cases st) auto

lemma scan_pair_bits:
  assumes "i < j" "j < n" "n \<le> NOT_FOUND"
  shows "scan_pair (pair_bits n i j) = Inr (i, j)"
proof -
  have "scan_bits (replicate k False) idx st = Inr st" for k idx st
    using scan_bits_replicate [of k "[]" idx st] by (cases st) simp
  then show ?thesis
    using assms by (simp add: scan_pair_def pair_bits_def scan_bits_replicate)
qed

lemma descent_fromI:
  "i < n \<Longrightarrow> xs ! Suc i < xs ! i \<Longrightarrow> (\<And>k. i < k \<Longrightarrow> k < n \<Longrightarrow> \<not> xs ! Suc k < xs ! k) \<Longrightarrow>
     descent_from xs n = Some i"
  by (induction n) (auto simp: less_Suc_eq)

lemma descent_from_NoneI:
  "(\<And>k. k < n \<Longrightarrow> \<not> xs ! Suc k < xs ! k) \<Longrightarrow> descent_from xs n = None"
  by (induction n) auto

lemma last_less_fromI:
  "i \<le> n \<Longrightarrow> xs ! i < v \<Longrightarrow> (\<And>k. i < k \<Longrightarrow> k \<le> n \<Longrightarrow> \<not> xs ! k < v) \<Longrightarrow>
     last_less_from xs v n = i"
  by (induction n) (auto simp: le_Suc_eq)

lemma nth_reverse_from:
  assumes "k < length xs"
  shows "reverse_from i xs ! k = (if k < i then xs ! k else xs ! (length xs - 1 - (k - i)))"
proof (cases "k < i")
  case False
  then have "i + (length xs - Suc (i + (k - i))) = length xs - 1 - (k - i)"
    using assms by simp
  with False assms show ?thesis by (simp add: reverse_from_def nth_append rev_nth)
qed (use assms in \<open>simp add: reverse_from_def nth_append\<close>)

lemma length_reverse_from [simp]: "length (reverse_from i xs) = length xs"
  by (auto simp: reverse_from_def)

lemma prev_permutation_next_column:
  assumes "i < j" "Suc j < n"
  shows "prev_permutation (pair_bits n i j) = (pair_bits n i (Suc j), True)"
proof -
  let ?xs = "pair_bits n i j"
  have d: "descent_from ?xs (n - Suc 0) = Some j"
    using assms by (intro descent_fromI) (auto simp: nth_pair_bits)
  have l: "last_less_from ?xs True (n - Suc 0) = n - Suc 0"
    using assms by (intro last_less_fromI) (auto simp: nth_pair_bits)
  have x: "?xs ! j" "\<not> ?xs ! (n - Suc 0)"
    using assms by (auto simp: nth_pair_bits)
  have "reverse_from (Suc j) (?xs[j := False, n - Suc 0 := True]) = pair_bits n i (Suc j)"
    using assms
    by (intro pair_bits_eqI) (auto simp: nth_reverse_from nth_list_update nth_pair_bits)
  with d l x assms show ?thesis by (simp add: prev_permutation_def Let_def)
qed

lemma prev_permutation_next_row:
  assumes "Suc (Suc i) < n"
  shows "prev_permutation (pair_bits n i (n - 1)) = (pair_bits n (Suc i) (Suc (Suc i)), True)"
proof -
  let ?xs = "pair_bits n i (n - Suc 0)"
  have d: "descent_from ?xs (n - Suc 0) = Some i"
    using assms by (intro descent_fromI) (auto simp: nth_pair_bits)
  have l: "last_less_from ?xs True (n - Suc 0) = n - 2"
    using assms by (intro last_less_fromI) (auto simp: nth_pair_bits)
  have x: "?xs ! i" "\<not> ?xs ! (n - 2)"
    using assms by (auto simp: nth_pair_bits)
  have "reverse_from (Suc i) (?xs[i := False, n - 2 := True]) = pair_bits n (Suc i) (Suc (Suc i))"
    using assms
    by (intro pair_bits_eqI) (auto simp: nth_reverse_from nth_list_update nth_pair_bits)
  with d l x assms show ?thesis by (simp add: prev_permutation_def Let_def numeral_2_eq_2)
qed

lemma prev_permutation_last:
  assumes "2 \<le> n"
  shows "snd (prev_permutation (pair_bits n (n - 2) (n - 1))) = False"
proof -
  have "descent_from (pair_bits n (n - 2) (n - 1)) (n - 1) = None"
    using assms by (intro descent_from_NoneI) (auto simp: nth_pair_bits)
  then show ?thesis using assms by (simp add: prev_permutation_def)
qed

text \<open>The pairs from \<open>(i, j)\<close> on, in lexicographic order.\<close>

definition row_from :: "nat \<Rightarrow> nat \<Rightarrow> nat \<Rightarrow> (nat \<times> nat) list" where
  "row_from n i j = map (Pair i) [j..<n]"

definition all_pairs :: "nat \<Rightarrow> (nat \<times> nat) list" where
  "all_pairs n = concat (map (\<lambda>i. row_from n i (Suc i)) [0..<n])"

definition pairs_from :: "nat \<Rightarrow> nat \<Rightarrow> nat \<Rightarrow> (nat \<times> nat) list" where
  "pairs_from n i j = row_from n i j @ concat (map (\<lambda>k. row_from n k (Suc k)) [Suc i..<n])"

lemma row_from_Cons: "j < n \<Longrightarrow> row_from n i j = (i, j) # row_from n i (Suc j)"
  by (simp add: row_from_def upt_conv_Cons)

lemma combine_loop_pairs:
  assumes "i < j" "j < n" "n \<le> NOT_FOUND"
  shows "combine_loop (pair_bits n i j) ret = Inr (ret @ pairs_from n i j)"
  using assms
proof (induction "(n - i, n - j)" arbitrary: i j ret rule: wf_induct_rule
    [OF wf_lex_prod [OF wf_less_than wf_less_than]])
  case (1 i j ret)
  note s = scan_pair_bits [OF 1(2-4)]
  consider (col) "Suc j < n" | (row) "Suc j = n" "Suc i < j" | (last) "Suc j = n" "Suc i = j"
    using 1(2,3) by linarith
  then show ?case
  proof cases
    case col
    have "combine_loop (pair_bits n i j) ret = combine_loop (pair_bits n i (Suc j)) (ret @ [(i, j)])"
      by (subst combine_loop.simps)
        (simp add: s prev_permutation_next_column [OF 1(2) col])
    also have "\<dots> = Inr (ret @ [(i, j)] @ pairs_from n i (Suc j))"
      using 1(1) [of i "Suc j" "ret @ [(i, j)]"] 1(2-4) col by simp
    finally show ?thesis using 1(3) by (simp add: pairs_from_def row_from_Cons [of j])
  next
    case row
    then have j: "j = n - 1" by simp
    have p: "prev_permutation (pair_bits n i j) = (pair_bits n (Suc i) (Suc (Suc i)), True)"
      using prev_permutation_next_row [of i n] row j by simp
    have "combine_loop (pair_bits n i j) ret =
        combine_loop (pair_bits n (Suc i) (Suc (Suc i))) (ret @ [(i, j)])"
      by (subst combine_loop.simps) (simp add: s p)
    also have "\<dots> = Inr (ret @ [(i, j)] @ pairs_from n (Suc i) (Suc (Suc i)))"
      using 1(1) [of "Suc i" "Suc (Suc i)" "ret @ [(i, j)]"] 1(2-4) row
      by (simp add: diff_less_mono2)
    finally show ?thesis
      using row by (simp add: pairs_from_def row_from_Cons [of j] row_from_def upt_conv_Cons)
  next
    case last
    then have ij: "i = n - 2" "j = n - 1" "2 \<le> n" by auto
    have "snd (prev_permutation (pair_bits n i j)) = False"
      using prev_permutation_last [OF ij(3)] ij by simp
    then have "combine_loop (pair_bits n i j) ret = Inr (ret @ [(i, j)])"
      by (subst combine_loop.simps) (simp add: s)
    then show ?thesis
      using last by (simp add: pairs_from_def row_from_def upt_conv_Cons)
  qed
qed

lemma pairwise_all_pairs:
  assumes "2 \<le> n" "n \<le> NOT_FOUND"
  shows "pairwise_combinations n = Inr (all_pairs n)"
proof -
  have "take n [True, True] @ replicate (n - 2) False = pair_bits n 0 1"
    using assms by (simp add: pair_bits_def numeral_2_eq_2)
  moreover have "pairs_from n 0 1 = all_pairs n"
    using assms by (simp add: pairs_from_def all_pairs_def upt_conv_Cons)
  ultimately show ?thesis
    using combine_loop_pairs [of 0 1 n "[]"] assms by (simp add: pairwise_combinations_def)
qed

lemma set_all_pairs: "set (all_pairs n) = {(i, j). i < j \<and> j < n}"
  by (force simp: all_pairs_def row_from_def image_iff)

definition pair_less :: "nat \<times> nat \<Rightarrow> nat \<times> nat \<Rightarrow> bool" where
  "pair_less p q \<longleftrightarrow> fst p < fst q \<or> fst p = fst q \<and> snd p < snd q"

lemma sorted_all_pairs: "sorted_wrt pair_less (all_pairs n)"
proof -
  have "sorted_wrt pair_less (concat (map (\<lambda>i. row_from n i (Suc i)) [0..<m]))" for m
    by (induction m)
      (auto simp: sorted_wrt_append row_from_def sorted_wrt_map pair_less_def)
  then show ?thesis by (simp add: all_pairs_def)
qed

lemma length_all_pairs: "2 * length (all_pairs n) = n * (n - 1)"
proof (induction n)
  case (Suc n)
  have len: "length (all_pairs m) = sum_list (map (\<lambda>i. m - Suc i) [0..<m])" for m
    by (simp add: all_pairs_def length_concat row_from_def comp_def)
  have "sum_list (map (\<lambda>i. Suc n - Suc i) [0..<n]) = sum_list (map (\<lambda>i. Suc (n - Suc i)) [0..<n])"
    by (intro arg_cong [of _ _ sum_list] map_cong) auto
  also have "\<dots> = sum_list (map (\<lambda>i. n - Suc i) [0..<n]) + n"
    by (simp add: sum_list_Suc)
  finally have "length (all_pairs (Suc n)) = length (all_pairs n) + n"
    using len [of n] len [of "Suc n"] by simp
  with Suc show ?case by (cases n) simp_all
qed (simp add: all_pairs_def)

text \<open>C3: for every argument count from 2 up to the sentinel \<open>2 ^ 32 - 1\<close>, the
  permutation loop stops, no assertion fails, and it returns every pair of positions
  \<open>i < j\<close> once, in lexicographic order, \<open>n * (n - 1) / 2\<close> of them.\<close>

theorem pairwise_combinations_correct:
  assumes "2 \<le> n" "n \<le> NOT_FOUND"
  shows "\<exists>ps. pairwise_combinations n = Inr ps \<and> set ps = {(i, j). i < j \<and> j < n} \<and>
    sorted_wrt pair_less ps \<and> 2 * length ps = n * (n - 1)"
  using assms
  by (simp add: pairwise_all_pairs set_all_pairs sorted_all_pairs length_all_pairs)

theorem pairwise_combinations_witness:
  "\<exists>ps. pairwise_combinations 4 = Inr ps \<and> set ps = {(i, j). i < j \<and> j < 4} \<and>
    sorted_wrt pair_less ps \<and> 2 * length ps = 12"
  using pairwise_combinations_correct [of 4] by (simp add: NOT_FOUND_def)

end
