(* ===== verification/Swap_Checker.thy ===== *)
theory Swap_Checker
  imports Stats_Check Pairwise
begin

text \<open>
  The checker object of \<^verbatim>\<open>src/SwappedArgChecker.cpp\<close>: its constructor
  and \<open>CheckSite\<close>, which runs the cover-based check and then the
  statistics-based one on every pair of arguments. \<open>pair_report\<close> is the body of
  the loop over the pairs as a function of the pair.
\<close>

subsection \<open>The code\<close>

datatype Check = CoverBased | StatsBased | All

definition Checker_new :: "(string \<Rightarrow> open_outcome) \<Rightarrow> CheckerConfiguration \<Rightarrow> Checker" where
  "Checker_new open_v2 opts =
     \<lparr>Opts = opts,
      Stats =
        (if ModelPath opts \<noteq> [] then
           let st = Statistics_new open_v2 (ModelPath opts)
           in if \<not> valid st then None else Some st
         else None)\<rparr>"

text \<open>\<open>morphemeCollector\<close>: all names of one argument go into one set.\<close>

fun collect_names :: "string list \<Rightarrow> string list \<Rightarrow> string list" where
  "collect_names [] ms = ms"
| "collect_names (name # names) ms = collect_names names (oset_insert_range (split name) ms)"

definition morphemeCollector :: "string list list \<Rightarrow> nat \<Rightarrow> MorphemeSet result" where
  "morphemeCollector args pos =
     (if pos \<ge> length args then Inl Out_Of_Range
      else Inr \<lparr>Morphemes = collect_names (args ! pos) [], Position = pos\<rparr>)"

definition check_pair :: "Checker \<Rightarrow> CallSite \<Rightarrow> Check \<Rightarrow> nat \<times> nat \<Rightarrow> Result list \<Rightarrow> Result list result" where
  "check_pair chk site whichCheck pairwiseArgs results =
     (let args = positionalArgNames site;
          param1 = (case getParamName site (fst pairwiseArgs) of None \<Rightarrow> [] | Some n \<Rightarrow> n);
          param2 = (case getParamName site (snd pairwiseArgs) of None \<Rightarrow> [] | Some n \<Rightarrow> n);
          param1Morphemes = \<lparr>Morphemes = split param1, Position = fst pairwiseArgs\<rparr>;
          param2Morphemes = \<lparr>Morphemes = split param2, Position = snd pairwiseArgs\<rparr>
      in
      bind_result (morphemeCollector args (fst pairwiseArgs)) (\<lambda>c1.
      bind_result (morphemeCollector args (snd pairwiseArgs)) (\<lambda>c2.
      let (m1, low1) = removeLowQualityMorphemes (Morphemes c1);
          (m2, low2) = removeLowQualityMorphemes (Morphemes c2);
          arg1Morphemes = c1\<lparr>Morphemes := m1\<rparr>; arg2Morphemes = c2\<lparr>Morphemes := m2\<rparr>
      in
      if low1 \<or> low2 then Inr results
      else
      let (p1, lowp1) = removeLowQualityMorphemes (Morphemes param1Morphemes);
          (p2, lowp2) = removeLowQualityMorphemes (Morphemes param2Morphemes);
          named = (param1 \<noteq> [] \<and> param2 \<noteq> [])
      in
      if named \<and> (lowp1 \<or> lowp2) then Inr results
      else
      bind_result
        (if named \<and> (whichCheck = All \<or> whichCheck = CoverBased)
         then checkForCoverBasedSwap chk
           (param1Morphemes\<lparr>Morphemes := p1\<rparr>, param2Morphemes\<lparr>Morphemes := p2\<rparr>)
           (arg1Morphemes, arg2Morphemes) site
         else Inr None) (\<lambda>coverWarning.
      case coverWarning of
        Some r \<Rightarrow> Inr (results @ [r])
      | None \<Rightarrow>
          if (whichCheck = All \<or> whichCheck = StatsBased) \<and> Stats chk \<noteq> None then
            bind_result (deref (Stats chk)) (\<lambda>st.
            bind_result (cassert (valid st)) (\<lambda>_.
            bind_result
              (checkForStatisticsBasedSwap chk (param1Morphemes, param2Morphemes)
                 (arg1Morphemes, arg2Morphemes) site) (\<lambda>statsWarning.
            case statsWarning of
              Some r \<Rightarrow> Inr (results @ [r])
            | None \<Rightarrow> Inr results)))
          else Inr results))))"

definition CheckSite :: "Checker \<Rightarrow> CallSite \<Rightarrow> Check \<Rightarrow> Result list result" where
  "CheckSite chk site whichCheck =
     (if length (positionalArgNames site) < 2 then Inr []
      else
      bind_result (pairwise_combinations (length (positionalArgNames site))) (\<lambda>argPairs.
        fold_result (check_pair chk site whichCheck) argPairs []))"

subsection \<open>The loop body without its accumulator\<close>

definition param_name :: "CallSite \<Rightarrow> nat \<Rightarrow> string" where
  "param_name site p = (case getParamName site p of None \<Rightarrow> [] | Some n \<Rightarrow> n)"

definition arg_morphemes :: "CallSite \<Rightarrow> nat \<Rightarrow> string list" where
  "arg_morphemes site p = collect_names (positionalArgNames site ! p) []"

definition cover_part :: "Checker \<Rightarrow> CallSite \<Rightarrow> Check \<Rightarrow> nat \<Rightarrow> nat \<Rightarrow> Result option result" where
  "cover_part chk site which i j =
     (if param_name site i \<noteq> [] \<and> param_name site j \<noteq> [] \<and> (which = All \<or> which = CoverBased)
      then checkForCoverBasedSwap chk
        (mkmorphs (split (param_name site i)) i, mkmorphs (split (param_name site j)) j)
        (mkmorphs (arg_morphemes site i) i, mkmorphs (arg_morphemes site j) j) site
      else Inr None)"

definition stats_part :: "Checker \<Rightarrow> CallSite \<Rightarrow> Check \<Rightarrow> nat \<Rightarrow> nat \<Rightarrow> Result option result" where
  "stats_part chk site which i j =
     (case Stats chk of
        None \<Rightarrow> Inr None
      | Some st \<Rightarrow>
          if which = All \<or> which = StatsBased then
            bind_result (cassert (valid st)) (\<lambda>_. checkForStatisticsBasedSwap chk
              (mkmorphs (split (param_name site i)) i, mkmorphs (split (param_name site j)) j)
              (mkmorphs (arg_morphemes site i) i, mkmorphs (arg_morphemes site j) j) site)
          else Inr None)"

definition pair_report :: "Checker \<Rightarrow> CallSite \<Rightarrow> Check \<Rightarrow> nat \<Rightarrow> nat \<Rightarrow> Result option result" where
  "pair_report chk site which i j =
     (if arg_morphemes site i = [] \<or> arg_morphemes site j = [] then Inr None
      else if param_name site i \<noteq> [] \<and> param_name site j \<noteq> [] \<and>
        (split (param_name site i) = [] \<or> split (param_name site j) = []) then Inr None
      else bind_result (cover_part chk site which i j) (\<lambda>cover.
        case cover of Some r \<Rightarrow> Inr (Some r) | None \<Rightarrow> stats_part chk site which i j))"

definition append_option :: "'a list \<Rightarrow> 'a option \<Rightarrow> 'a list" where
  "append_option xs x = (case x of None \<Rightarrow> xs | Some a \<Rightarrow> xs @ [a])"

lemma append_option_simps [simp]: "append_option xs None = xs" "append_option xs (Some a) = xs @ [a]"
  by (simp_all add: append_option_def)

lemma mkmorphs_record: "\<lparr>Morphemes = m, Position = p\<rparr> = mkmorphs m p"
  by (simp add: mkmorphs_def)

lemma mkmorphs_update [simp]: "(mkmorphs m p)\<lparr>Morphemes := m'\<rparr> = mkmorphs m' p"
  by (simp add: mkmorphs_def)

lemma check_pair_unfold:
  assumes "i < length (positionalArgNames site)" "j < length (positionalArgNames site)"
  shows "check_pair chk site which (i, j) results =
    (if arg_morphemes site i = [] \<or> arg_morphemes site j = [] then Inr results
     else if (param_name site i \<noteq> [] \<and> param_name site j \<noteq> []) \<and>
       (split (param_name site i) = [] \<or> split (param_name site j) = []) then Inr results
     else bind_result (cover_part chk site which i j) (\<lambda>cover.
       case cover of Some r \<Rightarrow> Inr (results @ [r])
       | None \<Rightarrow> (case Stats chk of None \<Rightarrow> Inr results
         | Some st \<Rightarrow> if which = All \<or> which = StatsBased then
             bind_result (cassert (valid st)) (\<lambda>_. bind_result
               (checkForStatisticsBasedSwap chk
                 (mkmorphs (split (param_name site i)) i, mkmorphs (split (param_name site j)) j)
                 (mkmorphs (arg_morphemes site i) i, mkmorphs (arg_morphemes site j) j) site)
               (\<lambda>r. Inr (append_option results r)))
           else Inr results)))"
proof -
  have "case_option (Inr results) (\<lambda>r. Inr (results @ [r])) =
      (\<lambda>r. Inr (append_option results r) :: Result list result)"
    by (rule ext) (simp add: append_option_def split: option.split)
  then show ?thesis
    using assms
    by (cases "Stats chk")
      (simp_all add: check_pair_def cover_part_def morphemeCollector_def removeLowQualityMorphemes_def
        param_name_def [symmetric] arg_morphemes_def [symmetric] mkmorphs_record Let_def cong: if_cong)
qed

lemma check_pair_eq:
  assumes "i < length (positionalArgNames site)" "j < length (positionalArgNames site)"
  shows "check_pair chk site which (i, j) results =
    bind_result (pair_report chk site which i j) (\<lambda>r. Inr (append_option results r))"
proof (cases "cover_part chk site which i j")
  case (Inl e)
  then show ?thesis by (simp add: check_pair_unfold [OF assms] pair_report_def)
next
  case (Inr cover)
  have d: "bind_result (bind_result u f) g = bind_result u (\<lambda>x. bind_result (f x) g)"
    for u :: "unit result" and f :: "unit \<Rightarrow> Result option result" and g :: "Result option \<Rightarrow> Result list result"
    by (cases u) simp_all
  show ?thesis
    using Inr
    by (cases cover; cases "Stats chk")
      (simp_all add: check_pair_unfold [OF assms] pair_report_def stats_part_def d)
qed

lemma fold_result_append_option:
  "fold_result (\<lambda>x rs. bind_result (g x) (\<lambda>r. Inr (append_option rs r))) xs acc = Inr rs \<longleftrightarrow>
     (\<forall>x \<in> set xs. ok_result (g x)) \<and> rs = acc @ List.map_filter (\<lambda>x. projr (g x)) xs"
proof (induction xs arbitrary: acc)
  case Nil
  then show ?case by (auto simp: List.map_filter_def)
next
  case (Cons x xs)
  show ?case
  proof (cases "g x")
    case (Inr r)
    then show ?thesis
      by (cases r) (simp_all add: Cons.IH map_filter_simps)
  qed simp
qed

lemma fold_result_cong:
  "(\<And>x s. x \<in> set xs \<Longrightarrow> f x s = g x s) \<Longrightarrow> fold_result f xs s = fold_result g xs s"
proof (induction xs arbitrary: s)
  case (Cons x xs)
  then show ?case by (cases "g x s") simp_all
qed simp

lemma CheckSite_few: "length (positionalArgNames site) < 2 \<Longrightarrow> CheckSite chk site which = Inr []"
  by (simp add: CheckSite_def)

abbreviation arg_count :: "CallSite \<Rightarrow> nat" where
  "arg_count site \<equiv> length (positionalArgNames site)"

lemma CheckSite_Inr_iff:
  assumes "arg_count site \<le> NOT_FOUND"
  shows "CheckSite chk site which = Inr rs \<longleftrightarrow>
    (\<forall>i j. i < j \<longrightarrow> j < arg_count site \<longrightarrow> ok_result (pair_report chk site which i j)) \<and>
    rs = List.map_filter (\<lambda>(i, j). projr (pair_report chk site which i j)) (all_pairs (arg_count site))"
proof (cases "arg_count site < 2")
  case True
  then have "all_pairs (arg_count site) = []" using length_all_pairs [of "arg_count site"] by auto
  with True show ?thesis by (auto simp: CheckSite_few List.map_filter_def)
next
  case False
  let ?ps = "all_pairs (arg_count site)"
  let ?g = "\<lambda>p. pair_report chk site which (fst p) (snd p)"
  have "CheckSite chk site which = fold_result (check_pair chk site which) ?ps []"
    using False assms by (simp add: CheckSite_def pairwise_all_pairs)
  also have "\<dots> = fold_result (\<lambda>p rs. bind_result (?g p) (\<lambda>r. Inr (append_option rs r))) ?ps []"
    by (rule fold_result_cong) (auto simp: set_all_pairs check_pair_eq)
  finally show ?thesis
    by (auto simp: fold_result_append_option [of ?g] set_all_pairs case_prod_unfold)
qed

subsection \<open>What the checks return\<close>

text \<open>The shape of a report on the pair \<open>(i, j)\<close>.\<close>

definition report_on :: "CallSite \<Rightarrow> nat \<Rightarrow> nat \<Rightarrow> Result \<Rightarrow> bool" where
  "report_on site i j r \<longleftrightarrow> arg1 r = i + 1 \<and> arg2 r = j + 1 \<and>
     morphemes1 r \<noteq> [] \<and> morphemes2 r \<noteq> [] \<and>
     set (morphemes1 r) = set (arg_morphemes site i) - set (arg_morphemes site j) \<and>
     set (morphemes2 r) = set (arg_morphemes site j) - set (arg_morphemes site i)"

lemma oset_inv_collect_names [simp]: "oset_inv s \<Longrightarrow> oset_inv (collect_names ns s)"
  by (induction ns arbitrary: s) auto

lemma oset_inv_arg_morphemes [simp]: "oset_inv (arg_morphemes site i)"
  by (simp add: arg_morphemes_def)

lemma set_collect_names:
  "set (collect_names ns s) = (\<Union>n \<in> set ns. set (split n)) \<union> set s"
  by (induction ns arbitrary: s) auto

lemma cover_check_fields:
  assumes "checkForCoverBasedSwap chk params args site = Inr (Some r)"
  shows "arg1 r = Position (fst args) + 1 \<and> arg2 r = Position (snd args) + 1 \<and>
    morphemes1 r = nonLowEntropyDifference (Morphemes (fst args)) (Morphemes (snd args)) \<and>
    morphemes2 r = nonLowEntropyDifference (Morphemes (snd args)) (Morphemes (fst args)) \<and>
    morphemes1 r \<noteq> [] \<and> morphemes2 r \<noteq> []"
  using assms
  by (auto simp: checkForCoverBasedSwap_def Let_def bind_result_Inr split: if_splits)

lemma stats_inner_fields:
  assumes "stats_inner chk site u1 u2 args m1 ms = Inr (Some r)"
  shows "arg1 r = Position (fst args) + 1 \<and> arg2 r = Position (snd args) + 1 \<and>
    morphemes1 r = Morphemes u1 \<and> morphemes2 r = Morphemes u2 \<and> ms \<noteq> []"
  using assms
proof (induction ms)
  case (Cons m2 ms)
  obtain psi1 psi2 where
    psi: "morphemeConfidenceAtPosition chk site m1 (Position u2) (Position u1) = Inr psi1"
      "morphemeConfidenceAtPosition chk site m2 (Position u1) (Position u2) = Inr psi2"
    using Cons.prems by (auto simp: bind_result_Inr)
  have IH: "stats_inner chk site u1 u2 args m1 ms = Inr (Some r) \<Longrightarrow> ?case"
    using Cons.IH by simp
  show ?case
    using Cons.prems psi IH
    by (cases psi1; cases psi2) (auto simp: Let_def bind_result_Inr split: if_splits)
qed simp

lemma stats_outer_fields:
  assumes "stats_outer chk site u1 u2 args ms = Inr (Some r)"
  shows "arg1 r = Position (fst args) + 1 \<and> arg2 r = Position (snd args) + 1 \<and>
    morphemes1 r = Morphemes u1 \<and> morphemes2 r = Morphemes u2 \<and> ms \<noteq> [] \<and> Morphemes u2 \<noteq> []"
  using assms
proof (induction ms)
  case (Cons m ms)
  obtain found where f: "stats_inner chk site u1 u2 args m (Morphemes u2) = Inr found"
    using Cons.prems by (auto simp: bind_result_Inr)
  show ?case
  proof (cases found)
    case None
    with Cons f show ?thesis by simp
  next
    case (Some r')
    with Cons.prems f have "stats_inner chk site u1 u2 args m (Morphemes u2) = Inr (Some r)" by simp
    from stats_inner_fields [OF this] show ?thesis by simp
  qed
qed simp

lemma pair_report_on:
  assumes "pair_report chk site which i j = Inr (Some r)"
  shows "report_on site i j r"
proof -
  from assms consider
      "cover_part chk site which i j = Inr (Some r)" | "stats_part chk site which i j = Inr (Some r)"
    by (auto simp: pair_report_def bind_result_Inr split: if_splits option.splits)
  then show ?thesis
  proof cases
    case 1
    then show ?thesis
      by (auto simp: cover_part_def report_on_def set_unique split: if_splits
          dest!: cover_check_fields)
  next
    case 2
    then show ?thesis
      by (auto simp: stats_part_def report_on_def checkForStatisticsBasedSwap_def bind_result_Inr
          set_oset_diff split: if_splits option.splits dest!: stats_outer_fields)
  qed
qed

lemma CheckSite_from_pair:
  assumes "CheckSite chk site which = Inr rs" "arg_count site \<le> NOT_FOUND" "r \<in> set rs"
  shows "\<exists>i j. i < j \<and> j < arg_count site \<and> pair_report chk site which i j = Inr (Some r)"
proof -
  from assms obtain i j where ij: "i < j" "j < arg_count site"
      "projr (pair_report chk site which i j) = Some r" "ok_result (pair_report chk site which i j)"
    by (auto simp: CheckSite_Inr_iff List.map_filter_def set_all_pairs)
  then show ?thesis by (metis ok_result_conv sum.sel(2))
qed

lemma pair_reports_sorted:
  assumes "sorted_wrt pair_less ps" "\<forall>(i, j) \<in> set ps. ok_result (pair_report chk site which i j)"
  shows "sorted_wrt (\<lambda>r s. pair_less (arg1 r, arg2 r) (arg1 s, arg2 s))
      (List.map_filter (\<lambda>(i, j). projr (pair_report chk site which i j)) ps)"
  using assms
proof (induction ps)
  case (Cons p ps)
  obtain i j where p: "p = (i, j)" by fastforce
  with Cons.prems(2) obtain x where x: "pair_report chk site which i j = Inr x"
    by (auto simp: ok_result_conv)
  have later: "pair_less (i + 1, j + 1) (arg1 s, arg2 s)"
    if s: "s \<in> set (List.map_filter (\<lambda>(i, j). projr (pair_report chk site which i j)) ps)" for s
  proof -
    from s obtain k l where kl: "(k, l) \<in> set ps" "projr (pair_report chk site which k l) = Some s"
      by (auto simp: List.map_filter_def)
    with Cons.prems(2) have "pair_report chk site which k l = Inr (Some s)"
      by (auto simp: ok_result_conv)
    then have "arg1 s = k + 1" "arg2 s = l + 1" by (auto dest!: pair_report_on simp: report_on_def)
    with Cons.prems(1) kl(1) p show ?thesis by (auto simp: pair_less_def)
  qed
  show ?case
  proof (cases x)
    case None
    with x p Cons show ?thesis by (simp add: map_filter_simps)
  next
    case (Some r)
    with x have "arg1 r = i + 1" "arg2 r = j + 1" by (auto dest!: pair_report_on simp: report_on_def)
    with Some x p Cons later show ?thesis by (simp add: map_filter_simps)
  qed
qed (simp add: List.map_filter_def)

text \<open>C9: what \<open>CheckSite\<close> returns is well formed whatever the configuration and the
  database: the reports come in lexicographic order of their argument pairs, at most one
  per pair; positions are one-based, the first below the second, within the call; and the
  morphemes are exactly those one argument has and the other has not, at least one on
  each side.\<close>

theorem CheckSite_reports_well_formed:
  assumes "CheckSite chk site which = Inr rs" "arg_count site \<le> NOT_FOUND"
  shows "sorted_wrt (\<lambda>r s. pair_less (arg1 r, arg2 r) (arg1 s, arg2 s)) rs \<and>
    (\<forall>r \<in> set rs. 1 \<le> arg1 r \<and> arg1 r < arg2 r \<and> arg2 r \<le> arg_count site \<and>
       report_on site (arg1 r - 1) (arg2 r - 1) r)"
proof
  from assms show "sorted_wrt (\<lambda>r s. pair_less (arg1 r, arg2 r) (arg1 s, arg2 s)) rs"
    using pair_reports_sorted [OF sorted_all_pairs [of "arg_count site"]]
    by (auto simp: CheckSite_Inr_iff set_all_pairs)
  show "\<forall>r \<in> set rs. 1 \<le> arg1 r \<and> arg1 r < arg2 r \<and> arg2 r \<le> arg_count site \<and>
      report_on site (arg1 r - 1) (arg2 r - 1) r"
  proof
    fix r assume "r \<in> set rs"
    from CheckSite_from_pair [OF assms this] obtain i j where
      ij: "i < j" "j < arg_count site" "pair_report chk site which i j = Inr (Some r)" by blast
    from pair_report_on [OF ij(3)] have rep: "report_on site i j r" .
    then have "arg1 r = i + 1" "arg2 r = j + 1" by (simp_all add: report_on_def)
    with ij rep show "1 \<le> arg1 r \<and> arg1 r < arg2 r \<and> arg2 r \<le> arg_count site \<and>
        report_on site (arg1 r - 1) (arg2 r - 1) r" by simp
  qed
qed

subsection \<open>Faults\<close>

text \<open>Statistics whose morpheme column is never NULL.\<close>

definition null_free :: "Statistics \<Rightarrow> bool" where
  "null_free st \<longleftrightarrow> (\<forall>q. morph_value_query st = Some q \<longrightarrow>
     (\<forall>f a. \<forall>x \<in> set (fst (q f a)). fst x \<noteq> None))"

definition checker_ok :: "Checker \<Rightarrow> bool" where
  "checker_ok chk \<longleftrightarrow> (\<forall>st. Stats chk = Some st \<longrightarrow> valid st \<and> null_free st)"

lemma step_rows_ok:
  "\<forall>x \<in> set (fst cur). fst x \<noteq> None \<Longrightarrow> \<exists>r. step_rows cur ret res = Inr r"
proof (induction "fst cur" arbitrary: cur ret res)
  case Nil
  then show ?case by (cases cur; cases "snd cur") (auto simp: step_rows.simps)
next
  case (Cons x xs)
  obtain s v e where "cur = ((Some s, v) # xs, e)"
    using Cons.hyps(2) Cons.prems by (cases cur; cases x) auto
  then show ?case using Cons.hyps(1) [of "(xs, e)"] Cons.prems
    by (simp add: step_rows.simps [of "((Some s, v) # xs, e)"])
qed

lemma fit_ok:
  assumes "Stats chk = Some st" "valid st" "null_free st"
  shows "\<exists>f. fit chk m site p = Inr f"
proof -
  from assms(2) obtain q where q: "morph_value_query st = Some q" by (auto simp: valid_def)
  obtain b rs where "step_rows (q (c_str (fullyQualifiedName (callDecl site))) (to_int64 p)) False [] = Inr (b, rs)"
    using step_rows_ok [of "q (c_str (fullyQualifiedName (callDecl site))) (to_int64 p)" False "[]"]
      assms(3) q by (auto simp: null_free_def)
  then show ?thesis using assms q by (simp add: fit_def morphemesAndWeightsAtPos_def)
qed

lemma stats_inner_ok:
  assumes "Stats chk = Some st" "valid st" "null_free st"
  shows "\<exists>r. stats_inner chk site u1 u2 args m1 ms = Inr r"
proof (induction ms)
  case (Cons m2 ms)
  obtain psi1 psi2 where
    psi: "morphemeConfidenceAtPosition chk site m1 (Position u2) (Position u1) = Inr psi1"
      "morphemeConfidenceAtPosition chk site m2 (Position u1) (Position u2) = Inr psi2"
    using confidence_ok [OF assms(1,2)] by blast
  obtain f1 f2 where "fit chk m1 site (Position (snd args)) = Inr f1"
      "fit chk m2 site (Position (fst args)) = Inr f2"
    using fit_ok [OF assms] by blast
  with psi Cons show ?case by (cases psi1; cases psi2) (auto simp: Let_def)
qed simp

lemma stats_outer_ok:
  assumes "Stats chk = Some st" "valid st" "null_free st"
  shows "\<exists>r. stats_outer chk site u1 u2 args ms = Inr r"
proof (induction ms)
  case (Cons m ms)
  obtain found where "stats_inner chk site u1 u2 args m (Morphemes u2) = Inr found"
    using stats_inner_ok [OF assms] by blast
  with Cons show ?case by (cases found) simp_all
qed simp

lemma stats_part_ok:
  assumes "checker_ok chk"
  shows "\<exists>r. stats_part chk site which i j = Inr r"
  using assms stats_outer_ok
  by (auto simp: stats_part_def checker_ok_def checkForStatisticsBasedSwap_def Let_def
      split: option.split)

text \<open>Every argument that has a morpheme ends in a name that is not empty.\<close>

definition last_names_ok :: "CallSite \<Rightarrow> bool" where
  "last_names_ok site \<longleftrightarrow>
     (\<forall>names \<in> set (positionalArgNames site). collect_names names [] \<noteq> [] \<longrightarrow> last names \<noteq> [])"

lemma cover_part_ok:
  assumes "checker_ok chk" "sane_thresholds (Opts chk)" "last_names_ok site"
    and "i < arg_count site" "j < arg_count site"
    and "arg_morphemes site i \<noteq> []" "arg_morphemes site j \<noteq> []"
    and "param_name site i \<noteq> [] \<and> param_name site j \<noteq> [] \<longrightarrow>
      split (param_name site i) \<noteq> [] \<and> split (param_name site j) \<noteq> []"
  shows "\<exists>r. cover_part chk site which i j = Inr r"
proof (cases "param_name site i \<noteq> [] \<and> param_name site j \<noteq> [] \<and> (which = All \<or> which = CoverBased)")
  case True
  then obtain n1 n2 where n: "getParamName site i = Some n1" "getParamName site j = Some n2" "n1 \<noteq> []"
    by (auto simp: param_name_def split: option.splits)
  have last: "\<exists>l. getLastArgName site k = Inr (Some l) \<and> l \<noteq> []"
    if "k < arg_count site" "arg_morphemes site k \<noteq> []" for k
  proof -
    have "positionalArgNames site ! k \<noteq> []" using that by (auto simp: arg_morphemes_def)
    moreover have "last (positionalArgNames site ! k) \<noteq> []"
      using that assms(3) by (auto simp: last_names_ok_def arg_morphemes_def)
    ultimately show ?thesis using that by (simp add: getLastArgName_def)
  qed
  obtain l1 l2 where l: "getLastArgName site i = Inr (Some l1)" "l1 \<noteq> []"
      "getLastArgName site j = Inr (Some l2)"
    using last [OF assms(4,6)] last [OF assms(5,7)] by blast
  have v: "\<exists>sc hide. stats_vetting chk site i j u1 u2 = Inr (sc, hide)" for u1 u2
    using stats_vetting_ok assms(1) by (auto simp: checker_ok_def)
  have "\<exists>r. cover_report chk (a1, a2) site u1 u2 = Inr r"
    if "Position a1 = i" "Position a2 = j" for a1 a2 u1 u2
    using v [of u1 u2] that by (auto simp: cover_report_def)
  with True assms n l show ?thesis
    by (auto simp: cover_part_def cover_check_eq suffixCheck_eq)
qed (auto simp: cover_part_def)

lemma pair_report_ok:
  assumes "checker_ok chk" "sane_thresholds (Opts chk)" "last_names_ok site"
    and "i < arg_count site" "j < arg_count site"
  shows "ok_result (pair_report chk site which i j)"
proof (cases "arg_morphemes site i = [] \<or> arg_morphemes site j = [] \<or>
    (param_name site i \<noteq> [] \<and> param_name site j \<noteq> [] \<and>
      (split (param_name site i) = [] \<or> split (param_name site j) = []))")
  case False
  then obtain c where "cover_part chk site which i j = Inr c"
    using cover_part_ok [OF assms, of which] by auto
  moreover obtain s where "stats_part chk site which i j = Inr s"
    using stats_part_ok [OF assms(1)] by blast
  ultimately show ?thesis using False by (simp add: pair_report_def split: option.split)
qed (auto simp: pair_report_def)

lemma CheckSite_Inr:
  assumes "checker_ok chk" "sane_thresholds (Opts chk)" "last_names_ok site"
    and "arg_count site \<le> NOT_FOUND"
  shows "\<exists>rs. CheckSite chk site which = Inr rs"
proof -
  have "\<forall>i j. i < j \<longrightarrow> j < arg_count site \<longrightarrow> ok_result (pair_report chk site which i j)"
    using pair_report_ok [OF assms(1-3)] by simp
  then show ?thesis using CheckSite_Inr_iff [OF assms(4), of chk which] by blast
qed

text \<open>C10: \<open>CheckSite\<close> never faults (no assertion fails, no empty optional or
  container is read, no string is built from a null pointer) when the statistics, if any,
  are valid and have no NULL morphemes, even if stepping a query ends in an error, and
  every argument with a morpheme ends in a non-empty name.\<close>

theorem CheckSite_no_fault:
  assumes "checker_ok chk" "sane_thresholds (Opts chk)" "last_names_ok site"
    and "arg_count site \<le> NOT_FOUND"
  shows "\<exists>rs. CheckSite chk site which = Inr rs"
  using assms by (rule CheckSite_Inr)

theorem CheckSite_no_fault_witness:
  "\<exists>rs. CheckSite \<lparr>Opts = default_config [], Stats = None\<rparr>
     (example_site ''cats'' ''dogs'' ''dogs'' ''cats'') All = Inr rs"
  by (rule CheckSite_no_fault)
    (simp_all add: checker_ok_def last_names_ok_def NOT_FOUND_def)

lemma last_names_single: "\<forall>names \<in> set (positionalArgNames site). length names \<le> 1 \<Longrightarrow> last_names_ok site"
proof -
  have "collect_names [n] [] \<noteq> [] \<Longrightarrow> n \<noteq> []" for n
    by (auto simp: oset_insert_range_def split_empty_iff)
  then show "\<forall>names \<in> set (positionalArgNames site). length names \<le> 1 \<Longrightarrow> last_names_ok site"
    by (force simp: last_names_ok_def le_Suc_eq length_Suc_conv)
qed

text \<open>C11: the constructor leaves a checker whose statistics are valid or absent; a
  database that does not open, or in which a query does not prepare, leaves none.\<close>

theorem Checker_new_valid:
  "(\<forall>st. Stats (Checker_new open_v2 opts) = Some st \<longrightarrow> valid st) \<and>
   (Stats (Checker_new open_v2 opts) \<noteq> None \<longleftrightarrow> ModelPath opts \<noteq> [] \<and>
     (\<exists>d. open_v2 (c_str (ModelPath opts)) = Opened d \<and>
       prepare_morph_value d \<noteq> None \<and> prepare_value d \<noteq> None))"
  by (auto simp: Checker_new_def Let_def valid_def Statistics_new_def split: open_outcome.splits)

theorem Checker_new_valid_witness:
  "Stats (Checker_new (\<lambda>_. Open_Failed True) (default_config ''model.db'')) = None"
  using Checker_new_valid [of "\<lambda>_. Open_Failed True" "default_config ''model.db''"]
  by auto

theorem CheckSite_reports_well_formed_witness:
  "\<exists>rs. CheckSite \<lparr>Opts = default_config [], Stats = None\<rparr>
      (example_site ''cats'' ''dogs'' ''dogs'' ''cats'') All = Inr rs \<and>
    (\<forall>r \<in> set rs. arg1 r < arg2 r \<and> arg2 r \<le> 2)"
proof -
  let ?chk = "\<lparr>Opts = default_config [], Stats = None\<rparr>"
  let ?site = "example_site ''cats'' ''dogs'' ''dogs'' ''cats''"
  obtain rs where rs: "CheckSite ?chk ?site All = Inr rs"
    using CheckSite_Inr [of ?chk ?site All]
    by (auto simp: checker_ok_def last_names_ok_def NOT_FOUND_def)
  have "arg_count ?site \<le> NOT_FOUND" by (simp add: NOT_FOUND_def)
  from CheckSite_reports_well_formed [OF rs this] rs show ?thesis by auto
qed

subsection \<open>Calls as written and calls swapped\<close>

text \<open>A call in which argument \<open>k\<close> is the single name \<open>a k\<close>, parameter \<open>k\<close> is \<open>p k\<close>.\<close>

definition named_call :: "string \<Rightarrow> string list \<Rightarrow> string list \<Rightarrow> CallSite" where
  "named_call f params args =
     \<lparr>callDecl = \<lparr>fullyQualifiedName = f, paramNames = Some params\<rparr>,
      positionalArgNames = map (\<lambda>a. [a]) args\<rparr>"

lemma named_call_simps [simp]:
  "arg_count (named_call f ps args) = length args"
  "i < length args \<Longrightarrow> arg_morphemes (named_call f ps args) i = split (args ! i)"
  "i < length ps \<Longrightarrow> param_name (named_call f ps args) i = ps ! i"
  "i < length ps \<Longrightarrow> getParamName (named_call f ps args) i = Some (ps ! i)"
  "i < length args \<Longrightarrow> getLastArgName (named_call f ps args) i = Inr (Some (args ! i))"
  by (simp_all add: named_call_def arg_morphemes_def param_name_def getParamName_def
      getLastArgName_def oset_insert_range_sorted_id)

lemma last_names_named_call [simp]: "last_names_ok (named_call f ps args)"
  by (rule last_names_single) (simp add: named_call_def)

text \<open>C12: a call written in the parameters' own order and names is never reported by the
  cover-based check, however many arguments it has and whatever the statistics.\<close>

theorem matching_call_not_reported:
  assumes "checker_ok chk" "sane_thresholds (Opts chk)" "length names \<le> NOT_FOUND"
  shows "CheckSite chk (named_call f names names) CoverBased = Inr []"
proof -
  let ?site = "named_call f names names"
  obtain rs where rs: "CheckSite chk ?site CoverBased = Inr rs"
    using CheckSite_Inr [OF assms(1,2) last_names_named_call, of f names names CoverBased]
      assms(3) by auto
  have "r \<notin> set rs" for r
  proof
    assume r: "r \<in> set rs"
    obtain i j where ij: "i < j" "j < length names"
      and rep: "pair_report chk ?site CoverBased i j = Inr (Some r)"
      using CheckSite_from_pair [OF rs _ r] assms(3) by auto
    then have "checkForCoverBasedSwap chk
        (mkmorphs (split (names ! i)) i, mkmorphs (split (names ! j)) j)
        (mkmorphs (split (names ! i)) i, mkmorphs (split (names ! j)) j) ?site = Inr (Some r)"
      and ne: "split (names ! i) \<noteq> []" "split (names ! j) \<noteq> []"
      by (auto simp: pair_report_def cover_part_def stats_part_def bind_result_Inr
          split: if_splits option.splits)
    then have "cover_swapped (split (names ! i)) (split (names ! j)) (split (names ! i)) (split (names ! j))"
      using assms(2) by (auto simp: cover_check_eq split: if_splits)
    then show False by (auto simp: cover_swapped_def)
  qed
  with rs show ?thesis by (cases rs) auto
qed

theorem matching_call_not_reported_witness:
  "CheckSite (table_checker (default_config []) [])
     (named_call ''f'' [''horses'', ''emus''] [''horses'', ''emus'']) CoverBased = Inr []"
proof (rule matching_call_not_reported)
  show "checker_ok (table_checker (default_config []) [])"
    by (simp add: checker_ok_def null_free_def table_statistics_def Statistics_new_def
        weights_database_def rows_at_def storable_def valid_def)
qed (simp_all add: NOT_FOUND_def)

text \<open>C13: two arguments passed in each other's place are found: without statistics, when
  the arguments at \<open>i\<close> and \<open>j\<close> carry each other's parameter names, those names
  have equally many morphemes but not the same ones, and they are not a suffix pair, then
  the full check and the cover-based check report the pair with score 100.\<close>

theorem swapped_call_reported:
  assumes "Stats chk = None" "sane_thresholds (Opts chk)" "length args \<le> NOT_FOUND"
    and "length ps = length args" "i < j" "j < length args"
    and "args ! i = ps ! j" "args ! j = ps ! i"
    and "set (split (ps ! i)) \<noteq> set (split (ps ! j))"
    and "length (split (ps ! i)) = length (split (ps ! j))"
    and "\<not> suffix_pair (ps ! i) (ps ! j)" "\<not> suffix_pair (ps ! j) (ps ! i)"
    and "which = All \<or> which = CoverBased"
  shows "\<exists>rs r. CheckSite chk (named_call f ps args) which = Inr rs \<and> r \<in> set rs \<and>
    arg1 r = i + 1 \<and> arg2 r = j + 1 \<and> card_score (score r) = Fin 100"
proof -
  let ?site = "named_call f ps args"
  have ne: "split (ps ! i) \<noteq> []" "split (ps ! j) \<noteq> []" using assms(9,10) by auto
  then have names: "ps ! i \<noteq> []" "ps ! j \<noteq> []" by auto
  have cs: "cover_swapped (split (ps ! i)) (split (ps ! j)) (split (ps ! j)) (split (ps ! i))"
    using assms(9,10) by (simp add: cover_swapped_def)
  have "checkForCoverBasedSwap chk
      (mkmorphs (split (ps ! i)) i, mkmorphs (split (ps ! j)) j)
      (mkmorphs (split (ps ! j)) i, mkmorphs (split (ps ! i)) j) ?site = Inr (Some
        \<lparr>arg1 = i + 1, arg2 = j + 1,
         morphemes1 = nonLowEntropyDifference (split (ps ! j)) (split (ps ! i)),
         morphemes2 = nonLowEntropyDifference (split (ps ! i)) (split (ps ! j)),
         score = ParameterNameBasedScoreCard (Fin 100) None\<rparr>)" (is "_ = Inr (Some ?r)")
    using assms ne names cs
    by (simp add: cover_check_eq suffixCheck_eq cover_report_def stats_vetting_def)
  then have rep: "pair_report chk ?site which i j = Inr (Some ?r)"
    using assms ne names by (auto simp: pair_report_def cover_part_def)
  obtain rs where rs: "CheckSite chk ?site which = Inr rs"
    using CheckSite_Inr [OF _ assms(2) last_names_named_call, of f ps args which] assms(1,3)
    by (auto simp: checker_ok_def)
  have "(i, j) \<in> set (all_pairs (length args))" using assms(5,6) by (simp add: set_all_pairs)
  then have "?r \<in> set (List.map_filter (\<lambda>(i, j). projr (pair_report chk ?site which i j))
      (all_pairs (length args)))"
    using rep by (force simp: List.map_filter_def)
  with rs assms(3) have "?r \<in> set rs" by (simp add: CheckSite_Inr_iff)
  with rs show ?thesis by (intro exI [of _ rs] exI [of _ ?r]) simp
qed

lemma plain_words_example: "plain_word ''cats''" "plain_word ''dogs''" "plain_word ''size''"
  by (simp_all add: plain_word_def isupper_def)

theorem swapped_call_reported_witness:
  "\<exists>rs r. CheckSite \<lparr>Opts = default_config [], Stats = None\<rparr>
      (named_call ''f'' [''cats'', ''size'', ''dogs''] [''dogs'', ''size'', ''cats'']) All = Inr rs \<and>
    r \<in> set rs \<and> arg1 r = 1 \<and> arg2 r = 3 \<and> card_score (score r) = Fin 100"
  using swapped_call_reported [of "\<lparr>Opts = default_config [], Stats = None\<rparr>"
      "[''dogs'', ''size'', ''cats'']" "[''cats'', ''size'', ''dogs'']" 0 2 All "''f''"]
  by (simp add: NOT_FOUND_def split_plain plain_words_example suffix_pair_def isdigit_def)




text \<open>A confidence is not bounded by 1: with two weights on record it is their
  quotient, so a morpheme twice as frequent at a position as at the other has confidence
  2 there; with weights of zero at both it is not a number, which the statistics-based
  check does not reject.\<close>

theorem confidence_unbounded:
  "\<exists>rows. morphemeConfidenceAtPosition (table_checker (default_config []) rows)
      (named_call ''f'' [] []) ''dogs'' 0 1 = Inr (Some (Fin 2)) \<and>
    morphemeConfidenceAtPosition (table_checker (default_config []) rows)
      (named_call ''g'' [] []) ''dogs'' 0 1 = Inr (Some NaN) \<and>
    \<not> fp_le NaN (StatsSwappedMorphemeThreshold (default_config []))"
proof -
  define rows where "rows =
    [\<lparr>row_func = ''f'', row_arg = 0, row_morpheme = ''dogs'', row_value = Fin 1\<rparr>,
     \<lparr>row_func = ''f'', row_arg = 1, row_morpheme = ''dogs'', row_value = Fin (1/2)\<rparr>,
     \<lparr>row_func = ''g'', row_arg = 0, row_morpheme = ''dogs'', row_value = Fin 0\<rparr>,
     \<lparr>row_func = ''g'', row_arg = 1, row_morpheme = ''dogs'', row_value = Fin 0\<rparr>]"
  have r: "round32 (1/2) = Fin (1/2)" "round32 2 = Fin 2" by code_simp+
  have w: "weights_at (storable rows) ''f'' 0 = [(''dogs'', Fin 1)]"
    "weights_at (storable rows) ''f'' 1 = [(''dogs'', Fin (1/2))]"
    "weights_at (storable rows) ''g'' 0 = [(''dogs'', Fin 0)]"
    "weights_at (storable rows) ''g'' 1 = [(''dogs'', Fin 0)]"
    by (simp_all add: weights_at_def rows_at_def storable_def rows_def to_int64_def r)
  have n: "fullyQualifiedName (callDecl (named_call f ps args)) = f" for f ps args
    by (simp add: named_call_def)
  have d: "fp_div (Fin 1) (Fin (1/2)) = Fin 2" "fp_div (Fin 0) (Fin 0) = NaN"
    by (simp_all add: fp_div_def r)
  have "morphemeConfidenceAtPosition (table_checker (default_config []) rows)
      (named_call ''f'' [] []) ''dogs'' 0 1 = Inr (Some (Fin 2)) \<and>
    morphemeConfidenceAtPosition (table_checker (default_config []) rows)
      (named_call ''g'' [] []) ''dogs'' 0 1 = Inr (Some NaN)"
    by (simp add: table_chk.confidence_eq source_confidence_def n c_str_def w [unfolded One_nat_def] d)
  then show ?thesis by auto
qed

end
