(* ===== verification/Clang_Plugin.thy ===== *)
theory Clang_Plugin
  imports Swap_Checker
begin

text \<open>
  The Clang static analyzer plugin: the name of an expression
  (\<^verbatim>\<open>clang_plugin/ExprNames.cpp\<close>), the checker that runs before a call
  (\<^verbatim>\<open>clang_plugin/SwappedArgCheckerPlugin.cpp\<close>), the checker that prints
  names for the regression tests (\<^verbatim>\<open>clang_plugin/ExprNamesInspectionChecker.cpp\<close>)
  and the constructor call of \<^verbatim>\<open>clang_plugin/Plugin.cpp\<close>. Clang is not part of
  the repository. An expression is what the code asks of it: its source range and the class
  \<open>dyn_cast\<close> finds, with the values of the accessors called on that class. What Clang does
  with locations, and how it skips parentheses, is the parameter \<open>clang\<close>.
\<close>

subsection \<open>Expressions as the plugin sees them\<close>

datatype literal =
    IntegerLiteral | CharacterLiteral | FloatingLiteral | StringLiteral | ImaginaryLiteral
  | FixedPointLiteral | CXXBoolLiteralExpr | CXXNullPtrLiteralExpr | ObjCBoolLiteralExpr

datatype trait = UETT_SizeOf | UETT_AlignOf | UETT_PreferredAlignOf | UETT_VecStep | UETT_OpenMPRequiredSimdAlign

text \<open>
  A literal carries the text \<open>printPretty\<close> writes, a call the name of its callee declaration
  if that is a \<open>NamedDecl\<close> and its callee expression if there is one. Every other class,
  parentheses among them, is an \<open>OtherExpr\<close> with its operands.
\<close>

datatype 'e stmt =
    CastExpr 'e | MaterializeTemporaryExpr 'e | DeclRefExpr string | Literal literal string | CXXThisExpr
  | MemberExpr string | ArraySubscriptExpr 'e | CallExpr "string option" "'e option" | UnaryOperator 'e
  | UnaryExprOrTypeTraitExpr trait | SubstNonTypeTemplateParmExpr string | OtherExpr "'e list"

datatype 'l Expr = Expr (getBeginLoc: 'l) (getEndLoc: 'l) (stmtClass: "'l Expr stmt")

record 'l clang =
  isMacroID :: "'l \<Rightarrow> bool"
  getExpansionLoc :: "'l \<Rightarrow> 'l"
  getImmediateSpellingLoc :: "'l \<Rightarrow> 'l"
  getSpelling :: "'l \<Rightarrow> string"
  IgnoreParens :: "'l Expr \<Rightarrow> 'l Expr"

subsection \<open>The name of an expression\<close>

text \<open>A loop that does not end is \<open>None\<close>.\<close>

partial_function (option) ignoreParenCastsButNotTemplateParms :: "'l clang \<Rightarrow> 'l Expr \<Rightarrow> 'l Expr option" where
  "ignoreParenCastsButNotTemplateParms cl E =
     (let E = IgnoreParens cl E
      in case stmtClass E of
        CastExpr sub \<Rightarrow> ignoreParenCastsButNotTemplateParms cl sub
      | MaterializeTemporaryExpr sub \<Rightarrow> ignoreParenCastsButNotTemplateParms cl sub
      | _ \<Rightarrow> Some E)"

text \<open>The spelling loop, which runs as long as the range starts where the call is expanded.\<close>

partial_function (option) spell_range :: "'l clang \<Rightarrow> 'l Expr option \<Rightarrow> 'l \<times> 'l \<Rightarrow> ('l \<times> 'l) option" where
  "spell_range cl CE r =
     (case CE of
        None \<Rightarrow> Some r
      | Some c \<Rightarrow>
          if getExpansionLoc cl (fst r) = getExpansionLoc cl (getBeginLoc c) then
            spell_range cl CE (getImmediateSpellingLoc cl (fst r), getImmediateSpellingLoc cl (snd r))
          else Some r)"

text \<open>The macro an expression is the expansion of, if it is one token.\<close>

definition macro_name :: "'l clang \<Rightarrow> 'l Expr option \<Rightarrow> 'l Expr \<Rightarrow> string option option" where
  "macro_name cl CE baseExpr =
     (if isMacroID cl (getBeginLoc baseExpr) then
        map_option (\<lambda>r.
          if isMacroID cl (fst r) then
            let b = getExpansionLoc cl (fst r); e = getExpansionLoc cl (snd r)
            in if b = e then Some (getSpelling cl b) else None
          else None)
          (spell_range cl CE (getBeginLoc baseExpr, getEndLoc baseExpr))
      else Some None)"

fun trait_name :: "trait \<Rightarrow> string" where
  "trait_name UETT_SizeOf = ''sizeof''"
| "trait_name UETT_AlignOf = ''alignof''"
| "trait_name UETT_PreferredAlignOf = ''__alignof''"
| "trait_name UETT_VecStep = ''vec_step''"
| "trait_name UETT_OpenMPRequiredSimdAlign = ''__builtin_omp_required_simd_align''"

partial_function (option) exprName :: "'l clang \<Rightarrow> 'l Expr option \<Rightarrow> 'l Expr \<Rightarrow> string option" where
  "exprName cl CE expr =
     Option.bind (ignoreParenCastsButNotTemplateParms cl expr) (\<lambda>baseExpr.
     Option.bind (macro_name cl CE baseExpr) (\<lambda>m.
     case m of
       Some name \<Rightarrow> Some name
     | None \<Rightarrow>
         (case stmtClass baseExpr of
            DeclRefExpr name \<Rightarrow> Some name
          | Literal k text \<Rightarrow> Some text
          | CXXThisExpr \<Rightarrow> Some ''this''
          | MemberExpr name \<Rightarrow> Some name
          | ArraySubscriptExpr base \<Rightarrow> exprName cl CE base
          | CallExpr calleeDecl callee \<Rightarrow>
              (case calleeDecl of
                 Some name \<Rightarrow> Some name
               | None \<Rightarrow> (case callee of Some e \<Rightarrow> exprName cl CE e | None \<Rightarrow> Some []))
          | UnaryOperator sub \<Rightarrow> exprName cl CE sub
          | UnaryExprOrTypeTraitExpr k \<Rightarrow> Some (trait_name k)
          | SubstNonTypeTemplateParmExpr name \<Rightarrow> Some name
          | _ \<Rightarrow> Some [])))"

subsection \<open>The checker before a call\<close>

record FunctionDecl =
  getQualifiedNameAsString :: string
  parameters :: "string list"

text \<open>The argument expressions (null for an argument without one) and the expression of the call.\<close>

record 'l CallEvent =
  getDecl :: "FunctionDecl option"
  getOriginExpr :: "'l Expr option"
  arg_exprs :: "'l Expr option list"

definition getParamNames :: "FunctionDecl \<Rightarrow> string list" where
  "getParamNames FD = parameters FD"

fun getArgNames :: "'l clang \<Rightarrow> 'l Expr option \<Rightarrow> 'l Expr option list \<Rightarrow> string list list option" where
  "getArgNames cl CE [] = Some []"
| "getArgNames cl CE (E # Es) =
     Option.bind (case E of None \<Rightarrow> Some [] | Some e \<Rightarrow> map_option (\<lambda>n. [n]) (exprName cl CE e)) (\<lambda>names.
     map_option (\<lambda>rest. names # rest) (getArgNames cl CE Es))"

fun flattenMorphemeListForDiag :: "string list \<Rightarrow> string" where
  "flattenMorphemeListForDiag [] = []"
| "flattenMorphemeListForDiag [m] = m"
| "flattenMorphemeListForDiag (m # ms) = m @ '', '' @ flattenMorphemeListForDiag ms"

fun twine :: "nat \<Rightarrow> string" where
  "twine n = (if n < 10 then [char_of (48 + n)] else twine (n div 10) @ [char_of (48 + n mod 10)])"

declare twine.simps [simp del]

definition diagnostic :: "Result \<Rightarrow> string" where
  "diagnostic R =
     ''arguments '' @ twine (arg1 R) @ '' and '' @ twine (arg2 R) @
     '' are swapped with morpheme1 = '' @ flattenMorphemeListForDiag (morphemes1 R) @
     '' and morpheme2 = '' @ flattenMorphemeListForDiag (morphemes2 R)"

text \<open>
  A report: its message, the two arguments whose ranges it marks and the expressions that
  are tracked. The analyzer decides for each report whether it makes an error node
  (\<open>errorNode\<close>, by the number of nodes asked for); the plugin keeps whether its
  bug type was made.
\<close>

record 'l report =
  Message :: string
  ranges :: "nat \<times> nat"
  tracked :: "'l Expr list"

record 'l analysis =
  BT :: bool
  nodes_asked :: nat
  emitted :: "'l report list"

definition getArgExpr :: "'l CallEvent \<Rightarrow> nat \<Rightarrow> 'l Expr option result" where
  "getArgExpr Call i = (if i < length (arg_exprs Call) then Inr (arg_exprs Call ! i) else Inl Out_Of_Range)"

definition reportRuleViolation ::
    "(nat \<Rightarrow> bool) \<Rightarrow> 'l CallEvent \<Rightarrow> nat \<Rightarrow> nat \<Rightarrow> string \<Rightarrow> 'l analysis \<Rightarrow> 'l analysis result" where
  "reportRuleViolation errorNode Call Arg1 Arg2 msg s =
     (let s' = s\<lparr>nodes_asked := nodes_asked s + 1\<rparr> in
      if errorNode (nodes_asked s) then
        bind_result (getArgExpr Call Arg1) (\<lambda>E1.
        bind_result (getArgExpr Call Arg2) (\<lambda>E2.
        let R = \<lparr>Message = msg, ranges = (Arg1, Arg2),
                 tracked = (case E1 of None \<Rightarrow> [] | Some e \<Rightarrow> [e]) @ (case E2 of None \<Rightarrow> [] | Some e \<Rightarrow> [e])\<rparr>
        in Inr (s'\<lparr>BT := True, emitted := emitted s @ [R]\<rparr>)))
      else Inr s')"

text \<open>\<open>checkPreCall\<close>: \<open>None\<close> if a name is never found, else a fault or the new state.\<close>

definition checkPreCall ::
    "'l clang \<Rightarrow> (nat \<Rightarrow> bool) \<Rightarrow> Checker \<Rightarrow> 'l CallEvent \<Rightarrow> 'l analysis \<Rightarrow> 'l analysis result option" where
  "checkPreCall cl errorNode chk Call s =
     (case getDecl Call of
        None \<Rightarrow> Some (Inr s)
      | Some FD \<Rightarrow>
          map_option (\<lambda>names.
            let CDD = \<lparr>fullyQualifiedName = getQualifiedNameAsString FD, paramNames = Some (getParamNames FD)\<rparr>;
                CS = \<lparr>callDecl = CDD, positionalArgNames = names\<rparr>
            in
            bind_result (CheckSite chk CS All) (\<lambda>Results.
            fold_result (\<lambda>R. reportRuleViolation errorNode Call (size_pred (arg1 R)) (size_pred (arg2 R)) (diagnostic R))
              Results s))
            (getArgNames cl (getOriginExpr Call) (arg_exprs Call)))"

text \<open>The constructor, with the path \<open>initializeSwappedArgChecker\<close> reads from the options.\<close>

definition SwappedArgChecker :: "(string \<Rightarrow> open_outcome) \<Rightarrow> string \<Rightarrow> Checker" where
  "SwappedArgChecker open_v2 modelPath = Checker_new open_v2 (default_config modelPath)"

subsection \<open>The checker that prints names\<close>

text \<open>What it emits for a call of the named function, and whether it handled the call.\<close>

definition evalCall ::
    "'l clang \<Rightarrow> bool \<Rightarrow> 'l Expr option \<Rightarrow> string \<Rightarrow> 'l Expr list \<Rightarrow> (bool \<times> string list) result option" where
  "evalCall cl errorNode origin calleeName args =
     (case origin of
        Some c \<Rightarrow>
          (case stmtClass c of
             CallExpr d callee \<Rightarrow>
               if calleeName = ''clang_analyzer_exprName'' then
                 (case args of
                    [] \<Rightarrow> Some (Inl Out_Of_Range)
                  | a # _ \<Rightarrow> map_option (\<lambda>name. Inr (True, if name \<noteq> [] \<and> errorNode then [name] else []))
                      (exprName cl (Some c) a))
               else Some (Inr (False, []))
           | _ \<Rightarrow> Some (Inr (False, [])))
      | None \<Rightarrow> Some (Inr (False, [])))"

subsection \<open>Naming ends\<close>

text \<open>
  What the code relies on: skipping parentheses gives a part of the expression, and spelling
  out a location again and again leaves the place where the call is expanded.
\<close>

definition parens_inside :: "'l clang \<Rightarrow> bool" where
  "parens_inside cl \<longleftrightarrow> (\<forall>E. size (IgnoreParens cl E) \<le> size E)"

definition spelling_leaves :: "'l clang \<Rightarrow> 'l Expr option \<Rightarrow> bool" where
  "spelling_leaves cl CE \<longleftrightarrow> (\<forall>c l. CE = Some c \<longrightarrow> isMacroID cl l \<longrightarrow>
     (\<exists>n. getExpansionLoc cl ((getImmediateSpellingLoc cl ^^ n) l) \<noteq> getExpansionLoc cl (getBeginLoc c)))"

lemma ignore_ends:
  assumes "parens_inside cl"
  shows "\<exists>b. ignoreParenCastsButNotTemplateParms cl E = Some b \<and> size b \<le> size E"
proof (induction E rule: measure_induct_rule [of size])
  case (less E)
  let ?b = "IgnoreParens cl E"
  have b: "size ?b \<le> size E" using assms by (simp add: parens_inside_def)
  have step: "\<exists>b. ignoreParenCastsButNotTemplateParms cl s = Some b \<and> size b \<le> size E"
    if "size s < size ?b" for s
    using less.IH [of s] that b by fastforce
  show ?case
  proof (cases "stmtClass ?b")
    case (CastExpr s)
    then have "size s < size ?b" by (cases ?b) simp
    from step [OF this] show ?thesis
      using CastExpr by (simp add: ignoreParenCastsButNotTemplateParms.simps [of cl E] Let_def)
  next
    case (MaterializeTemporaryExpr s)
    then have "size s < size ?b" by (cases ?b) simp
    from step [OF this] show ?thesis
      using MaterializeTemporaryExpr by (simp add: ignoreParenCastsButNotTemplateParms.simps [of cl E] Let_def)
  qed (use b in \<open>simp_all add: ignoreParenCastsButNotTemplateParms.simps [of cl E] Let_def\<close>)
qed

lemma spell_range_ends:
  "getExpansionLoc cl ((getImmediateSpellingLoc cl ^^ n) (fst r)) \<noteq> getExpansionLoc cl (getBeginLoc c) \<Longrightarrow>
    \<exists>r'. spell_range cl (Some c) r = Some r'"
proof (induction n arbitrary: r)
  case 0
  then show ?case by (simp add: spell_range.simps [of cl "Some c" r])
next
  case (Suc n)
  then show ?case
    using Suc.IH [of "(getImmediateSpellingLoc cl (fst r), getImmediateSpellingLoc cl (snd r))"]
    by (simp add: spell_range.simps [of cl "Some c" r] funpow_swap1)
qed

lemma macro_name_ends: "spelling_leaves cl CE \<Longrightarrow> \<exists>m. macro_name cl CE b = Some m"
proof (cases CE)
  case None
  then show ?thesis by (simp add: macro_name_def spell_range.simps [of cl None])
next
  case (Some c)
  assume "spelling_leaves cl CE"
  then show ?thesis
    using Some spell_range_ends [of cl _ "(getBeginLoc b, getEndLoc b)" c]
    by (fastforce simp: macro_name_def spelling_leaves_def)
qed

lemma exprName_ends:
  assumes "parens_inside cl" "spelling_leaves cl CE"
  shows "\<exists>name. exprName cl CE e = Some name"
proof (induction e rule: measure_induct_rule [of size])
  case (less e)
  obtain b where b: "ignoreParenCastsButNotTemplateParms cl e = Some b" "size b \<le> size e"
    using ignore_ends [OF assms(1)] by blast
  obtain m where m: "macro_name cl CE b = Some m" using macro_name_ends [OF assms(2)] by blast
  have sub: "\<exists>name. exprName cl CE s = Some name" if "size s < size b" for s
    using less.IH that b(2) by simp
  have sizes: "size s < size b"
    if "stmtClass b = ArraySubscriptExpr s \<or> stmtClass b = UnaryOperator s \<or> stmtClass b = CallExpr d (Some s)" for s d
    using that by (cases b) auto
  show ?case
    using sub sizes
    by (subst exprName.simps) (auto simp: b m split: option.split stmt.split)
qed

lemma getArgNames_ends:
  assumes "parens_inside cl" "spelling_leaves cl CE"
  shows "\<exists>names. getArgNames cl CE Es = Some names \<and> length names = length Es \<and> (\<forall>ns \<in> set names. length ns \<le> 1)"
proof (induction Es)
  case (Cons E Es)
  obtain n where "(case E of None \<Rightarrow> Some [] | Some e \<Rightarrow> map_option (\<lambda>n. [n]) (exprName cl CE e)) = Some n" "length n \<le> 1"
    using exprName_ends [OF assms] by (cases E) fastforce+
  then show ?case using Cons.IH by auto
qed simp

subsection \<open>Naming\<close>

text \<open>The operand an expression is named after, if any, in code without macros.\<close>

definition operand :: "'l clang \<Rightarrow> 'l Expr \<Rightarrow> 'l Expr option" where
  "operand cl e =
     (case stmtClass (IgnoreParens cl e) of
        CastExpr s \<Rightarrow> Some s | MaterializeTemporaryExpr s \<Rightarrow> Some s | ArraySubscriptExpr s \<Rightarrow> Some s
      | UnaryOperator s \<Rightarrow> Some s | CallExpr None callee \<Rightarrow> callee | _ \<Rightarrow> None)"

definition own_name :: "'l Expr \<Rightarrow> string" where
  "own_name e =
     (case stmtClass e of
        DeclRefExpr n \<Rightarrow> n | Literal k t \<Rightarrow> t | CXXThisExpr \<Rightarrow> ''this'' | MemberExpr n \<Rightarrow> n
      | CallExpr (Some n) callee \<Rightarrow> n | UnaryExprOrTypeTraitExpr k \<Rightarrow> trait_name k
      | SubstNonTypeTemplateParmExpr n \<Rightarrow> n | _ \<Rightarrow> [])"

lemma exprName_operand:
  assumes "\<forall>l. \<not> isMacroID cl l"
  shows "exprName cl CE e = (case operand cl e of Some s \<Rightarrow> exprName cl CE s | None \<Rightarrow> Some (own_name (IgnoreParens cl e)))"
proof -
  let ?b = "IgnoreParens cl e"
  have m: "macro_name cl CE b = Some None" for b using assms by (simp add: macro_name_def)
  have through: "exprName cl CE e = exprName cl CE s"
    if "ignoreParenCastsButNotTemplateParms cl e = ignoreParenCastsButNotTemplateParms cl s" for s
    by (simp add: exprName.simps [of cl CE e] exprName.simps [of cl CE s] that)
  show ?thesis
  proof (cases "stmtClass ?b")
    case (CastExpr s)
    then show ?thesis
      by (simp add: operand_def, intro through) (simp add: ignoreParenCastsButNotTemplateParms.simps [of cl e])
  next
    case (MaterializeTemporaryExpr s)
    then show ?thesis
      by (simp add: operand_def, intro through) (simp add: ignoreParenCastsButNotTemplateParms.simps [of cl e])
  qed (simp_all add: exprName.simps [of cl CE e] ignoreParenCastsButNotTemplateParms.simps [of cl e] m
      operand_def own_name_def split: option.split)
qed


text \<open>Two locations of files, 0 and 1, and one of a macro, 2, expanded at 0 and spelled at 1.\<close>

definition example_clang :: "nat clang" where
  "example_clang =
     \<lparr>isMacroID = (\<lambda>l. l = 2), getExpansionLoc = (\<lambda>l. if l = 2 then 0 else l),
      getImmediateSpellingLoc = (\<lambda>l. if l = 2 then 1 else l), getSpelling = (\<lambda>l. ''LIMIT''),
      IgnoreParens = (\<lambda>e. case stmtClass e of OtherExpr [p] \<Rightarrow> p | _ \<Rightarrow> e)\<rparr>"

lemma example_clang_ok: "parens_inside example_clang" "spelling_leaves example_clang (Some (Expr 0 1 (CallExpr d f)))"
proof -
  have "size (case stmtClass e of OtherExpr [p] \<Rightarrow> p | _ \<Rightarrow> e) \<le> size e" for e :: "nat Expr"
    by (cases e) (auto split: stmt.split list.split)
  then show "parens_inside example_clang" by (simp add: parens_inside_def example_clang_def)
  show "spelling_leaves example_clang (Some (Expr 0 1 (CallExpr d f)))"
    by (auto simp: spelling_leaves_def example_clang_def intro: exI [of _ "1 :: nat"])
qed


subsection \<open>Reports\<close>

definition report_of :: "'l CallEvent \<Rightarrow> Result \<Rightarrow> 'l report" where
  "report_of Call R =
     (let i = arg1 R - 1; j = arg2 R - 1 in
      \<lparr>Message = diagnostic R, ranges = (i, j),
       tracked = List.map_filter (\<lambda>e. e) [arg_exprs Call ! i, arg_exprs Call ! j]\<rparr>)"

lemma reportRuleViolation_Inr:
  assumes "1 \<le> arg1 R" "arg1 R < arg2 R" "arg2 R \<le> length (arg_exprs Call)"
  shows "reportRuleViolation errorNode Call (size_pred (arg1 R)) (size_pred (arg2 R)) (diagnostic R) s =
    Inr (if errorNode (nodes_asked s)
         then s\<lparr>nodes_asked := nodes_asked s + 1, BT := True, emitted := emitted s @ [report_of Call R]\<rparr>
         else s\<lparr>nodes_asked := nodes_asked s + 1\<rparr>)"
  using assms
  by (auto simp: reportRuleViolation_def getArgExpr_def size_pred_def report_of_def List.map_filter_def
      split: option.split)

lemma fold_reports:
  assumes "\<forall>R \<in> set Rs. 1 \<le> arg1 R \<and> arg1 R < arg2 R \<and> arg2 R \<le> length (arg_exprs Call)"
  shows "\<exists>s'. fold_result (\<lambda>R. reportRuleViolation errorNode Call (size_pred (arg1 R)) (size_pred (arg2 R)) (diagnostic R))
      Rs s = Inr s' \<and> nodes_asked s' = nodes_asked s + length Rs \<and>
    emitted s' = emitted s @ map (\<lambda>(k, R). report_of Call R)
      (filter (\<lambda>(k, R). errorNode k) (enumerate (nodes_asked s) Rs))"
  using assms
proof (induction Rs arbitrary: s)
  case (Cons R Rs)
  have R: "1 \<le> arg1 R" "arg1 R < arg2 R" "arg2 R \<le> length (arg_exprs Call)" using Cons.prems by auto
  have Rs: "\<forall>R \<in> set Rs. 1 \<le> arg1 R \<and> arg1 R < arg2 R \<and> arg2 R \<le> length (arg_exprs Call)" using Cons.prems by simp
  show ?case
    using Cons.IH [OF Rs, of "if errorNode (nodes_asked s)
         then s\<lparr>nodes_asked := nodes_asked s + 1, BT := True, emitted := emitted s @ [report_of Call R]\<rparr>
         else s\<lparr>nodes_asked := nodes_asked s + 1\<rparr>"]
    by (cases "errorNode (nodes_asked s)") (simp_all add: reportRuleViolation_Inr [OF R])
qed simp

lemma CheckSite_positions:
  assumes "CheckSite chk site which = Inr rs" "arg_count site \<le> NOT_FOUND"
  shows "\<forall>R \<in> set rs. 1 \<le> arg1 R \<and> arg1 R < arg2 R \<and> arg2 R \<le> arg_count site"
proof
  fix R assume "R \<in> set rs"
  then obtain i j where "i < j" "j < arg_count site" "pair_report chk site which i j = Inr (Some R)"
    using CheckSite_from_pair [OF assms] by blast
  moreover then have "report_on site i j R" by (intro pair_report_on)
  ultimately show "1 \<le> arg1 R \<and> arg1 R < arg2 R \<and> arg2 R \<le> arg_count site" by (simp add: report_on_def)
qed

definition plugin_site :: "FunctionDecl \<Rightarrow> string list list \<Rightarrow> CallSite" where
  "plugin_site FD names =
     \<lparr>callDecl = \<lparr>fullyQualifiedName = getQualifiedNameAsString FD, paramNames = Some (getParamNames FD)\<rparr>,
      positionalArgNames = names\<rparr>"



end
