(* ===== verification/Python_Ext.thy ===== *)
theory Python_Ext
  imports Swap_Checker
begin

text \<open>
  The Python extension: the reference-counting pointer of
  \<^verbatim>\<open>python/PyOwnedObject.hpp\<close> over a heap of reference counts, and the
  method \<open>check_call\<close> of \<^verbatim>\<open>python/SwappedArgsExt.cpp\<close>. The C API of
  Python is not part of the repository. What a Python object is to the code (whether it is a
  \<open>str\<close>, its UTF-8 text, what iterating over it gives) is the parameter
  \<open>py_api\<close>, and so is which of the API calls that build the result fail.
\<close>

subsection \<open>The owning pointer\<close>

datatype memory_fault = Use_After_Free | No_Such_Variable

text \<open>The reference counts of the live objects, and the live \<open>PyOwnedObject\<close> variables.\<close>

record py_state =
  counts :: "nat \<Rightarrow> nat option"
  owned :: "nat \<Rightarrow> nat option option"

definition Py_INCREF :: "nat \<Rightarrow> py_state \<Rightarrow> memory_fault + py_state" where
  "Py_INCREF ob s =
     (case counts s ob of
        None \<Rightarrow> Inl Use_After_Free
      | Some n \<Rightarrow> Inr (s\<lparr>counts := (counts s)(ob \<mapsto> n + 1)\<rparr>))"

definition Py_DECREF :: "nat \<Rightarrow> py_state \<Rightarrow> memory_fault + py_state" where
  "Py_DECREF ob s =
     (case counts s ob of
        None \<Rightarrow> Inl Use_After_Free
      | Some n \<Rightarrow> Inr (s\<lparr>counts := (counts s)(ob := (if n \<le> 1 then None else Some (n - 1)))\<rparr>))"

definition incref_if :: "nat option \<Rightarrow> py_state \<Rightarrow> memory_fault + py_state" where
  "incref_if m s = (case m of None \<Rightarrow> Inr s | Some ob \<Rightarrow> Py_INCREF ob s)"

definition decref_if :: "nat option \<Rightarrow> py_state \<Rightarrow> memory_fault + py_state" where
  "decref_if m s = (case m of None \<Rightarrow> Inr s | Some ob \<Rightarrow> Py_DECREF ob s)"

text \<open>The operations on a variable: construction, copy, assignment, release and destruction.\<close>

definition owned_construct :: "nat \<Rightarrow> nat option \<Rightarrow> py_state \<Rightarrow> memory_fault + py_state" where
  "owned_construct x obj s = Inr (s\<lparr>owned := (owned s)(x \<mapsto> obj)\<rparr>)"

definition owned_copy :: "nat \<Rightarrow> nat \<Rightarrow> py_state \<Rightarrow> memory_fault + py_state" where
  "owned_copy x other s =
     (case owned s other of
        None \<Rightarrow> Inl No_Such_Variable
      | Some m \<Rightarrow> incref_if m (s\<lparr>owned := (owned s)(x \<mapsto> m)\<rparr>))"

definition owned_assign :: "nat \<Rightarrow> nat \<Rightarrow> py_state \<Rightarrow> memory_fault + py_state" where
  "owned_assign this lhs s =
     (case owned s this of
        None \<Rightarrow> Inl No_Such_Variable
      | Some m \<Rightarrow>
          if lhs \<noteq> this then
            (case decref_if m s of
               Inl e \<Rightarrow> Inl e
             | Inr s' \<Rightarrow>
                 (case owned s' lhs of
                    None \<Rightarrow> Inl No_Such_Variable
                  | Some m' \<Rightarrow> incref_if m' (s'\<lparr>owned := (owned s')(this \<mapsto> m')\<rparr>)))
          else Inr s)"

definition owned_release :: "nat \<Rightarrow> py_state \<Rightarrow> memory_fault + (py_state \<times> nat option)" where
  "owned_release x s =
     (case owned s x of
        None \<Rightarrow> Inl No_Such_Variable
      | Some m \<Rightarrow> Inr (s\<lparr>owned := (owned s)(x \<mapsto> None)\<rparr>, m))"

definition owned_destroy :: "nat \<Rightarrow> py_state \<Rightarrow> memory_fault + py_state" where
  "owned_destroy x s =
     (case owned s x of
        None \<Rightarrow> Inl No_Such_Variable
      | Some m \<Rightarrow> decref_if m (s\<lparr>owned := (owned s)(x := None)\<rparr>))"

subsection \<open>Building the result\<close>

datatype py_value =
    PyLong nat | PySet "string set" | PyDict "(string \<times> py_value) list" | PyList "py_value list"

datatype py_error = TypeError string | Raised

record 'o py_api =
  PyUnicode_Check :: "'o \<Rightarrow> bool"
  PyUnicode_AsUTF8 :: "'o \<Rightarrow> string option"
  iterate :: "'o \<Rightarrow> ('o list \<times> bool) option"
  is_None :: "'o \<Rightarrow> bool"
  decodes :: "string \<Rightarrow> bool"
  call_fails :: "nat \<Rightarrow> bool"

text \<open>
  A computation that makes API calls threads the number of calls made so far and gives
  nothing once a call has failed (a null pointer, with the exception set).
\<close>

type_synonym 'a calls = "nat \<Rightarrow> 'a option \<times> nat"

definition api_call :: "'o py_api \<Rightarrow> 'a \<Rightarrow> 'a calls" where
  "api_call api v k = (if call_fails api k then None else Some v, k + 1)"

definition bind_calls :: "'a calls \<Rightarrow> ('a \<Rightarrow> 'b calls) \<Rightarrow> 'b calls" where
  "bind_calls c f k = (case c k of (None, k') \<Rightarrow> (None, k') | (Some v, k') \<Rightarrow> f v k')"

fun add_morphemes :: "'o py_api \<Rightarrow> string list \<Rightarrow> string set \<Rightarrow> string set calls" where
  "add_morphemes api [] st = (\<lambda>k. (Some st, k))"
| "add_morphemes api (m # ms) st =
     bind_calls (\<lambda>k. if decodes api m then api_call api m k else (None, k + 1)) (\<lambda>mPy.
     bind_calls (api_call api (insert mPy st)) (add_morphemes api ms))"

definition MorphemeSetToPy :: "'o py_api \<Rightarrow> string list \<Rightarrow> py_value calls" where
  "MorphemeSetToPy api morphemes =
     bind_calls (api_call api {}) (\<lambda>st.
     bind_calls (add_morphemes api morphemes st) (\<lambda>st k. (Some (PySet st), k)))"

definition ResultToPy :: "'o py_api \<Rightarrow> Result \<Rightarrow> py_value calls" where
  "ResultToPy api result =
     bind_calls (api_call api []) (\<lambda>d.
     bind_calls (api_call api (PyLong (arg1 result))) (\<lambda>a1.
     bind_calls (api_call api (d @ [(''arg1'', a1)])) (\<lambda>d.
     bind_calls (api_call api (PyLong (arg2 result))) (\<lambda>a2.
     bind_calls (api_call api (d @ [(''arg2'', a2)])) (\<lambda>d.
     bind_calls (MorphemeSetToPy api (morphemes1 result)) (\<lambda>m1.
     bind_calls (api_call api (d @ [(''morphemes1'', m1)])) (\<lambda>d.
     bind_calls (MorphemeSetToPy api (morphemes2 result)) (\<lambda>m2.
     bind_calls (api_call api (d @ [(''morphemes2'', m2)])) (\<lambda>d k.
     (Some (PyDict d), k))))))))))"

text \<open>Appending a null pointer to the list is an API call that fails.\<close>

fun append_results :: "'o py_api \<Rightarrow> Result list \<Rightarrow> py_value list \<Rightarrow> py_value list calls" where
  "append_results api [] xs = (\<lambda>k. (Some xs, k))"
| "append_results api (r # rs) xs =
     bind_calls (ResultToPy api r) (\<lambda>d.
     bind_calls (api_call api (xs @ [d])) (append_results api rs))"

subsection \<open>The method check_call\<close>

definition Checker_New :: "(string \<Rightarrow> open_outcome) \<Rightarrow> bool \<Rightarrow> Checker option" where
  "Checker_New open_v2 allocated = (if allocated then Some (Checker_new open_v2 (default_config [])) else None)"

fun str_items :: "'o py_api \<Rightarrow> string \<Rightarrow> 'o list \<Rightarrow> py_error + string list" where
  "str_items api what [] = Inr []"
| "str_items api what (item # items) =
     (if \<not> PyUnicode_Check api item then Inl (TypeError (what @ '' must be an iterable of str''))
      else case PyUnicode_AsUTF8 api item of
        None \<Rightarrow> Inl Raised
      | Some itemStr \<Rightarrow> map_sum (\<lambda>e. e) (\<lambda>ss. itemStr # ss) (str_items api what items))"

text \<open>The loop over an iterable; the flag of \<open>iterate\<close> is that iterating ends in an exception.\<close>

definition read_strs :: "'o py_api \<Rightarrow> string \<Rightarrow> 'o \<Rightarrow> py_error + string list" where
  "read_strs api what ob =
     (case iterate api ob of
        None \<Rightarrow> Inl (TypeError (what @ '' must be an iterable of str''))
      | Some (items, raises) \<Rightarrow>
          (case str_items api what items of
             Inl e \<Rightarrow> Inl e
           | Inr ss \<Rightarrow> if raises then Inl Raised else Inr ss))"

definition read_params :: "'o py_api \<Rightarrow> 'o option \<Rightarrow> py_error + string list option" where
  "read_params api parameters =
     (case parameters of
        None \<Rightarrow> Inr None
      | Some ob \<Rightarrow> if is_None api ob then Inr None else map_sum (\<lambda>e. e) Some (read_strs api ''parameters'' ob))"

text \<open>
  The parsed arguments are the object \<open>arguments\<close>, the optional \<open>callee\<close> and
  the optional object \<open>parameters\<close>; \<open>None\<close> if parsing them raised. The outcome is a
  fault of the checker, else an exception or the value returned.
\<close>

definition Checker_Check ::
    "'o py_api \<Rightarrow> Checker \<Rightarrow> ('o \<times> string option \<times> 'o option) option \<Rightarrow> (py_error + py_value) result" where
  "Checker_Check api chk parsed =
     (case parsed of
        None \<Rightarrow> Inr (Inl Raised)
      | Some (arguments, callee, parameters) \<Rightarrow>
          (case read_strs api ''arguments'' arguments of
             Inl e \<Rightarrow> Inr (Inl e)
           | Inr args \<Rightarrow>
               (case read_params api parameters of
                  Inl e \<Rightarrow> Inr (Inl e)
                | Inr params \<Rightarrow>
                    let site = \<lparr>callDecl = \<lparr>fullyQualifiedName = (case callee of Some c \<Rightarrow> c | None \<Rightarrow> []),
                                            paramNames = params\<rparr>,
                                positionalArgNames = map (\<lambda>a. [a]) args\<rparr>
                    in
                    (case api_call api [] 0 of
                       (None, k) \<Rightarrow> Inr (Inl Raised)
                     | (Some xs, k) \<Rightarrow>
                         bind_result (CheckSite chk site All) (\<lambda>results.
                         case append_results api results xs k of
                           (None, k') \<Rightarrow> Inr (Inl Raised)
                         | (Some xs', k') \<Rightarrow> Inr (Inr (PyList xs')))))))"

subsection \<open>Reference counts are right\<close>

datatype owned_op = Construct nat "nat option" | Copy nat nat | Assign nat nat | Release nat | Destroy nat

fun run_op :: "owned_op \<Rightarrow> py_state \<Rightarrow> memory_fault + py_state" where
  "run_op (Construct x m) s = owned_construct x m s"
| "run_op (Copy x y) s = owned_copy x y s"
| "run_op (Assign x y) s = owned_assign x y s"
| "run_op (Release x) s = map_sum (\<lambda>e. e) fst (owned_release x s)"
| "run_op (Destroy x) s = owned_destroy x s"

text \<open>What C++ guarantees: variables are constructed once and used while they live; and a
  constructor is given a reference that is held elsewhere (\<open>ext\<close>) to take over.\<close>

fun op_ok :: "owned_op \<Rightarrow> py_state \<Rightarrow> (nat \<Rightarrow> nat) \<Rightarrow> bool" where
  "op_ok (Construct x m) s ext \<longleftrightarrow> owned s x = None \<and> (case m of None \<Rightarrow> True | Some ob \<Rightarrow> 0 < ext ob)"
| "op_ok (Copy x y) s ext \<longleftrightarrow> owned s x = None \<and> owned s y \<noteq> None"
| "op_ok (Assign x y) s ext \<longleftrightarrow> owned s x \<noteq> None \<and> owned s y \<noteq> None"
| "op_ok (Release x) s ext \<longleftrightarrow> owned s x \<noteq> None"
| "op_ok (Destroy x) s ext \<longleftrightarrow> owned s x \<noteq> None"

fun ext_after :: "owned_op \<Rightarrow> py_state \<Rightarrow> (nat \<Rightarrow> nat) \<Rightarrow> nat \<Rightarrow> nat" where
  "ext_after (Construct x (Some ob)) s ext = ext(ob := ext ob - 1)"
| "ext_after (Release x) s ext = (case owned s x of Some (Some ob) \<Rightarrow> ext(ob := ext ob + 1) | _ \<Rightarrow> ext)"
| "ext_after _ s ext = ext"

fun run_ops :: "owned_op list \<Rightarrow> py_state \<Rightarrow> (nat \<Rightarrow> nat) \<Rightarrow> memory_fault + py_state \<times> (nat \<Rightarrow> nat)" where
  "run_ops [] s ext = Inr (s, ext)"
| "run_ops (p # ps) s ext = (case run_op p s of Inl e \<Rightarrow> Inl e | Inr s' \<Rightarrow> run_ops ps s' (ext_after p s ext))"

fun ops_ok :: "owned_op list \<Rightarrow> py_state \<Rightarrow> (nat \<Rightarrow> nat) \<Rightarrow> bool" where
  "ops_ok [] s ext = True"
| "ops_ok (p # ps) s ext =
     (op_ok p s ext \<and> (case run_op p s of Inl e \<Rightarrow> True | Inr s' \<Rightarrow> ops_ok ps s' (ext_after p s ext)))"

definition held :: "(nat \<Rightarrow> nat option option) \<Rightarrow> nat \<Rightarrow> nat" where
  "held f ob = card {x. f x = Some (Some ob)}"

definition counted :: "py_state \<Rightarrow> (nat \<Rightarrow> nat) \<Rightarrow> bool" where
  "counted s w \<longleftrightarrow> (\<forall>ob. counts s ob = (if w ob = 0 then None else Some (w ob)))"

definition counts_right :: "py_state \<Rightarrow> (nat \<Rightarrow> nat) \<Rightarrow> bool" where
  "counts_right s ext \<longleftrightarrow> finite (dom (owned s)) \<and> counted s (\<lambda>ob. held (owned s) ob + ext ob)"

lemma held_update:
  assumes "finite (dom f)"
  shows "held (f(x := m)) ob + of_bool (f x = Some (Some ob)) = held f ob + of_bool (m = Some (Some ob))"
proof -
  let ?R = "{y. y \<noteq> x \<and> f y = Some (Some ob)}"
  have fin: "finite ?R" by (rule finite_subset [OF _ assms]) auto
  have split: "{y. g y = Some (Some ob)} = (if g x = Some (Some ob) then insert x ?R else ?R)"
    if "\<forall>y. y \<noteq> x \<longrightarrow> g y = f y" for g :: "nat \<Rightarrow> nat option option"
    using that by (auto split: if_splits)
  have "held g ob = card ?R + of_bool (g x = Some (Some ob))"
    if "\<forall>y. y \<noteq> x \<longrightarrow> g y = f y" for g :: "nat \<Rightarrow> nat option option"
    unfolding held_def split [OF that] using fin by simp
  then have "held (f(x := m)) ob = card ?R + of_bool (m = Some (Some ob))"
      "held f ob = card ?R + of_bool (f x = Some (Some ob))"
    by simp_all
  then show ?thesis by simp
qed

lemma held_positive: "finite (dom f) \<Longrightarrow> f x = Some (Some ob) \<Longrightarrow> 0 < held f ob"
  using held_update [of f x None ob] by simp

lemma incref_if_counted:
  assumes "counted s w" "\<forall>ob. m = Some ob \<longrightarrow> 0 < w ob"
  shows "\<exists>s'. incref_if m s = Inr s' \<and> owned s' = owned s \<and> counted s' (\<lambda>ob. w ob + of_bool (m = Some ob))"
  using assms by (cases m) (auto simp: incref_if_def Py_INCREF_def counted_def)

lemma decref_if_counted:
  assumes "counted s w" "\<forall>ob. m = Some ob \<longrightarrow> 0 < w ob"
  shows "\<exists>s'. decref_if m s = Inr s' \<and> owned s' = owned s \<and> counted s' (\<lambda>ob. w ob - of_bool (m = Some ob))"
  using assms by (cases m) (auto simp: decref_if_def Py_DECREF_def counted_def)

lemma counted_cong: "counted s w \<Longrightarrow> counts s' = counts s \<Longrightarrow> (\<And>ob. w' ob = w ob) \<Longrightarrow> counted s' w'"
  by (simp add: counted_def)

lemma copy_counted:
  assumes "counts_right s ext" "owned s x = None" "owned s y = Some m"
  shows "\<exists>s'. incref_if m (s\<lparr>owned := (owned s)(x \<mapsto> m)\<rparr>) = Inr s' \<and> counts_right s' ext"
proof -
  let ?f = "(owned s)(x \<mapsto> m)"
  have fin: "finite (dom (owned s))" and c: "counted s (\<lambda>ob. held (owned s) ob + ext ob)"
    using assms(1) by (simp_all add: counts_right_def)
  have c': "counted (s\<lparr>owned := ?f\<rparr>) (\<lambda>ob. held (owned s) ob + ext ob)"
    by (rule counted_cong [OF c]) simp_all
  have "\<forall>ob. m = Some ob \<longrightarrow> 0 < held (owned s) ob + ext ob"
    using held_positive [OF fin] assms(3) by auto
  from incref_if_counted [OF c' this] obtain s' where s': "incref_if m (s\<lparr>owned := ?f\<rparr>) = Inr s'" "owned s' = ?f"
      "counted s' (\<lambda>ob. held (owned s) ob + ext ob + of_bool (m = Some ob))"
    by auto
  have "held ?f ob = held (owned s) ob + of_bool (m = Some ob)" for ob
    using held_update [OF fin, of x "Some m" ob] assms(2) by simp
  then have "counted s' (\<lambda>ob. held (owned s') ob + ext ob)"
    by (intro counted_cong [OF s'(3)]) (simp_all add: s'(2))
  then show ?thesis using s'(1,2) fin by (auto simp: counts_right_def)
qed

lemma drop_counted:
  assumes "counts_right s ext" "owned s x = Some m"
  shows "\<exists>s'. decref_if m s = Inr s' \<and> owned s' = owned s \<and>
    counts_right (s'\<lparr>owned := (owned s)(x := None)\<rparr>) ext"
proof -
  have fin: "finite (dom (owned s))" and c: "counted s (\<lambda>ob. held (owned s) ob + ext ob)"
    using assms(1) by (simp_all add: counts_right_def)
  have "\<forall>ob. m = Some ob \<longrightarrow> 0 < held (owned s) ob + ext ob"
    using held_positive [OF fin] assms(2) by auto
  from decref_if_counted [OF c this] obtain s' where s': "decref_if m s = Inr s'" "owned s' = owned s"
      "counted s' (\<lambda>ob. held (owned s) ob + ext ob - of_bool (m = Some ob))"
    by auto
  have "held ((owned s)(x := None)) ob + ext ob = held (owned s) ob + ext ob - of_bool (m = Some ob)" for ob
    using held_update [OF fin, of x None ob] assms(2) by (cases "m = Some ob") simp_all
  then have "counted (s'\<lparr>owned := (owned s)(x := None)\<rparr>) (\<lambda>ob. held ((owned s)(x := None)) ob + ext ob)"
    by (intro counted_cong [OF s'(3)]) simp_all
  then show ?thesis using s'(1,2) fin by (auto simp: counts_right_def)
qed

lemma decref_if_owned: "decref_if m (s\<lparr>owned := f\<rparr>) = map_sum (\<lambda>e. e) (\<lambda>s'. s'\<lparr>owned := f\<rparr>) (decref_if m s)"
  by (simp add: decref_if_def Py_DECREF_def split: option.split)

lemma run_op_counts:
  assumes "counts_right s ext" "op_ok p s ext"
  shows "\<exists>s'. run_op p s = Inr s' \<and> counts_right s' (ext_after p s ext)"
proof -
  have fin: "finite (dom (owned s))" and c: "counted s (\<lambda>ob. held (owned s) ob + ext ob)"
    using assms(1) by (simp_all add: counts_right_def)
  show ?thesis
  proof (cases p)
    case (Construct x m)
    let ?s = "s\<lparr>owned := (owned s)(x \<mapsto> m)\<rparr>"
    have "held ((owned s)(x \<mapsto> m)) ob + ext_after p s ext ob = held (owned s) ob + ext ob" for ob
      using held_update [OF fin, of x "Some m" ob] assms(2) Construct by (cases m) auto
    then have "counts_right ?s (ext_after p s ext)"
      using fin by (auto simp: counts_right_def intro: counted_cong [OF c])
    then show ?thesis by (simp add: Construct owned_construct_def)
  next
    case (Copy x y)
    then obtain m where "owned s x = None" "owned s y = Some m" using assms(2) by auto
    from copy_counted [OF assms(1) this] show ?thesis by (simp add: Copy owned_copy_def \<open>owned s y = Some m\<close>)
  next
    case (Assign x y)
    then obtain m m' where m: "owned s x = Some m" "owned s y = Some m'" using assms(2) by auto
    show ?thesis
    proof (cases "x = y")
      case True
      then show ?thesis using assms(1) m by (simp add: Assign owned_assign_def)
    next
      case False
      obtain s1 where s1: "decref_if m s = Inr s1" "owned s1 = owned s"
          "counts_right (s1\<lparr>owned := (owned s)(x := None)\<rparr>) ext"
        using drop_counted [OF assms(1) m(1)] by blast
      from copy_counted [OF s1(3), of x y m'] False m(2)
      obtain s' where "incref_if m' (s1\<lparr>owned := (owned s)(x \<mapsto> m')\<rparr>) = Inr s'" "counts_right s' ext"
        by auto
      then show ?thesis using m s1(1,2) False by (simp add: Assign owned_assign_def)
    qed
  next
    case (Release x)
    then obtain m where m: "owned s x = Some m" using assms(2) by auto
    let ?s = "s\<lparr>owned := (owned s)(x \<mapsto> None)\<rparr>"
    have "held ((owned s)(x \<mapsto> None)) ob + ext_after p s ext ob = held (owned s) ob + ext ob" for ob
      using held_update [OF fin, of x "Some None" ob] Release m by (cases m) auto
    then have "counts_right ?s (ext_after p s ext)"
      using fin by (auto simp: counts_right_def intro: counted_cong [OF c])
    then show ?thesis by (simp add: Release owned_release_def m)
  next
    case (Destroy x)
    then obtain m where m: "owned s x = Some m" using assms(2) by auto
    from drop_counted [OF assms(1) m] show ?thesis
      by (auto simp: Destroy owned_destroy_def m decref_if_owned)
  qed
qed

text \<open>C18: whatever sequence of constructions, copies, assignments (self-assignment and aliases
  included), releases and destructions a program makes, no operation touches a freed object,
  and every object's count stays the number of variables that hold it plus the references
  held elsewhere; so it is freed exactly when that becomes zero, and when no variable is left
  only the references held elsewhere are counted.\<close>

theorem owned_counts_right:
  assumes "counts_right s ext" "ops_ok ps s ext"
  shows "\<exists>s' ext'. run_ops ps s ext = Inr (s', ext') \<and> counts_right s' ext' \<and>
    (dom (owned s') = {} \<longrightarrow> (\<forall>ob. counts s' ob = (if ext' ob = 0 then None else Some (ext' ob))))"
  using assms
proof (induction ps arbitrary: s ext)
  case Nil
  have "dom (owned s) = {} \<Longrightarrow> held (owned s) ob = 0" for ob by (simp add: held_def)
  with Nil show ?case by (auto simp: counts_right_def counted_def)
next
  case (Cons p ps)
  obtain s' where s': "run_op p s = Inr s'" "counts_right s' (ext_after p s ext)"
    using run_op_counts Cons.prems by (metis ops_ok.simps(2))
  then show ?case using Cons.IH [OF s'(2)] Cons.prems(2) by simp
qed

theorem owned_counts_right_witness:
  "\<exists>s' ext'. run_ops [Construct 0 (Some 7), Copy 1 0, Assign 0 1, Destroy 0, Destroy 1]
     \<lparr>counts = [7 \<mapsto> 1], owned = Map.empty\<rparr> ((\<lambda>_. 0)(7 := 1)) = Inr (s', ext') \<and> counts s' 7 = None"
proof -
  let ?s = "\<lparr>counts = [7 \<mapsto> 1], owned = Map.empty\<rparr>" and ?ext = "(\<lambda>_. 0)(7 := Suc 0)"
  let ?ps = "[Construct 0 (Some 7), Copy 1 0, Assign 0 1, Destroy 0, Destroy 1]"
  note run = owned_construct_def owned_copy_def owned_assign_def owned_destroy_def incref_if_def decref_if_def
    Py_INCREF_def Py_DECREF_def
  have "counts_right ?s ?ext" by (simp add: counts_right_def counted_def held_def)
  moreover have "ops_ok ?ps ?s ?ext" by (simp add: run)
  moreover have "\<exists>s' ext'. run_ops ?ps ?s ?ext = Inr (s', ext') \<and> dom (owned s') = {} \<and> ext' 7 = 0"
    by (simp add: run dom_def)
  ultimately show ?thesis using owned_counts_right [of ?s ?ext ?ps] by fastforce
qed

subsection \<open>What check_call returns\<close>

text \<open>The value of a result, and a computation that gives one value unless an API call fails.\<close>

definition result_value :: "Result \<Rightarrow> py_value" where
  "result_value R =
     PyDict [(''arg1'', PyLong (arg1 R)), (''arg2'', PyLong (arg2 R)),
             (''morphemes1'', PySet (set (morphemes1 R))), (''morphemes2'', PySet (set (morphemes2 R)))]"

definition api_reliable :: "'o py_api \<Rightarrow> bool" where
  "api_reliable api \<longleftrightarrow> (\<forall>k. \<not> call_fails api k) \<and> (\<forall>m. decodes api m)"

definition gives :: "'o py_api \<Rightarrow> 'a calls \<Rightarrow> 'a \<Rightarrow> bool" where
  "gives api c v \<longleftrightarrow> (\<forall>k. fst (c k) = Some v \<or> \<not> api_reliable api \<and> fst (c k) = None)"

named_theorems gives_rules \<open>computations over API calls that give one value\<close>

lemma gives_bind [gives_rules]:
  assumes "gives api c v" "gives api (f v) w"
  shows "gives api (bind_calls c f) w"
  unfolding gives_def
proof
  fix k
  show "fst (bind_calls c f k) = Some w \<or> \<not> api_reliable api \<and> fst (bind_calls c f k) = None"
    using assms [unfolded gives_def, THEN spec [of _ k]]
      assms(2) [unfolded gives_def, THEN spec [of _ "snd (c k)"]]
    by (cases "c k") (auto simp: bind_calls_def)
qed

lemma gives_call [gives_rules]: "gives api (api_call api v) v"
  by (auto simp: gives_def api_call_def api_reliable_def)

lemma gives_value [gives_rules]: "gives api (\<lambda>k. (Some v, k)) v"
  by (simp add: gives_def)

lemma gives_unicode [gives_rules]: "gives api (\<lambda>k. if decodes api m then api_call api m k else (None, k + 1)) m"
  by (auto simp: gives_def api_call_def api_reliable_def)

lemma gives_add_morphemes: "gives api (add_morphemes api ms st) (st \<union> set ms)"
proof (induction ms arbitrary: st)
  case (Cons m ms)
  have "gives api (add_morphemes api (m # ms) st) (insert m st \<union> set ms)"
    unfolding add_morphemes.simps by (rule gives_rules Cons.IH)+
  then show ?case by simp
qed (simp add: gives_value)

lemma gives_MorphemeSetToPy [gives_rules]: "gives api (MorphemeSetToPy api ms) (PySet (set ms))"
  unfolding MorphemeSetToPy_def
  using gives_add_morphemes [of api ms "{}"] by (auto intro!: gives_rules)

lemma gives_ResultToPy: "gives api (ResultToPy api R) (result_value R)"
proof -
  have "gives api (ResultToPy api R) (PyDict ((([] @ [(''arg1'', PyLong (arg1 R))]) @ [(''arg2'', PyLong (arg2 R))]) @
      [(''morphemes1'', PySet (set (morphemes1 R)))] @ [(''morphemes2'', PySet (set (morphemes2 R)))]))"
    unfolding ResultToPy_def append_assoc [symmetric] by (rule gives_rules)+
  then show ?thesis by (simp add: result_value_def)
qed

lemma gives_append_results: "gives api (append_results api rs xs) (xs @ map result_value rs)"
proof (induction rs arbitrary: xs)
  case (Cons r rs)
  have "gives api (append_results api (r # rs) xs) ((xs @ [result_value r]) @ map result_value rs)"
    unfolding append_results.simps by (rule gives_bind gives_ResultToPy gives_call Cons.IH)+
  then show ?case by simp
qed (simp add: gives_value)

definition python_site :: "string option \<Rightarrow> string list option \<Rightarrow> string list \<Rightarrow> CallSite" where
  "python_site callee params args =
     \<lparr>callDecl = \<lparr>fullyQualifiedName = (case callee of Some c \<Rightarrow> c | None \<Rightarrow> []), paramNames = params\<rparr>,
      positionalArgNames = map (\<lambda>a. [a]) args\<rparr>"

text \<open>C19: when the arguments and the parameters, if given, are iterables of strings, then
  \<open>check_call\<close> either raises, and only because one of the API calls failed, or returns one
  dictionary for each result of \<open>CheckSite\<close> on the call site they describe, in order; no
  assertion of the checker fails, not even on empty names. Anything else in the place of
  a string raises before the checker is asked.\<close>

theorem check_call_returns:
  assumes "checker_ok chk" "sane_thresholds (Opts chk)"
    and "\<And>args. read_strs api ''arguments'' arguments = Inr args \<Longrightarrow> length args \<le> NOT_FOUND"
  shows "case (read_strs api ''arguments'' arguments, read_params api params) of
      (Inr args, Inr ps) \<Rightarrow> \<exists>rs. CheckSite chk (python_site callee ps args) All = Inr rs \<and>
        (Checker_Check api chk (Some (arguments, callee, params)) = Inr (Inr (PyList (map result_value rs))) \<or>
         \<not> api_reliable api \<and> Checker_Check api chk (Some (arguments, callee, params)) = Inr (Inl Raised))
    | (Inr args, Inl e) \<Rightarrow> Checker_Check api chk (Some (arguments, callee, params)) = Inr (Inl e)
    | (Inl e, _) \<Rightarrow> Checker_Check api chk (Some (arguments, callee, params)) = Inr (Inl e)"
proof (cases "read_strs api ''arguments'' arguments")
  case (Inr args)
  show ?thesis
  proof (cases "read_params api params")
    case (Inr ps)
    let ?site = "python_site callee ps args"
    have "last_names_ok ?site" by (rule last_names_single) (auto simp: python_site_def)
    moreover have "arg_count ?site \<le> NOT_FOUND"
      using assms(3) [OF \<open>read_strs api ''arguments'' arguments = Inr args\<close>] by (simp add: python_site_def)
    ultimately obtain rs where rs: "CheckSite chk ?site All = Inr rs"
      using CheckSite_Inr assms(1,2) by blast
    have check: "Checker_Check api chk (Some (arguments, callee, params)) =
        Inr (case bind_calls (api_call api []) (append_results api rs) 0 of
          (None, k) \<Rightarrow> Inl Raised | (Some xs, k) \<Rightarrow> Inr (PyList xs))"
      using rs \<open>read_strs api ''arguments'' arguments = Inr args\<close> Inr
      by (auto simp: Checker_Check_def python_site_def bind_calls_def Let_def split: prod.split option.split)
    have "gives api (bind_calls (api_call api []) (append_results api rs)) ([] @ map result_value rs)"
      by (rule gives_bind gives_call gives_append_results)+
    then have "fst (bind_calls (api_call api []) (append_results api rs) 0) = Some (map result_value rs) \<or>
        \<not> api_reliable api \<and> fst (bind_calls (api_call api []) (append_results api rs) 0) = None"
      by (simp add: gives_def)
    then show ?thesis
      using check rs \<open>read_strs api ''arguments'' arguments = Inr args\<close> Inr
      by (cases "bind_calls (api_call api []) (append_results api rs) 0") auto
  qed (simp add: Checker_Check_def \<open>read_strs api ''arguments'' arguments = Inr args\<close>)
qed (simp add: Checker_Check_def)

text \<open>Objects that are strings or lists of strings, with every call going well.\<close>

definition example_api :: "(string list) py_api" where
  "example_api =
     \<lparr>PyUnicode_Check = (\<lambda>ob. length ob = 1), PyUnicode_AsUTF8 = (\<lambda>ob. Some (hd ob)),
      iterate = (\<lambda>ob. Some (map (\<lambda>s. [s]) ob, False)), is_None = (\<lambda>ob. ob = []),
      decodes = (\<lambda>_. True), call_fails = (\<lambda>_. False)\<rparr>"

theorem check_call_returns_witness:
  "\<exists>rs. Checker_Check example_api \<lparr>Opts = default_config [], Stats = None\<rparr>
     (Some ([''dogs'', ''cats''], None, Some [''cats'', ''dogs''])) = Inr (Inr (PyList (map result_value rs)))"
proof -
  have args: "read_strs example_api what [a, b] = Inr [a, b]" for what a b
    by (simp add: read_strs_def example_api_def)
  have params: "read_params example_api (Some [a, b]) = Inr (Some [a, b])" for a b
    using args [of "''parameters''" a b] by (simp add: read_params_def) (simp add: example_api_def)
  have "api_reliable example_api" by (simp add: api_reliable_def example_api_def)
  then show ?thesis
    using check_call_returns [where chk = "\<lparr>Opts = default_config [], Stats = None\<rparr>" and api = example_api and
        arguments = "[''dogs'', ''cats'']" and params = "Some [''cats'', ''dogs'']" and callee = None]
    by (auto simp: args params checker_ok_def NOT_FOUND_def)
qed

end
