(* ===== verification/Sq_Base.thy ===== *)
theory Sq_Base
  imports Prelude
begin

text \<open>
  Ground shared by the theories on \<^verbatim>\<open>src/sqlite3.c\<close>, the embedded
  database engine: its integer types as words, memory as a function from addresses to
  bytes (a pointer is an address, \<open>p[i]\<close> is \<open>m (p + i)\<close>), and rules about
  bits. The engine is compiled without \<open>SQLITE_DEBUG\<close>, so its \<open>assert\<close>s and
  \<open>testcase\<close>s are empty and are not part of the models.
\<close>

type_synonym u8 = "8 word"
type_synonym u16 = "16 word"
type_synonym u32 = "32 word"
type_synonym u64 = "64 word"
type_synonym mem = "nat \<Rightarrow> u8"

unbundle bit_operations_syntax

text \<open>The result code for memory that is not there, and the codes of the text encodings.\<close>

definition SQLITE_NOMEM :: nat where "SQLITE_NOMEM = 7"

definition SQLITE_UTF8 :: nat where "SQLITE_UTF8 = 1"
definition SQLITE_UTF16LE :: nat where "SQLITE_UTF16LE = 2"
definition SQLITE_UTF16BE :: nat where "SQLITE_UTF16BE = 3"

named_theorems bit_rules \<open>bits of shifted, masked and converted words\<close>

lemma sint_nonneg_8 [bit_rules]: "0 \<le> sint (b :: u8) \<longleftrightarrow> \<not> bit b 7"
  using bit_last_iff [of b] by auto

lemma and_80_32 [bit_rules]: "(a :: u32) AND 0x80 = 0 \<longleftrightarrow> \<not> bit a 7"
  using and_exp_eq_0_iff_not_bit [of a 7] by simp

lemma and_80_8 [bit_rules]: "(a :: u8) AND 0x80 = 0 \<longleftrightarrow> \<not> bit a 7"
  using and_exp_eq_0_iff_not_bit [of a 7] by simp

lemma bit_u8_out [bit_rules]: "8 \<le> n \<Longrightarrow> bit (b :: u8) n = False"
  using bit_imp_le_length [of b n] by auto

lemma bit_u16_out [bit_rules]: "16 \<le> n \<Longrightarrow> bit (b :: u16) n = False"
  using bit_imp_le_length [of b n] by auto

lemma bit_u32_out [bit_rules]: "32 \<le> n \<Longrightarrow> bit (b :: u32) n = False"
  using bit_imp_le_length [of b n] by auto

lemma bit_u64_out [bit_rules]: "64 \<le> n \<Longrightarrow> bit (b :: u64) n = False"
  using bit_imp_le_length [of b n] by auto

text \<open>Two words are equal when their bits are, one by one.\<close>

lemma word_eq_upto:
  assumes "bit a 0 = bit b 0 \<and> bit a 1 = bit b 1 \<and> list_all (\<lambda>n. bit a n = bit b n) [2..<LENGTH('a)]"
  shows "(a :: 'a :: len word) = b"
proof (rule bit_word_eqI)
  fix n assume "n < LENGTH('a)"
  moreover have "n = 0 \<or> n = 1 \<or> 2 \<le> n" by arith
  ultimately show "bit a n = bit b n" using assms by (auto simp: list_all_iff)
qed

lemmas bitwise =
  bit_and_iff bit_or_iff bit_push_bit_iff bit_drop_bit_eq bit_ucast_iff bit_rules

text \<open>Storing bytes one after another.\<close>

fun store :: "mem \<Rightarrow> nat \<Rightarrow> u8 list \<Rightarrow> mem" where
  "store m p [] = m"
| "store m p (b # bs) = store (m(p := b)) (Suc p) bs"

lemma store_below [simp]: "a < p \<Longrightarrow> store m p bs a = m a"
  by (induction bs arbitrary: m p) auto

lemma store_above [simp]: "p + length bs \<le> a \<Longrightarrow> store m p bs a = m a"
  by (induction bs arbitrary: m p) auto

lemma store_at [simp]: "i < length bs \<Longrightarrow> store m p bs (p + i) = bs ! i"
proof (induction bs arbitrary: m p i)
  case (Cons b bs)
  show ?case
  proof (cases i)
    case (Suc k)
    with Cons show ?thesis using Cons.IH [of k "m(p := b)" "Suc p"] by (simp del: fun_upd_apply)
  qed simp
qed simp

lemma store_append: "store m p (bs @ cs) = store (store m p bs) (p + length bs) cs"
  by (induction bs arbitrary: m p) auto

lemma store_upd_above: "p + length bs \<le> q \<Longrightarrow> store (m(q := b)) p bs = (store m p bs)(q := b)"
proof (induction bs arbitrary: m p)
  case (Cons c bs)
  then have "(m(q := b))(p := c) = (m(p := c))(q := b)" by (simp add: fun_upd_twist)
  with Cons show ?case by (simp del: fun_upd_apply)
qed simp

end
