(* ===== verification/Sq_Varint.thy ===== *)
theory Sq_Varint
  imports Sq_Base
begin

text \<open>
  The integers of the database file format, from the utilities of
  \<^verbatim>\<open>src/sqlite3.c\<close>: variable-length integers of one to nine bytes
  (\<open>putVarint64\<close>, \<open>sqlite3PutVarint\<close>, \<open>sqlite3GetVarint\<close>,
  \<open>sqlite3GetVarint32\<close>, \<open>sqlite3VarintLen\<close>) and four-byte big-endian ones
  (\<open>sqlite3Get4byte\<close>, \<open>sqlite3Put4byte\<close>). The unrolled reader is shown to be the
  plain loop over groups of seven bits (\<open>varint_ref\<close>), the writers to store
  \<open>varint_bytes\<close>.
\<close>

subsection \<open>Writing\<close>

text \<open>The nine-byte case: the loop for \<open>i\<close> from 7 down to 0.\<close>

fun put_high :: "mem \<Rightarrow> nat \<Rightarrow> u64 \<Rightarrow> nat \<Rightarrow> mem" where
  "put_high m p v 0 = m"
| "put_high m p v (Suc i) = put_high (m(p + i := ucast ((v AND 0x7f) OR 0x80))) p (drop_bit 7 v) i"

text \<open>The do-while loop that fills \<open>buf\<close>, and the loop that copies it in reverse.\<close>

lemma drop_7_less: "drop_bit 7 v \<noteq> 0 \<Longrightarrow> unat (drop_bit 7 v) < unat (v :: u64)"
proof -
  assume "drop_bit 7 v \<noteq> 0"
  then have "unat v \<noteq> 0" by (metis drop_bit_of_0 unat_eq_zero)
  moreover have "unat (drop_bit 7 v) = unat v div 2 ^ 7"
    by (metis unat_drop_bit_eq drop_bit_eq_div)
  ultimately show ?thesis using div_less_dividend [of "2 ^ 7" "unat v"] by simp
qed

function fill_buf :: "u8 list \<Rightarrow> u64 \<Rightarrow> u8 list" where
  "fill_buf buf v =
     (let buf' = buf @ [ucast ((v AND 0x7f) OR 0x80)]; v' = drop_bit 7 v
      in if v' \<noteq> 0 then fill_buf buf' v' else buf')"
  by pat_completeness auto
termination
  by (relation "measure (\<lambda>(buf, v). unat v)") (auto simp: drop_7_less)

declare fill_buf.simps [simp del]

fun copy_back :: "mem \<Rightarrow> nat \<Rightarrow> u8 list \<Rightarrow> nat \<Rightarrow> nat \<Rightarrow> mem" where
  "copy_back m p buf i 0 = m"
| "copy_back m p buf i (Suc j) = copy_back (m(p + i := buf ! j)) p buf (Suc i) j"

definition putVarint64 :: "mem \<Rightarrow> nat \<Rightarrow> u64 \<Rightarrow> mem \<times> nat" where
  "putVarint64 m p v =
     (if v AND push_bit 32 0xff000000 \<noteq> 0 then
        (put_high (m(p + 8 := ucast v)) p (drop_bit 8 v) 8, 9)
      else
        let buf = fill_buf [] v; buf' = buf[0 := buf ! 0 AND 0x7f]; n = length buf'
        in (copy_back m p buf' 0 n, n))"

definition sqlite3PutVarint :: "mem \<Rightarrow> nat \<Rightarrow> u64 \<Rightarrow> mem \<times> nat" where
  "sqlite3PutVarint m p v =
     (if v \<le> 0x7f then (m(p := ucast (v AND 0x7f)), 1)
      else if v \<le> 0x3fff then
        (m(p := ucast ((drop_bit 7 v AND 0x7f) OR 0x80), p + 1 := ucast (v AND 0x7f)), 2)
      else putVarint64 m p v)"

function varint_len_loop :: "nat \<Rightarrow> u64 \<Rightarrow> nat" where
  "varint_len_loop i v = (let v' = drop_bit 7 v in if v' \<noteq> 0 then varint_len_loop (i + 1) v' else i)"
  by pat_completeness auto
termination
  by (relation "measure (\<lambda>(i, v). unat v)") (auto simp: drop_7_less)

declare varint_len_loop.simps [simp del]

definition sqlite3VarintLen :: "u64 \<Rightarrow> nat" where
  "sqlite3VarintLen v = varint_len_loop 1 v"

subsection \<open>Reading\<close>

definition SLOT_2_0 :: u32 where "SLOT_2_0 = 0x001fc07f"
definition SLOT_4_2_0 :: u32 where "SLOT_4_2_0 = 0xf01fc07f"

definition u64_of :: "u32 \<Rightarrow> u32 \<Rightarrow> u64" where
  "u64_of s a = push_bit 32 (ucast s) OR ucast a"

definition sqlite3GetVarint :: "mem \<Rightarrow> nat \<Rightarrow> nat \<times> u64" where
  "sqlite3GetVarint m p =
     (if 0 \<le> sint (m p) then (1, ucast (m p))
      else if 0 \<le> sint (m (p + 1)) then
        (2, ucast (push_bit 7 (ucast (m p AND 0x7f) :: u32) OR ucast (m (p + 1))))
      else
      let a = push_bit 14 (ucast (m p) :: u32); b = ucast (m (p + 1)) :: u32;
          a = a OR ucast (m (p + 2))
      in
      if a AND 0x80 = 0 then
        (3, ucast (a AND SLOT_2_0 OR push_bit 7 (b AND 0x7f)))
      else
      let a = a AND SLOT_2_0; b = push_bit 14 b OR ucast (m (p + 3)) in
      if b AND 0x80 = 0 then
        (4, ucast (push_bit 7 a OR b AND SLOT_2_0))
      else
      let b = b AND SLOT_2_0; s = a; a = push_bit 14 a OR ucast (m (p + 4)) in
      if a AND 0x80 = 0 then
        (5, u64_of (drop_bit 18 s) (a OR push_bit 7 b))
      else
      let s = push_bit 7 s OR b; b = push_bit 14 b OR ucast (m (p + 5)) in
      if b AND 0x80 = 0 then
        (6, u64_of (drop_bit 18 s) (push_bit 7 (a AND SLOT_2_0) OR b))
      else
      let a = push_bit 14 a OR ucast (m (p + 6)) in
      if a AND 0x80 = 0 then
        (7, u64_of (drop_bit 11 s) (a AND SLOT_4_2_0 OR push_bit 7 (b AND SLOT_2_0)))
      else
      let a = a AND SLOT_2_0; b = push_bit 14 b OR ucast (m (p + 7)) in
      if b AND 0x80 = 0 then
        (8, u64_of (drop_bit 4 s) (push_bit 7 a OR b AND SLOT_4_2_0))
      else
      let a = push_bit 15 a OR ucast (m (p + 8)); b = push_bit 8 (b AND SLOT_2_0); a = a OR b;
          s = push_bit 4 s; b = drop_bit 3 (ucast (m (p + 4)) AND 0x7f) in
        (9, u64_of (s OR b) a))"

text \<open>The macro \<open>getVarint32\<close> handles the one-byte case before the function is called.\<close>

definition sqlite3GetVarint32 :: "mem \<Rightarrow> nat \<Rightarrow> nat \<times> u32" where
  "sqlite3GetVarint32 m p =
     (let a = ucast (m p) :: u32; b = ucast (m (p + 1)) :: u32 in
      if b AND 0x80 = 0 then (2, push_bit 7 (a AND 0x7f) OR b)
      else
      let a = push_bit 14 a OR ucast (m (p + 2)) in
      if a AND 0x80 = 0 then
        (3, a AND (push_bit 14 0x7f OR 0x7f) OR push_bit 7 (b AND 0x7f))
      else
      let (n, v64) = sqlite3GetVarint m p in
        (n, if v64 AND 0xffffffff \<noteq> v64 then 0xffffffff else ucast v64))"

definition getVarint32 :: "mem \<Rightarrow> nat \<Rightarrow> nat \<times> u32" where
  "getVarint32 m p = (if m p < 0x80 then (1, ucast (m p)) else sqlite3GetVarint32 m p)"

definition sqlite3Get4byte :: "mem \<Rightarrow> nat \<Rightarrow> u32" where
  "sqlite3Get4byte m p =
     push_bit 24 (ucast (m p)) OR push_bit 16 (ucast (m (p + 1))) OR
     push_bit 8 (ucast (m (p + 2))) OR ucast (m (p + 3))"

definition sqlite3Put4byte :: "mem \<Rightarrow> nat \<Rightarrow> u32 \<Rightarrow> mem" where
  "sqlite3Put4byte m p v =
     m(p := ucast (drop_bit 24 v), p + 1 := ucast (drop_bit 16 v), p + 2 := ucast (drop_bit 8 v),
       p + 3 := ucast v)"

subsection \<open>Reference decoding\<close>

function varint_ref :: "mem \<Rightarrow> nat \<Rightarrow> nat \<Rightarrow> u64 \<Rightarrow> nat \<times> u64" where
  "varint_ref m p k acc =
     (let b = m (p + k) in
      if 8 \<le> k then (k + 1, push_bit 8 acc OR ucast b)
      else if \<not> bit b 7 then (k + 1, push_bit 7 acc OR ucast b)
      else varint_ref m p (k + 1) (push_bit 7 acc OR ucast (b AND 0x7f)))"
  by pat_completeness auto
termination
  by (relation "measure (\<lambda>(m, p, k, acc). 8 - k)") auto

declare varint_ref.simps [simp del]

lemmas slots = SLOT_2_0_def SLOT_4_2_0_def u64_of_def

lemmas ref_at = varint_ref.simps [of m p 0 for m p] varint_ref.simps [of m p 1 for m p]
  varint_ref.simps [of m p 2 for m p] varint_ref.simps [of m p 3 for m p]
  varint_ref.simps [of m p 4 for m p] varint_ref.simps [of m p 5 for m p]
  varint_ref.simps [of m p 6 for m p] varint_ref.simps [of m p 7 for m p]
  varint_ref.simps [of m p 8 for m p]

lemma GetVarint_ref: "sqlite3GetVarint m p = varint_ref m p 0 0"
proof -
  obtain b0 b1 b2 b3 b4 b5 b6 b7 b8 where b: "m p = b0" "m (p + 1) = b1" "m (p + 2) = b2"
    "m (p + 3) = b3" "m (p + 4) = b4" "m (p + 5) = b5" "m (p + 6) = b6" "m (p + 7) = b7"
    "m (p + 8) = b8" by blast
  note [simp del] = One_nat_def add_2_eq_Suc add_2_eq_Suc'
  note get = sqlite3GetVarint_def ref_at Let_def bitwise b
  consider "\<not> bit b0 7" | "bit b0 7" "\<not> bit b1 7" | "bit b0 7" "bit b1 7" "\<not> bit b2 7"
    | "bit b0 7" "bit b1 7" "bit b2 7" "\<not> bit b3 7"
    | "bit b0 7" "bit b1 7" "bit b2 7" "bit b3 7" "\<not> bit b4 7"
    | "bit b0 7" "bit b1 7" "bit b2 7" "bit b3 7" "bit b4 7" "\<not> bit b5 7"
    | "bit b0 7" "bit b1 7" "bit b2 7" "bit b3 7" "bit b4 7" "bit b5 7" "\<not> bit b6 7"
    | "bit b0 7" "bit b1 7" "bit b2 7" "bit b3 7" "bit b4 7" "bit b5 7" "bit b6 7" "\<not> bit b7 7"
    | "bit b0 7" "bit b1 7" "bit b2 7" "bit b3 7" "bit b4 7" "bit b5 7" "bit b6 7" "bit b7 7"
    by blast
  then show ?thesis
    apply cases
            apply (simp_all add: get slots)
           apply (rule word_eq_upto, simp add: bitwise slots One_nat_def)+
    done
qed

subsection \<open>What is written\<close>

definition group :: "u64 \<Rightarrow> nat \<Rightarrow> u8" where
  "group v i = ucast (drop_bit (7 * i) v AND 0x7f)"

text \<open>\<open>n\<close> groups of seven bits, the highest first, each with the flag bit.\<close>

definition flagged :: "u64 \<Rightarrow> nat \<Rightarrow> u8 list" where
  "flagged v n = map (\<lambda>i. group v (n - 1 - i) OR 0x80) [0..<n]"

lemma flagged_simps [simp]: "length (flagged v n) = n" "flagged v 0 = []"
  by (simp_all add: flagged_def)

lemma ucast_or_80: "ucast (w OR 0x80 :: u64) = (ucast w :: u8) OR 0x80"
  by (rule word_eq_upto) (simp add: bitwise)

lemma flagged_Suc: "flagged v (Suc n) = (group v n OR 0x80) # flagged v n"
  by (rule nth_equalityI) (auto simp: flagged_def nth_Cons' simp del: upt_Suc)

lemma flagged_snoc: "flagged v (Suc n) = flagged (drop_bit 7 v) n @ [group v 0 OR 0x80]"
  by (rule nth_equalityI)
    (auto simp: flagged_def nth_append group_def algebra_simps Suc_diff_Suc simp del: upt_Suc)

lemma put_high_store: "put_high m p v n = store m p (flagged v n)"
proof (induction n arbitrary: m v)
  case (Suc n)
  then show ?case
    by (simp add: flagged_snoc store_append store_upd_above group_def ucast_or_80 del: fun_upd_apply)
qed simp

lemma copy_back_store: "j \<le> length buf \<Longrightarrow> copy_back m p buf i j = store m (p + i) (rev (take j buf))"
  by (induction j arbitrary: m i) (simp_all add: take_Suc_conv_app_nth)

lemma varint_len_add: "varint_len_loop (i + 1) v = Suc (varint_len_loop i v)"
  by (induction i v rule: varint_len_loop.induct)
    (subst (1 2) varint_len_loop.simps, simp add: Let_def)

lemma VarintLen_rec:
  "sqlite3VarintLen v = (if drop_bit 7 v = 0 then 1 else Suc (sqlite3VarintLen (drop_bit 7 v)))"
  unfolding sqlite3VarintLen_def
  by (subst varint_len_loop.simps) (simp add: Let_def varint_len_add [of 1, simplified])

lemma VarintLen_pos: "0 < sqlite3VarintLen v"
  by (subst VarintLen_rec) simp

lemma fill_buf_eq: "fill_buf buf v = buf @ rev (flagged v (sqlite3VarintLen v))"
proof (induction buf v rule: fill_buf.induct)
  case (1 buf v)
  have "fill_buf buf v = (if drop_bit 7 v = 0 then buf @ [group v 0 OR 0x80]
      else fill_buf (buf @ [group v 0 OR 0x80]) (drop_bit 7 v))"
    by (subst fill_buf.simps) (simp add: group_def ucast_or_80)
  with 1 show ?case
    by (subst VarintLen_rec) (auto simp: flagged_snoc group_def ucast_or_80)
qed

lemma drop_bit_len: "drop_bit (7 * sqlite3VarintLen v) v = 0"
proof (induction "sqlite3VarintLen v" arbitrary: v)
  case 0
  then show ?case using VarintLen_pos [of v] by simp
next
  case (Suc n)
  show ?case
  proof (cases "drop_bit 7 v = 0")
    case True
    then show ?thesis by (subst VarintLen_rec) simp
  next
    case False
    with Suc have "drop_bit (7 * sqlite3VarintLen (drop_bit 7 v)) (drop_bit 7 v) = 0"
      by (metis VarintLen_rec nat.inject)
    with False show ?thesis
      by (subst VarintLen_rec) (simp add: algebra_simps)
  qed
qed

lemma drop_bit_below_len: "0 < i \<Longrightarrow> i < sqlite3VarintLen v \<Longrightarrow> drop_bit (7 * i) v \<noteq> 0"
proof (induction i arbitrary: v)
  case (Suc i)
  have d: "drop_bit 7 v \<noteq> 0" using Suc.prems by (subst (asm) VarintLen_rec) (simp split: if_splits)
  then have "i < sqlite3VarintLen (drop_bit 7 v)" using Suc.prems by (subst (asm) VarintLen_rec) simp
  with Suc.IH [of "drop_bit 7 v"] d show ?case by (cases i) (simp_all add: algebra_simps)
qed simp

text \<open>The bytes \<open>sqlite3PutVarint\<close> writes.\<close>

definition varint_bytes :: "u64 \<Rightarrow> u8 list" where
  "varint_bytes v =
     (if drop_bit 56 v \<noteq> 0 then flagged (drop_bit 8 v) 8 @ [ucast v]
      else flagged (drop_bit 7 v) (sqlite3VarintLen v - 1) @ [group v 0])"

lemma high_byte: "v AND 0xff00000000000000 = 0 \<longleftrightarrow> drop_bit 56 v = (0 :: u64)"
proof -
  have "v AND 0xff00000000000000 = push_bit 56 (drop_bit 56 v)"
    and "drop_bit 56 v = drop_bit 56 (v AND 0xff00000000000000)"
    by (rule word_eq_upto, simp add: bitwise)+
  then show ?thesis by (metis push_bit_of_0 drop_bit_of_0)
qed

lemma rev_upd0: "xs \<noteq> [] \<Longrightarrow> rev (xs[0 := y]) = butlast (rev xs) @ [y]"
  by (cases xs) simp_all

lemma putVarint64_store:
  "putVarint64 m p v = (store m p (varint_bytes v), length (varint_bytes v))"
proof (cases "drop_bit 56 v = 0")
  case True
  obtain n where n: "sqlite3VarintLen v = Suc n" using VarintLen_pos [of v] gr0_implies_Suc by blast
  have "(group v 0 OR 0x80) AND 0x7f = group v 0"
    by (rule word_eq_upto) (simp add: bitwise group_def)
  then show ?thesis
    using True
    by (simp add: putVarint64_def high_byte varint_bytes_def fill_buf_eq n flagged_snoc copy_back_store
        Let_def)
next
  case False
  then show ?thesis
    by (simp add: putVarint64_def high_byte varint_bytes_def put_high_store store_append
        store_upd_above del: fun_upd_apply)
qed

lemma small_drop: "drop_bit 7 v = 0 \<longleftrightarrow> v \<le> (0x7f :: u64)" "drop_bit 14 v = 0 \<longleftrightarrow> v \<le> (0x3fff :: u64)"
proof -
  have "unat (drop_bit 7 v) = unat v div 2 ^ 7" "unat (drop_bit 14 v) = unat v div 2 ^ 14"
    by (metis unat_drop_bit_eq drop_bit_eq_div)+
  then show "drop_bit 7 v = 0 \<longleftrightarrow> v \<le> 0x7f" "drop_bit 14 v = 0 \<longleftrightarrow> v \<le> 0x3fff"
    by (auto simp: unat_eq_zero [symmetric] word_le_nat_alt div_eq_0_iff simp del: unat_eq_zero)
qed

lemma PutVarint_store:
  "sqlite3PutVarint m p v = (store m p (varint_bytes v), length (varint_bytes v))"
proof -
  have 1: "varint_bytes v = [ucast (v AND 0x7f)]" if "v \<le> 0x7f"
  proof -
    have "drop_bit 7 v = 0" using that small_drop by simp
    moreover from this have "drop_bit 56 v = 0" using drop_bit_drop_bit [of 49 7 v] by simp
    ultimately show ?thesis by (simp add: varint_bytes_def VarintLen_rec [of v] group_def)
  qed
  have 2: "varint_bytes v = [ucast (drop_bit 7 v AND 0x7f) OR 0x80, ucast (v AND 0x7f)]"
    if "\<not> v \<le> 0x7f" "v \<le> 0x3fff"
  proof -
    have "drop_bit 7 v \<noteq> 0" "drop_bit 14 v = 0" using that small_drop by simp_all
    moreover from this have "drop_bit 56 v = 0" using drop_bit_drop_bit [of 42 14 v] by simp
    moreover have "drop_bit 7 (drop_bit 7 v) = 0" using calculation by simp
    ultimately show ?thesis
      by (simp add: varint_bytes_def VarintLen_rec [of v] VarintLen_rec [of "drop_bit 7 v"] group_def
          flagged_snoc)
  qed
  show ?thesis
    using 1 2 by (auto simp: sqlite3PutVarint_def putVarint64_store ucast_or_80)
qed

subsection \<open>Reading back\<close>

lemma and_7f: "(w :: u64) AND 0x7f = take_bit 7 w"
  by (simp add: take_bit_eq_mask mask_eq_exp_minus_1)

lemma bit_group: "bit (group v i) j \<longleftrightarrow> j < 7 \<and> bit v (7 * i + j)"
  by (auto simp: group_def and_7f bit_ucast_iff bit_take_bit_iff bit_drop_bit_eq
      dest: bit_imp_le_length)

lemma ref_flagged:
  assumes "\<And>i. i < n \<Longrightarrow> m (p + k + i) = flagged w n ! i" "k + n \<le> 8"
  shows "varint_ref m p k acc = varint_ref m p (k + n) (push_bit (7 * n) acc OR take_bit (7 * n) w)"
  using assms
proof (induction n arbitrary: k acc)
  case (Suc n)
  have b: "m (p + k) = group w n OR 0x80"
    using Suc.prems(1) [of 0] by (simp add: flagged_Suc)
  have f: "bit (group w n OR 0x80) 7" by (simp add: bitwise)
  have g: "(group w n OR 0x80) AND 0x7f = group w n"
    by (rule word_eq_upto) (simp add: bitwise group_def)
  have acc: "push_bit (7 * n) (push_bit 7 acc OR ucast (group w n)) OR take_bit (7 * n) w =
      push_bit (7 * Suc n) acc OR take_bit (7 * Suc n) w"
    by (rule bit_word_eqI)
      (auto simp: bit_or_iff bit_push_bit_iff bit_ucast_iff bit_take_bit_iff bit_group
        algebra_simps dest: bit_imp_le_length)
  have "varint_ref m p k acc = varint_ref m p (Suc k) (push_bit 7 acc OR ucast (group w n))"
    using Suc.prems(2) b f g by (subst varint_ref.simps) (simp add: Let_def)
  also have "\<dots> = varint_ref m p (Suc k + n)
      (push_bit (7 * n) (push_bit 7 acc OR ucast (group w n)) OR take_bit (7 * n) w)"
  proof (rule Suc.IH)
    show "m (p + Suc k + i) = flagged w n ! i" if "i < n" for i
      using Suc.prems(1) [of "Suc i"] that by (simp add: flagged_Suc)
  qed (use Suc.prems in simp)
  finally show ?case using acc by simp
qed simp

lemma VarintLen_8: "drop_bit 56 v = 0 \<longleftrightarrow> sqlite3VarintLen v \<le> 8"
proof
  assume "drop_bit 56 v = 0"
  then show "sqlite3VarintLen v \<le> 8" using drop_bit_below_len [of 8 v] by (cases "8 < sqlite3VarintLen v") simp_all
next
  assume "sqlite3VarintLen v \<le> 8"
  then have "drop_bit (56 - 7 * sqlite3VarintLen v) (drop_bit (7 * sqlite3VarintLen v) v) = drop_bit 56 v"
    by (simp add: drop_bit_drop_bit)
  then show "drop_bit 56 v = 0" by (simp add: drop_bit_len)
qed

lemma length_varint_bytes: "length (varint_bytes v) = min 9 (sqlite3VarintLen v)"
  using VarintLen_8 [of v] VarintLen_pos [of v] by (auto simp: varint_bytes_def)

lemma take_all: "drop_bit n v = 0 \<Longrightarrow> take_bit n v = (v :: u64)"
  by (metis bits_ident add_0 push_bit_of_0)

lemma varint_ref_bytes:
  assumes "\<And>i. i < length (varint_bytes v) \<Longrightarrow> m (p + i) = varint_bytes v ! i"
  shows "varint_ref m p 0 0 = (length (varint_bytes v), v)"
proof (cases "drop_bit 56 v = 0")
  case True
  define n where "n = sqlite3VarintLen v - 1"
  have n: "sqlite3VarintLen v = Suc n" "n < 8"
    using True VarintLen_pos [of v] VarintLen_8 [of v] by (auto simp: n_def)
  have bytes: "varint_bytes v = flagged (drop_bit 7 v) n @ [group v 0]"
    using True by (simp add: varint_bytes_def n)
  have "varint_ref m p 0 0 = varint_ref m p n (take_bit (7 * n) (drop_bit 7 v))"
    using ref_flagged [of n m p 0 "drop_bit 7 v" 0] assms n by (simp add: bytes nth_append)
  also have "take_bit (7 * n) (drop_bit 7 v) = drop_bit 7 v"
    using drop_bit_len [of v] by (intro take_all) (simp add: n drop_bit_drop_bit algebra_simps)
  also have "varint_ref m p n (drop_bit 7 v) = (Suc n, v)"
  proof -
    have "m (p + n) = group v 0" using assms [of n] by (simp add: bytes nth_append)
    moreover have "push_bit 7 (drop_bit 7 v) OR ucast (group v 0) = v"
      by (rule word_eq_upto) (simp add: bitwise group_def)
    ultimately show ?thesis
      using n by (subst varint_ref.simps) (simp add: bit_group)
  qed
  finally show ?thesis by (simp add: bytes)
next
  case False
  have bytes: "varint_bytes v = flagged (drop_bit 8 v) 8 @ [ucast v]"
    using False by (simp add: varint_bytes_def)
  have "varint_ref m p 0 0 = varint_ref m p 8 (take_bit 56 (drop_bit 8 v))"
    using ref_flagged [of 8 m p 0 "drop_bit 8 v" 0] assms by (simp add: bytes nth_append)
  also have "\<dots> = (9, v)"
  proof -
    have "m (p + 8) = ucast v" using assms [of 8] by (simp add: bytes nth_append)
    moreover have "push_bit 8 (take_bit 56 (drop_bit 8 v)) OR ucast (ucast v :: u8) = v"
      by (rule word_eq_upto) (simp add: bitwise bit_take_bit_iff)
    ultimately show ?thesis by (subst varint_ref.simps) simp
  qed
  finally show ?thesis by (simp add: bytes)
qed

subsection \<open>Properties\<close>

text \<open>C20: the unrolled reader, which keeps two interleaved 32-bit accumulators and a saved
  high part, computes on every memory what the plain loop over the groups of seven bits
  computes in 64 bits.\<close>

theorem GetVarint_is_loop: "sqlite3GetVarint m p = varint_ref m p 0 0"
  by (rule GetVarint_ref)



lemma less_80: "(b :: u8) < 0x80 \<longleftrightarrow> \<not> bit b 7"
proof -
  have "\<not> bit b 7 \<longleftrightarrow> drop_bit 7 b = 0"
  proof
    assume "\<not> bit b 7"
    then show "drop_bit 7 b = 0" by (intro word_eq_upto) (simp add: bitwise)
  next
    assume "drop_bit 7 b = 0"
    then have "\<not> bit (drop_bit 7 b) 0" by simp
    then show "\<not> bit b 7" by (simp add: bit_drop_bit_eq)
  qed
  moreover have "unat (drop_bit 7 b) = unat b div 2 ^ 7"
    by (metis unat_drop_bit_eq drop_bit_eq_div)
  ultimately show ?thesis
    by (auto simp: unat_eq_zero [symmetric] word_less_nat_alt div_eq_0_iff simp del: unat_eq_zero)
qed

lemma and_mask32: "(v :: u64) AND 0xffffffff = v \<longleftrightarrow> v \<le> 0xffffffff"
proof -
  have "v AND 0xffffffff = v \<longleftrightarrow> take_bit 32 v = v" by (simp add: take_bit_eq_mask mask_eq_exp_minus_1)
  also have "\<dots> \<longleftrightarrow> take_bit 32 (unat v) = unat v"
    by (metis unsigned_take_bit_eq word_unat_eq_iff)
  also have "\<dots> \<longleftrightarrow> v \<le> 0xffffffff"
    by (auto simp: take_bit_nat_eq_self_iff word_le_nat_alt)
  finally show ?thesis .
qed

lemma fits32:
  "(v :: u64) AND 0xffffffff = v \<Longrightarrow> w = ucast v \<Longrightarrow>
     w = (if v \<le> 0xffffffff then ucast v else (0xffffffff :: u32))"
  by (simp add: and_mask32)

text \<open>The 32-bit reader (the macro and the function behind it) agrees with the 64-bit
  one on the number of bytes, and on the value up to the largest 32-bit number, to which
  it saturates.\<close>

theorem getVarint32_saturates:
  "getVarint32 m p = (let (n, v) = sqlite3GetVarint m p in (n, if v \<le> 0xffffffff then ucast v else 0xffffffff))"
proof -
  obtain b0 b1 b2 where b: "m p = b0" "m (p + 1) = b1" "m (p + 2) = b2" by blast
  note [simp del] = One_nat_def add_2_eq_Suc add_2_eq_Suc'
  note get = getVarint32_def sqlite3GetVarint32_def GetVarint_ref ref_at Let_def bitwise b less_80
  consider "\<not> bit b0 7" | "bit b0 7" "\<not> bit b1 7" | "bit b0 7" "bit b1 7" "\<not> bit b2 7"
    | "bit b0 7" "bit b1 7" "bit b2 7" by blast
  then show ?thesis
  proof cases
    case 4
    then show ?thesis
      by (simp add: getVarint32_def sqlite3GetVarint32_def b less_80 bitwise and_mask32 split: prod.split)
  qed (simp add: get split del: if_split,
       rule fits32; rule word_eq_upto; simp add: bitwise One_nat_def)+
qed

lemma get_put_4byte: "sqlite3Get4byte (sqlite3Put4byte m p v) p = v"
  by (simp add: sqlite3Get4byte_def sqlite3Put4byte_def) (rule word_eq_upto, simp add: bitwise)

end
