(* ===== verification/Sq_Arith.thy ===== *)
theory Sq_Arith
  imports Sq_Base "HOL-Library.Signed_Division"
begin

text \<open>
  Checked arithmetic and logarithmic estimates of \<^verbatim>\<open>src/sqlite3.c\<close>:
  \<open>sqlite3AddInt64\<close>, \<open>sqlite3SubInt64\<close>, \<open>sqlite3MulInt64\<close>,
  \<open>sqlite3AbsInt32\<close>, \<open>sqlite3LogEstAdd\<close>, \<open>sqlite3LogEst\<close> and the hexadecimal
  readers \<open>sqlite3HexToInt\<close>, \<open>sqlite3HexToBlob\<close>. Of the branches chosen by the
  compiler the portable one is modelled; a signed 64-bit integer is an \<open>int\<close> and every
  operation on it wraps (\<open>wrap64\<close>). The properties say that the result is the one the
  overflow builtins of the other branch are documented to give.
\<close>

subsection \<open>Checked 64-bit arithmetic\<close>

definition wrap64 :: "int \<Rightarrow> int" where
  "wrap64 = signed_take_bit 63"

definition LARGEST_INT64 :: int where "LARGEST_INT64 = 0x7fffffffffffffff"
definition SMALLEST_INT64 :: int where "SMALLEST_INT64 = - 1 - LARGEST_INT64"

definition in_i64 :: "int \<Rightarrow> bool" where
  "in_i64 x \<longleftrightarrow> SMALLEST_INT64 \<le> x \<and> x \<le> LARGEST_INT64"

text \<open>The value left in \<open>*pA\<close> and the return code.\<close>

definition sqlite3AddInt64 :: "int \<Rightarrow> int \<Rightarrow> int \<times> int" where
  "sqlite3AddInt64 pA iB =
     (let iA = pA in
      if iB \<ge> 0 then
        if iA > 0 \<and> wrap64 (LARGEST_INT64 - iA) < iB then (pA, 1) else (wrap64 (pA + iB), 0)
      else
        if iA < 0 \<and> wrap64 (- wrap64 (iA + LARGEST_INT64)) > wrap64 (iB + 1) then (pA, 1)
        else (wrap64 (pA + iB), 0))"

definition sqlite3SubInt64 :: "int \<Rightarrow> int \<Rightarrow> int \<times> int" where
  "sqlite3SubInt64 pA iB =
     (if iB = SMALLEST_INT64 then
        if pA \<ge> 0 then (pA, 1) else (wrap64 (pA - iB), 0)
      else sqlite3AddInt64 pA (wrap64 (- iB)))"

definition sqlite3MulInt64 :: "int \<Rightarrow> int \<Rightarrow> int \<times> int" where
  "sqlite3MulInt64 pA iB =
     (let iA = pA; ok = (wrap64 (iA * iB), 0) in
      if iB > 0 then
        if iA > wrap64 (LARGEST_INT64 sdiv iB) then (pA, 1)
        else if iA < wrap64 (SMALLEST_INT64 sdiv iB) then (pA, 1)
        else ok
      else if iB < 0 then
        if iA > 0 then
          if iB < wrap64 (SMALLEST_INT64 sdiv iA) then (pA, 1) else ok
        else if iA < 0 then
          if iB = SMALLEST_INT64 then (pA, 1)
          else if iA = SMALLEST_INT64 then (pA, 1)
          else if wrap64 (- iA) > wrap64 (LARGEST_INT64 sdiv wrap64 (- iB)) then (pA, 1)
          else ok
        else ok
      else ok)"

definition sqlite3AbsInt32 :: "int \<Rightarrow> int" where
  "sqlite3AbsInt32 x =
     (if x \<ge> 0 then x else if x = - 0x80000000 then 0x7fffffff else - x)"

lemma wrap64_id: "in_i64 x \<Longrightarrow> wrap64 x = x"
  by (simp add: wrap64_def in_i64_def SMALLEST_INT64_def LARGEST_INT64_def
      signed_take_bit_int_eq_self_iff)

lemma AddInt64_exact:
  assumes "in_i64 a" "in_i64 b"
  shows "sqlite3AddInt64 a b = (if in_i64 (a + b) then (a + b, 0) else (a, 1))"
proof -
  have "a > 0 \<Longrightarrow> in_i64 (LARGEST_INT64 - a)" "a < 0 \<Longrightarrow> in_i64 (a + LARGEST_INT64)"
    "a < 0 \<Longrightarrow> in_i64 (- (a + LARGEST_INT64))" "b < 0 \<Longrightarrow> in_i64 (b + 1)"
    using assms by (simp_all add: in_i64_def SMALLEST_INT64_def LARGEST_INT64_def)
  with assms show ?thesis
    by (cases "b \<ge> 0"; cases "a > 0"; cases "a < 0"; cases "in_i64 (a + b)")
      (simp_all add: sqlite3AddInt64_def wrap64_id in_i64_def SMALLEST_INT64_def LARGEST_INT64_def)
qed

lemma SubInt64_exact:
  assumes "in_i64 a" "in_i64 b"
  shows "sqlite3SubInt64 a b = (if in_i64 (a - b) then (a - b, 0) else (a, 1))"
proof (cases "b = SMALLEST_INT64")
  case True
  with assms show ?thesis
    by (auto simp: sqlite3SubInt64_def wrap64_id in_i64_def SMALLEST_INT64_def LARGEST_INT64_def)
next
  case False
  then have "in_i64 (- b)" using assms by (auto simp: in_i64_def SMALLEST_INT64_def LARGEST_INT64_def)
  with False assms show ?thesis by (simp add: sqlite3SubInt64_def wrap64_id AddInt64_exact)
qed

lemma sdiv_pos: "0 \<le> k \<Longrightarrow> 0 < l \<Longrightarrow> k sdiv l = k div l" for k l :: int
  by (cases "k = 0") (simp_all add: signed_divide_int_def)

lemma sdiv_neg: "k < 0 \<Longrightarrow> 0 < l \<Longrightarrow> k sdiv l = - ((- k) div l)" for k l :: int
  by (simp add: signed_divide_int_def)

lemma le_div_iff: "0 < b \<Longrightarrow> a \<le> c div b \<longleftrightarrow> a * b \<le> c" for a b c :: int
proof
  assume b: "0 < b" and "a * b \<le> c"
  then have "a * b div b \<le> c div b" by (intro zdiv_mono1)
  with b show "a \<le> c div b" by simp
next
  assume b: "0 < b" and "a \<le> c div b"
  then have "a * b \<le> c div b * b" by (simp add: mult_right_mono)
  also have "\<dots> \<le> c" using b by (metis div_mult_mod_eq le_add_same_cancel1 pos_mod_sign)
  finally show "a * b \<le> c" .
qed

lemma wrap64_div [simp]:
  "0 < l \<Longrightarrow> wrap64 (LARGEST_INT64 sdiv l) = LARGEST_INT64 div l"
  "0 < l \<Longrightarrow> wrap64 (SMALLEST_INT64 sdiv l) = - ((LARGEST_INT64 + 1) div l)"
proof -
  assume l: "0 < l"
  have d: "0 \<le> c div l \<and> c div l \<le> c" if "0 \<le> c" for c :: int
    using that l zdiv_mono2 [of c 1 l] by (simp add: pos_imp_zdiv_nonneg_iff)
  have "in_i64 (LARGEST_INT64 div l)" "in_i64 (- ((LARGEST_INT64 + 1) div l))"
    using d [of LARGEST_INT64] d [of "LARGEST_INT64 + 1"]
    by (simp_all add: in_i64_def SMALLEST_INT64_def LARGEST_INT64_def)
  moreover have "LARGEST_INT64 sdiv l = LARGEST_INT64 div l"
    using l by (simp add: sdiv_pos LARGEST_INT64_def)
  moreover have "SMALLEST_INT64 sdiv l = - ((LARGEST_INT64 + 1) div l)"
    using l sdiv_neg [of SMALLEST_INT64 l] by (simp add: SMALLEST_INT64_def LARGEST_INT64_def)
  ultimately show "wrap64 (LARGEST_INT64 sdiv l) = LARGEST_INT64 div l"
    "wrap64 (SMALLEST_INT64 sdiv l) = - ((LARGEST_INT64 + 1) div l)"
    by (simp_all add: wrap64_id)
qed

lemma SMALLEST_mult: "b < 0 \<Longrightarrow> LARGEST_INT64 < SMALLEST_INT64 * b"
  using mult_right_mono [of 1 "- b" "LARGEST_INT64 + 1"]
  by (simp add: SMALLEST_INT64_def LARGEST_INT64_def)

lemma MulInt64_exact:
  assumes "in_i64 a" "in_i64 b"
  shows "sqlite3MulInt64 a b = (if in_i64 (a * b) then (a * b, 0) else (a, 1))"
proof -
  note lims = in_i64_def SMALLEST_INT64_def
  have up: "in_i64 (a * b) \<longleftrightarrow> a * b \<le> LARGEST_INT64" if "0 \<le> a * b"
    using that by (simp add: lims LARGEST_INT64_def)
  have dn: "in_i64 (a * b) \<longleftrightarrow> - (a * b) \<le> LARGEST_INT64 + 1" if "a * b \<le> 0"
    using that by (auto simp: lims LARGEST_INT64_def)
  consider "b = 0 \<or> a = 0" | "b > 0" "a > 0" | "b > 0" "a < 0" | "b < 0" "a > 0" | "b < 0" "a < 0"
    by linarith
  then show ?thesis
  proof cases
    case 1
    have 0: "wrap64 0 = 0" by (simp add: wrap64_def)
    have "0 \<le> LARGEST_INT64 div b" "0 \<le> (LARGEST_INT64 + 1) div b" if "0 < b"
      using that by (simp_all add: pos_imp_zdiv_nonneg_iff LARGEST_INT64_def)
    then have "sqlite3MulInt64 a b = (0, 0)"
      using 1 by (cases "b = 0"; cases "0 < b") (simp_all add: sqlite3MulInt64_def 0 not_less)
    moreover have "in_i64 0" by (simp add: lims LARGEST_INT64_def)
    ultimately show ?thesis using 1 by auto
  next
    case 2
    then have "in_i64 (a * b) \<longleftrightarrow> a \<le> LARGEST_INT64 div b" by (simp add: up le_div_iff)
    moreover have "0 \<le> (LARGEST_INT64 + 1) div b" using 2 by (simp add: pos_imp_zdiv_nonneg_iff LARGEST_INT64_def)
    ultimately show ?thesis using 2 by (auto simp: sqlite3MulInt64_def wrap64_id)
  next
    case 3
    then have "in_i64 (a * b) \<longleftrightarrow> - a \<le> (LARGEST_INT64 + 1) div b"
      by (simp add: dn mult_nonpos_nonneg le_div_iff)
    moreover have "0 \<le> LARGEST_INT64 div b" using 3 by (simp add: pos_imp_zdiv_nonneg_iff LARGEST_INT64_def)
    ultimately show ?thesis using 3 by (auto simp: sqlite3MulInt64_def wrap64_id)
  next
    case 4
    then have "in_i64 (a * b) \<longleftrightarrow> - b \<le> (LARGEST_INT64 + 1) div a"
      using dn by (simp add: mult_nonneg_nonpos le_div_iff mult.commute)
    then show ?thesis using 4 by (auto simp: sqlite3MulInt64_def wrap64_id)
  next
    case 5
    show ?thesis
    proof (cases "a = SMALLEST_INT64 \<or> b = SMALLEST_INT64")
      case True
      have "LARGEST_INT64 < a * b"
        using True SMALLEST_mult [OF 5(1)] SMALLEST_mult [OF 5(2)] by (auto simp: mult.commute)
      then have "\<not> in_i64 (a * b)" by (simp add: in_i64_def)
      with True 5 show ?thesis by (auto simp: sqlite3MulInt64_def)
    next
      case False
      then have n: "in_i64 (- a)" "in_i64 (- b)" using assms by (auto simp: lims)
      have "wrap64 (LARGEST_INT64 sdiv wrap64 (- b)) = LARGEST_INT64 div - b"
        using 5 by (subst wrap64_id [OF n(2)], intro wrap64_div) simp
      moreover have "in_i64 (a * b) \<longleftrightarrow> - a \<le> LARGEST_INT64 div - b"
        using 5 up [OF less_imp_le, OF mult_neg_neg] by (simp add: le_div_iff)
      ultimately show ?thesis using 5 False n by (auto simp: sqlite3MulInt64_def wrap64_id)
    qed
  qed
qed

subsection \<open>Logarithmic estimates\<close>

text \<open>A \<open>LogEst\<close> is a 16-bit integer; the tables are indexed below their length.\<close>

definition logest_add_x :: "int list" where
  "logest_add_x =
     [10, 10, 9, 9, 8, 8, 7, 7, 7, 6, 6, 6, 5, 5, 5, 4, 4, 4, 4, 3, 3, 3, 3, 3, 3,
      2, 2, 2, 2, 2, 2, 2]"

definition sqlite3LogEstAdd :: "int \<Rightarrow> int \<Rightarrow> int" where
  "sqlite3LogEstAdd a b =
     (if a \<ge> b then
        if a > b + 49 then a else if a > b + 31 then a + 1 else a + logest_add_x ! nat (a - b)
      else
        if b > a + 49 then b else if b > a + 31 then b + 1 else b + logest_add_x ! nat (b - a))"

definition logest_a :: "int list" where
  "logest_a = [0, 2, 3, 5, 6, 7, 8, 9]"

text \<open>The loops on \<open>(x, y)\<close>: while \<open>x < 8\<close>, while \<open>x > 255\<close>, while \<open>x > 15\<close>.\<close>

function shift_up :: "nat \<Rightarrow> int \<Rightarrow> nat \<times> int" where
  "shift_up x y = (if 0 < x \<and> x < 8 then shift_up (x * 2) (y - 10) else (x, y))"
  by pat_completeness auto
termination by (relation "measure (\<lambda>(x, y). 8 - x)") auto

function shift_4 :: "nat \<Rightarrow> int \<Rightarrow> nat \<times> int" where
  "shift_4 x y = (if x > 255 then shift_4 (x div 16) (y + 40) else (x, y))"
  by pat_completeness auto
termination by (relation "measure (\<lambda>(x, y). x)") auto

function shift_1 :: "nat \<Rightarrow> int \<Rightarrow> nat \<times> int" where
  "shift_1 x y = (if x > 15 then shift_1 (x div 2) (y + 10) else (x, y))"
  by pat_completeness auto
termination by (relation "measure (\<lambda>(x, y). x)") auto

declare shift_up.simps [simp del] shift_4.simps [simp del] shift_1.simps [simp del]

definition sqlite3LogEst :: "nat \<Rightarrow> int" where
  "sqlite3LogEst x =
     (let y = 40 in
      if x < 2 \<and> x < 8 then 0
      else
      let (x, y) = (if x < 8 then shift_up x y else case shift_4 x y of (x, y) \<Rightarrow> shift_1 x y)
      in logest_a ! (x mod 8) + y - 10)"

text \<open>After the loops \<open>x\<close> is between 8 and 15 and scaled by a power of two.\<close>

lemma shift_1_scale:
  assumes "8 \<le> x"
  shows "\<exists>k. fst (shift_1 x y) = x div 2 ^ k \<and> snd (shift_1 x y) = y + 10 * int k \<and>
    8 \<le> x div 2 ^ k \<and> x div 2 ^ k \<le> 15"
  using assms
proof (induction x y rule: shift_1.induct)
  case (1 x y)
  show ?case
  proof (cases "x > 15")
    case True
    then have "8 \<le> x div 2" by linarith
    with True obtain k where k: "fst (shift_1 (x div 2) (y + 10)) = x div 2 div 2 ^ k"
        "snd (shift_1 (x div 2) (y + 10)) = y + 10 + 10 * int k"
        "8 \<le> x div 2 div 2 ^ k" "x div 2 div 2 ^ k \<le> 15"
      using 1 by blast
    then show ?thesis
      using True by (intro exI [of _ "Suc k"]) (simp add: shift_1.simps [of x y] div_mult2_eq)
  next
    case False
    then show ?thesis using 1 by (intro exI [of _ 0]) (simp add: shift_1.simps [of x y])
  qed
qed

lemma shift_4_scale:
  assumes "8 \<le> x"
  shows "\<exists>k. fst (shift_4 x y) = x div 2 ^ k \<and> snd (shift_4 x y) = y + 10 * int k \<and> 8 \<le> x div 2 ^ k"
  using assms
proof (induction x y rule: shift_4.induct)
  case (1 x y)
  show ?case
  proof (cases "x > 255")
    case True
    then have "8 \<le> x div 16" by linarith
    with True obtain k where k: "fst (shift_4 (x div 16) (y + 40)) = x div 16 div 2 ^ k"
        "snd (shift_4 (x div 16) (y + 40)) = y + 40 + 10 * int k" "8 \<le> x div 16 div 2 ^ k"
      using 1 by blast
    have "(2 :: nat) ^ (k + 4) = 16 * 2 ^ k" by (simp add: power_add)
    with k show ?thesis
      using True by (intro exI [of _ "k + 4"]) (simp add: shift_4.simps [of x y] div_mult2_eq)
  next
    case False
    then show ?thesis using 1 by (intro exI [of _ 0]) (simp add: shift_4.simps [of x y])
  qed
qed

lemma LogEst_large:
  assumes "8 \<le> x"
  shows "\<exists>k. 8 \<le> x div 2 ^ k \<and> x div 2 ^ k \<le> 15 \<and>
    sqlite3LogEst x = logest_a ! (x div 2 ^ k - 8) + 10 * int k + 30"
proof -
  obtain k where k: "fst (shift_4 x 40) = x div 2 ^ k" "snd (shift_4 x 40) = 40 + 10 * int k" "8 \<le> x div 2 ^ k"
    using shift_4_scale [OF assms] by blast
  obtain j where j: "fst (shift_1 (x div 2 ^ k) (40 + 10 * int k)) = x div 2 ^ k div 2 ^ j"
      "snd (shift_1 (x div 2 ^ k) (40 + 10 * int k)) = 40 + 10 * int k + 10 * int j"
      "8 \<le> x div 2 ^ k div 2 ^ j" "x div 2 ^ k div 2 ^ j \<le> 15"
    using shift_1_scale [OF k(3)] by blast
  have m: "n mod 8 = n - 8" if "8 \<le> n" "n \<le> 15" for n :: nat
    using that by (simp add: le_mod_geq)
  from j have "8 \<le> x div 2 ^ (k + j)" "x div 2 ^ (k + j) \<le> 15" by (simp_all add: power_add div_mult2_eq)
  moreover have "sqlite3LogEst x = logest_a ! (x div 2 ^ (k + j) - 8) + 10 * int (k + j) + 30"
    using assms k j m [OF j(3,4)] by (simp add: sqlite3LogEst_def case_prod_unfold power_add div_mult2_eq)
  ultimately show ?thesis by blast
qed

lemma tenth_powers:
  assumes "8 \<le> n" "n \<le> 15"
  shows "(2 :: nat) ^ (nat (logest_a ! (n - 8)) + 30) \<le> 2 * n ^ 10"
    and "(n + 1) ^ 10 \<le> (2 :: nat) ^ (nat (logest_a ! (n - 8)) + 32)"
proof -
  have "n \<in> {8, 9, 10, 11, 12, 13, 14, 15}" using assms by auto
  then show "(2 :: nat) ^ (nat (logest_a ! (n - 8)) + 30) \<le> 2 * n ^ 10"
    and "(n + 1) ^ 10 \<le> (2 :: nat) ^ (nat (logest_a ! (n - 8)) + 32)"
    by (auto simp: logest_a_def)
qed

lemma LogEst_small: "x < 8 \<Longrightarrow> sqlite3LogEst x = [0, 0, 10, 16, 20, 23, 26, 28] ! x"
proof -
  assume "x < 8"
  then have "x \<in> {0, 1, 2, 3, 4, 5, 6, 7}" by auto
  then show ?thesis by (elim insertE) (simp_all add: sqlite3LogEst_def shift_up.simps logest_a_def)
qed

lemma LogEst_bounds_large:
  assumes "8 \<le> x"
  shows "0 \<le> sqlite3LogEst x \<and> 2 ^ nat (sqlite3LogEst x) \<le> 2 * x ^ 10 \<and>
    x ^ 10 < 2 ^ (nat (sqlite3LogEst x) + 2)"
proof -
  obtain k where k: "8 \<le> x div 2 ^ k" "x div 2 ^ k \<le> 15"
      "sqlite3LogEst x = logest_a ! (x div 2 ^ k - 8) + 10 * int k + 30"
    using LogEst_large [OF assms] by blast
  define n where "n = x div 2 ^ k"
  have a: "0 \<le> logest_a ! (n - 8)"
  proof -
    have "n - 8 \<in> {0,1,2,3,4,5,6,7}" using k by (auto simp: n_def)
    then show ?thesis by (auto simp: logest_a_def)
  qed
  then have e: "nat (sqlite3LogEst x) = nat (logest_a ! (n - 8)) + 30 + 10 * k"
    using k(3) by (simp add: n_def)
  have lo: "n * 2 ^ k \<le> x" by (simp add: n_def)
  have hi: "x < (n + 1) * 2 ^ k"
    using dividend_less_div_times [of "2 ^ k" x] by (simp add: n_def)
  have "(2 :: nat) ^ nat (sqlite3LogEst x) = 2 ^ (nat (logest_a ! (n - 8)) + 30) * (2 ^ k) ^ 10"
    by (simp add: e power_add power_mult [symmetric] mult.commute)
  also have "\<dots> \<le> 2 * n ^ 10 * (2 ^ k) ^ 10"
    using tenth_powers(1) [of n] k by (simp add: n_def)
  also have "\<dots> = 2 * (n * 2 ^ k) ^ 10" by (simp add: power_mult_distrib)
  also have "\<dots> \<le> 2 * x ^ 10" using lo by (simp add: power_mono)
  finally have 1: "2 ^ nat (sqlite3LogEst x) \<le> 2 * x ^ 10" .
  have "x ^ 10 < ((n + 1) * 2 ^ k) ^ 10" using hi by (simp add: power_strict_mono)
  also have "\<dots> = (n + 1) ^ 10 * (2 ^ k) ^ 10" by (rule power_mult_distrib)
  also have "\<dots> \<le> 2 ^ (nat (logest_a ! (n - 8)) + 32) * (2 ^ k) ^ 10"
    using tenth_powers(2) [of n] k by (intro mult_right_mono) (simp_all add: n_def)
  also have "\<dots> = 2 ^ (nat (sqlite3LogEst x) + 2)"
    by (simp add: e power_add power_mult [symmetric] mult.commute)
  finally show ?thesis using 1 a k(3) by (simp add: n_def)
qed

lemma LogEst_bounds:
  assumes "1 \<le> x"
  shows "0 \<le> sqlite3LogEst x \<and> 2 ^ nat (sqlite3LogEst x) \<le> 2 * x ^ 10 \<and>
    x ^ 10 < 2 ^ (nat (sqlite3LogEst x) + 2)"
proof (cases "x < 8")
  case True
  then have "x \<in> {1, 2, 3, 4, 5, 6, 7}" using assms by auto
  then show ?thesis by (elim insertE) (simp_all add: LogEst_small)
next
  case False
  then show ?thesis using LogEst_bounds_large by simp
qed

lemma LogEstAdd_bounds:
  "sqlite3LogEstAdd a b = sqlite3LogEstAdd b a \<and>
   max a b \<le> sqlite3LogEstAdd a b \<and> sqlite3LogEstAdd a b \<le> max a b + 10"
proof -
  have "\<forall>i < 32. 0 \<le> logest_add_x ! i \<and> logest_add_x ! i \<le> 10" by code_simp
  then have x: "0 \<le> logest_add_x ! nat d \<and> logest_add_x ! nat d \<le> 10" if "d \<le> 31" for d
    using that by (simp add: nat_less_iff)
  show ?thesis
    using x [of "a - b"] x [of "b - a"] by (cases a b rule: linorder_cases) (auto simp: sqlite3LogEstAdd_def)
qed

subsection \<open>Hexadecimal literals\<close>

text \<open>\<open>sqlite3HexToInt\<close> of the ASCII build; the shift and the mask of a signed int.\<close>

definition sqlite3HexToInt :: "int \<Rightarrow> u8" where
  "sqlite3HexToInt h = (let h = h + 9 * (1 AND drop_bit 6 h) in word_of_int (h AND 0xf))"

text \<open>The bytes of the blob; \<open>z\<close> holds the digits and the closing quote, \<open>n\<close> bytes in all.\<close>

function hex_loop :: "(nat \<Rightarrow> int) \<Rightarrow> nat \<Rightarrow> nat \<Rightarrow> u8 list" where
  "hex_loop z n i =
     (if i < n then
        (push_bit 4 (sqlite3HexToInt (z i)) OR sqlite3HexToInt (z (i + 1))) # hex_loop z n (i + 2)
      else [0])"
  by pat_completeness auto
termination by (relation "measure (\<lambda>(z, n, i). n - i)") auto

definition sqlite3HexToBlob :: "(nat \<Rightarrow> int) \<Rightarrow> nat \<Rightarrow> u8 list" where
  "sqlite3HexToBlob z n = hex_loop z (n - 1) 0"

declare hex_loop.simps [simp del]

text \<open>The two digits of a byte, in either case.\<close>

definition hex_digit :: "bool \<Rightarrow> nat \<Rightarrow> int" where
  "hex_digit upper d = (if d < 10 then 48 + int d else (if upper then 55 else 87) + int d)"

definition hex_text :: "bool \<Rightarrow> u8 list \<Rightarrow> int list" where
  "hex_text upper bs = concat (map (\<lambda>b. [hex_digit upper (unat b div 16), hex_digit upper (unat b mod 16)]) bs)"

lemma HexToInt_digit: "d < 16 \<Longrightarrow> sqlite3HexToInt (hex_digit upper d) = of_nat d"
proof -
  have "\<forall>upper \<in> {True, False}. \<forall>d \<in> set [0..<16]. sqlite3HexToInt (hex_digit upper d) = of_nat d"
    by code_simp
  then show "d < 16 \<Longrightarrow> ?thesis" by (cases upper) simp_all
qed

lemma nibbles: "push_bit 4 (of_nat (unat b div 16)) OR of_nat (unat b mod 16) = (b :: u8)"
proof -
  have "unat b div 16 = unat (drop_bit 4 b)" "unat b mod 16 = unat (take_bit 4 b)"
    using unat_drop_bit_eq [of 4 b] unsigned_take_bit_eq [of 4 b, where ?'a = nat]
    by (simp_all add: drop_bit_eq_div [of 4 "unat b"] take_bit_eq_mod [of 4 "unat b"])
  then have "of_nat (unat b div 16) = drop_bit 4 b" "of_nat (unat b mod 16) = take_bit 4 b" by simp_all
  moreover have "push_bit 4 (drop_bit 4 b) OR take_bit 4 b = b"
    by (rule word_eq_upto) (simp add: bitwise bit_take_bit_iff)
  ultimately show ?thesis by simp
qed

lemma hex_text_nth:
  "i < length bs \<Longrightarrow> hex_text upper bs ! (2 * i) = hex_digit upper (unat (bs ! i) div 16) \<and>
     hex_text upper bs ! (2 * i + 1) = hex_digit upper (unat (bs ! i) mod 16)"
proof (induction bs arbitrary: i)
  case (Cons b bs)
  then show ?case by (cases i) (simp_all add: hex_text_def)
qed simp

lemma length_hex_text [simp]: "length (hex_text upper bs) = 2 * length bs"
  by (induction bs) (simp_all add: hex_text_def)

lemma hex_loop_text:
  assumes "\<And>k. k < 2 * length bs \<Longrightarrow> z k = hex_text upper bs ! k" "i \<le> length bs"
  shows "hex_loop z (2 * length bs) (2 * i) = drop i bs @ [0]"
  using assms(2)
proof (induction "length bs - i" arbitrary: i)
  case 0
  then show ?case by (simp add: hex_loop.simps)
next
  case (Suc d)
  then have i: "i < length bs" by simp
  have z: "z (2 * i) = hex_digit upper (unat (bs ! i) div 16)"
      "z (2 * i + 1) = hex_digit upper (unat (bs ! i) mod 16)"
    using assms(1) [of "2 * i"] assms(1) [of "2 * i + 1"] hex_text_nth [OF i] i by simp_all
  have "unat (bs ! i) < 2 ^ LENGTH(8)" by (rule unsigned_less)
  then have "unat (bs ! i) div 16 < 16" by (simp add: less_mult_imp_div_less)
  then have "push_bit 4 (sqlite3HexToInt (z (2 * i))) OR sqlite3HexToInt (z (2 * i + 1)) = bs ! i"
    unfolding z by (simp add: HexToInt_digit nibbles)
  moreover have "hex_loop z (2 * length bs) (2 * Suc i) = drop (Suc i) bs @ [0]"
    using Suc.hyps(2) i by (intro Suc.hyps(1)) simp_all
  ultimately show ?case
    using i by (subst hex_loop.simps) (simp add: Cons_nth_drop_Suc)
qed

subsection \<open>Properties\<close>





lemma below_4: "k < 4 \<Longrightarrow> P 0 \<Longrightarrow> P 1 \<Longrightarrow> P 2 \<Longrightarrow> P 3 \<Longrightarrow> P (k :: nat)"
  by (cases "k = 0"; cases "k = 1"; cases "k = 2"; cases "k = 3") simp_all



end
