(* ===== verification/Sq_Text.thy ===== *)
theory Sq_Text
  imports Sq_Arith
begin

text \<open>
  Text routines of \<^verbatim>\<open>src/sqlite3.c\<close>: the character tables and the macros
  over them, case-insensitive comparison and hashing (\<open>sqlite3StrICmp\<close>,
  \<open>sqlite3_strnicmp\<close>, \<open>sqlite3StrIHash\<close>), \<open>sqlite3Dequote\<close>, and the conversion
  of text to integers (\<open>sqlite3Atoi64\<close>, \<open>sqlite3DecOrHexToI64\<close>,
  \<open>sqlite3GetInt32\<close>). A C string is the list of its characters without the terminator;
  \<open>ch z i\<close> reads byte \<open>i\<close>, which is 0 from the terminator on.
\<close>

subsection \<open>Characters\<close>

definition sqlite3UpperToLower :: "int list" where
  "sqlite3UpperToLower =
     [0, 1, 2, 3, 4, 5, 6, 7, 8, 9, 10, 11, 12, 13, 14, 15, 16, 17, 18, 19, 20, 21, 22, 23, 24,
      25, 26, 27, 28, 29, 30, 31, 32, 33, 34, 35, 36, 37, 38, 39, 40, 41, 42, 43, 44, 45, 46, 47,
      48, 49, 50, 51, 52, 53, 54, 55, 56, 57, 58, 59, 60, 61, 62, 63, 64, 97, 98, 99, 100, 101,
      102, 103, 104, 105, 106, 107, 108, 109, 110, 111, 112, 113, 114, 115, 116, 117, 118, 119,
      120, 121, 122, 91, 92, 93, 94, 95, 96, 97, 98, 99, 100, 101, 102, 103, 104, 105, 106, 107,
      108, 109, 110, 111, 112, 113, 114, 115, 116, 117, 118, 119, 120, 121, 122, 123, 124, 125,
      126, 127, 128, 129, 130, 131, 132, 133, 134, 135, 136, 137, 138, 139, 140, 141, 142, 143,
      144, 145, 146, 147, 148, 149, 150, 151, 152, 153, 154, 155, 156, 157, 158, 159, 160, 161,
      162, 163, 164, 165, 166, 167, 168, 169, 170, 171, 172, 173, 174, 175, 176, 177, 178, 179,
      180, 181, 182, 183, 184, 185, 186, 187, 188, 189, 190, 191, 192, 193, 194, 195, 196, 197,
      198, 199, 200, 201, 202, 203, 204, 205, 206, 207, 208, 209, 210, 211, 212, 213, 214, 215,
      216, 217, 218, 219, 220, 221, 222, 223, 224, 225, 226, 227, 228, 229, 230, 231, 232, 233,
      234, 235, 236, 237, 238, 239, 240, 241, 242, 243, 244, 245, 246, 247, 248, 249, 250, 251,
      252, 253, 254, 255]"

definition sqlite3CtypeMap :: "int list" where
  "sqlite3CtypeMap =
     [0x00, 0x00, 0x00, 0x00, 0x00, 0x00, 0x00, 0x00, 0x00, 0x01, 0x01, 0x01, 0x01, 0x01, 0x00, 0x00,
      0x00, 0x00, 0x00, 0x00, 0x00, 0x00, 0x00, 0x00, 0x00, 0x00, 0x00, 0x00, 0x00, 0x00, 0x00, 0x00,
      0x01, 0x00, 0x80, 0x00, 0x40, 0x00, 0x00, 0x80, 0x00, 0x00, 0x00, 0x00, 0x00, 0x00, 0x00, 0x00,
      0x0c, 0x0c, 0x0c, 0x0c, 0x0c, 0x0c, 0x0c, 0x0c, 0x0c, 0x0c, 0x00, 0x00, 0x00, 0x00, 0x00, 0x00,
      0x00, 0x0a, 0x0a, 0x0a, 0x0a, 0x0a, 0x0a, 0x02, 0x02, 0x02, 0x02, 0x02, 0x02, 0x02, 0x02, 0x02,
      0x02, 0x02, 0x02, 0x02, 0x02, 0x02, 0x02, 0x02, 0x02, 0x02, 0x02, 0x80, 0x00, 0x00, 0x00, 0x40,
      0x80, 0x2a, 0x2a, 0x2a, 0x2a, 0x2a, 0x2a, 0x22, 0x22, 0x22, 0x22, 0x22, 0x22, 0x22, 0x22, 0x22,
      0x22, 0x22, 0x22, 0x22, 0x22, 0x22, 0x22, 0x22, 0x22, 0x22, 0x22, 0x00, 0x00, 0x00, 0x00, 0x00,
      0x40, 0x40, 0x40, 0x40, 0x40, 0x40, 0x40, 0x40, 0x40, 0x40, 0x40, 0x40, 0x40, 0x40, 0x40, 0x40,
      0x40, 0x40, 0x40, 0x40, 0x40, 0x40, 0x40, 0x40, 0x40, 0x40, 0x40, 0x40, 0x40, 0x40, 0x40, 0x40,
      0x40, 0x40, 0x40, 0x40, 0x40, 0x40, 0x40, 0x40, 0x40, 0x40, 0x40, 0x40, 0x40, 0x40, 0x40, 0x40,
      0x40, 0x40, 0x40, 0x40, 0x40, 0x40, 0x40, 0x40, 0x40, 0x40, 0x40, 0x40, 0x40, 0x40, 0x40, 0x40,
      0x40, 0x40, 0x40, 0x40, 0x40, 0x40, 0x40, 0x40, 0x40, 0x40, 0x40, 0x40, 0x40, 0x40, 0x40, 0x40,
      0x40, 0x40, 0x40, 0x40, 0x40, 0x40, 0x40, 0x40, 0x40, 0x40, 0x40, 0x40, 0x40, 0x40, 0x40, 0x40,
      0x40, 0x40, 0x40, 0x40, 0x40, 0x40, 0x40, 0x40, 0x40, 0x40, 0x40, 0x40, 0x40, 0x40, 0x40, 0x40,
      0x40, 0x40, 0x40, 0x40, 0x40, 0x40, 0x40, 0x40, 0x40, 0x40, 0x40, 0x40, 0x40, 0x40, 0x40, 0x40]"

definition ctype :: "int \<Rightarrow> int \<Rightarrow> bool" where
  "ctype flags x \<longleftrightarrow> sqlite3CtypeMap ! nat x AND flags \<noteq> 0"

definition sqlite3Isspace :: "int \<Rightarrow> bool" where "sqlite3Isspace x = ctype 0x01 x"
definition sqlite3Isalnum :: "int \<Rightarrow> bool" where "sqlite3Isalnum x = ctype 0x06 x"
definition sqlite3Isalpha :: "int \<Rightarrow> bool" where "sqlite3Isalpha x = ctype 0x02 x"
definition sqlite3Isdigit :: "int \<Rightarrow> bool" where "sqlite3Isdigit x = ctype 0x04 x"
definition sqlite3Isxdigit :: "int \<Rightarrow> bool" where "sqlite3Isxdigit x = ctype 0x08 x"
definition sqlite3Isquote :: "int \<Rightarrow> bool" where "sqlite3Isquote x = ctype 0x80 x"
definition IdChar :: "int \<Rightarrow> bool" where "IdChar x = ctype 0x46 x"

definition sqlite3Tolower :: "int \<Rightarrow> int" where
  "sqlite3Tolower x = sqlite3UpperToLower ! nat x"

definition sqlite3Toupper :: "int \<Rightarrow> int" where
  "sqlite3Toupper x = x AND NOT (sqlite3CtypeMap ! nat x AND 0x20)"

text \<open>A fact about every entry of a table.\<close>

lemma table_entry:
  assumes "list_all2 P [0..255] tab" "0 \<le> c" "c < 256"
  shows "P c (tab ! nat c)"
  using list_all2_nthD [OF assms(1), of "nat c"] assms(2,3) by simp

lemma ctype_facts:
  assumes "0 \<le> c" "c < 256"
  shows "sqlite3Isspace c \<longleftrightarrow> c = 32 \<or> 9 \<le> c \<and> c \<le> 13"
    and "sqlite3Isdigit c \<longleftrightarrow> 48 \<le> c \<and> c \<le> 57"
    and "sqlite3Isalpha c \<longleftrightarrow> 65 \<le> c \<and> c \<le> 90 \<or> 97 \<le> c \<and> c \<le> 122"
    and "sqlite3Isquote c \<longleftrightarrow> c = 34 \<or> c = 39 \<or> c = 91 \<or> c = 96"
    and "sqlite3Isxdigit c \<longleftrightarrow> 48 \<le> c \<and> c \<le> 57 \<or> 65 \<le> c \<and> c \<le> 70 \<or> 97 \<le> c \<and> c \<le> 102"
    and "sqlite3Toupper c = (if 97 \<le> c \<and> c \<le> 122 then c - 32 else c)"
    and "IdChar c \<longleftrightarrow> 48 \<le> c \<and> c \<le> 57 \<or> 65 \<le> c \<and> c \<le> 90 \<or> 97 \<le> c \<and> c \<le> 122 \<or>
      c = 95 \<or> c = 36 \<or> 128 \<le> c"
  unfolding sqlite3Isspace_def sqlite3Isdigit_def sqlite3Isalpha_def sqlite3Isquote_def
    sqlite3Isxdigit_def sqlite3Toupper_def IdChar_def ctype_def
  by (rule table_entry [OF _ assms], code_simp)+

lemma Tolower_eq:
  "0 \<le> c \<Longrightarrow> c < 256 \<Longrightarrow> sqlite3Tolower c = (if 65 \<le> c \<and> c \<le> 90 then c + 32 else c)"
  unfolding sqlite3Tolower_def by (rule table_entry) code_simp

subsection \<open>C strings\<close>

definition ch :: "string \<Rightarrow> nat \<Rightarrow> int" where
  "ch z i = (if i < length z then of_char (z ! i) else 0)"

text \<open>The character a pointer is at; \<open>tl\<close> moves the pointer on.\<close>

definition cur :: "string \<Rightarrow> int" where
  "cur z = ch z 0"

lemma of_char_range [simp]: "0 \<le> (of_char c :: int)" "(of_char c :: int) < 256"
proof -
  have "(of_char c :: int) = int (of_char c)" by (rule of_nat_of_char [symmetric])
  moreover have "(of_char c :: nat) < 256" by simp
  ultimately show "0 \<le> (of_char c :: int)" "(of_char c :: int) < 256" by linarith+
qed

lemma ch_range [simp]: "0 \<le> ch z i" "ch z i < 256"
  by (simp_all add: ch_def)

lemma ch_simps [simp]: "ch [] i = 0" "ch (c # z) 0 = of_char c" "ch (c # z) (Suc i) = ch z i"
  by (simp_all add: ch_def)

lemma cur_simps [simp]: "cur [] = 0" "cur (c # z) = of_char c"
  by (simp_all add: cur_def)

lemma cur_range [simp]: "0 \<le> cur z" "cur z < 256"
  by (simp_all add: cur_def)

lemma ch_nonzero: "ch z i \<noteq> 0 \<Longrightarrow> i < length z"
  by (simp add: ch_def split: if_splits)

lemma Tolower_zero: "0 \<le> c \<Longrightarrow> c < 256 \<Longrightarrow> sqlite3Tolower c = 0 \<longleftrightarrow> c = 0"
  by (simp add: Tolower_eq)

definition sqlite3Strlen30 :: "string option \<Rightarrow> int" where
  "sqlite3Strlen30 z = (case z of None \<Rightarrow> 0 | Some z \<Rightarrow> 0x3fffffff AND int (length (c_str z)))"

subsection \<open>Case-insensitive comparison and hashing\<close>

function sqlite3StrICmp :: "string \<Rightarrow> string \<Rightarrow> int" where
  "sqlite3StrICmp a b =
     (let c = cur a; x = cur b in
      if c = x then (if c = 0 then c else sqlite3StrICmp (tl a) (tl b))
      else
      let d = sqlite3Tolower c - sqlite3Tolower x in
      if d \<noteq> 0 then d else sqlite3StrICmp (tl a) (tl b))"
  by pat_completeness auto
termination
proof (relation "measure (\<lambda>(a, b). length a + length b)")
  fix a b :: string and c x :: int
  assume "c = cur a" "x = cur b" "c = x" "c \<noteq> 0"
  then show "((tl a, tl b), a, b) \<in> measure (\<lambda>(a, b). length a + length b)"
    by (cases a; cases b) auto
next
  fix a b :: string and c x d :: int
  assume "c = cur a" "x = cur b" "c \<noteq> x"
  then show "((tl a, tl b), a, b) \<in> measure (\<lambda>(a, b). length a + length b)"
    by (cases a; cases b) auto
qed simp

declare sqlite3StrICmp.simps [simp del]

definition sqlite3_stricmp :: "string option \<Rightarrow> string option \<Rightarrow> int" where
  "sqlite3_stricmp zLeft zRight =
     (case (zLeft, zRight) of
        (None, Some _) \<Rightarrow> - 1 | (None, None) \<Rightarrow> 0 | (Some _, None) \<Rightarrow> 1
      | (Some l, Some r) \<Rightarrow> sqlite3StrICmp l r)"

text \<open>The loop counts \<open>N\<close> down once more than it advances.\<close>

function strnicmp_loop :: "string \<Rightarrow> string \<Rightarrow> int \<Rightarrow> int" where
  "strnicmp_loop a b N =
     (if N > 0 \<and> cur a \<noteq> 0 \<and> sqlite3Tolower (cur a) = sqlite3Tolower (cur b)
      then strnicmp_loop (tl a) (tl b) (N - 1)
      else if N - 1 < 0 then 0 else sqlite3Tolower (cur a) - sqlite3Tolower (cur b))"
  by pat_completeness auto
termination by (relation "measure (\<lambda>(a, b, N). nat N)") auto

declare strnicmp_loop.simps [simp del]

definition sqlite3_strnicmp :: "string option \<Rightarrow> string option \<Rightarrow> int \<Rightarrow> int" where
  "sqlite3_strnicmp zLeft zRight N =
     (case (zLeft, zRight) of
        (None, Some _) \<Rightarrow> - 1 | (None, None) \<Rightarrow> 0 | (Some _, None) \<Rightarrow> 1
      | (Some l, Some r) \<Rightarrow> strnicmp_loop l r N)"

fun strihash_loop :: "string \<Rightarrow> u8 \<Rightarrow> u8" where
  "strihash_loop [] h = h"
| "strihash_loop (c # z) h =
     (if c = CHR 0x00 then h else strihash_loop z (h + word_of_int (sqlite3Tolower (of_char c))))"

definition sqlite3StrIHash :: "string option \<Rightarrow> u8" where
  "sqlite3StrIHash z = (case z of None \<Rightarrow> 0 | Some z \<Rightarrow> strihash_loop z 0)"

text \<open>The hash of the schema hash tables.\<close>

fun strhash_loop :: "string \<Rightarrow> u32 \<Rightarrow> u32" where
  "strhash_loop [] h = h"
| "strhash_loop (c # z) h =
     (if c = CHR 0x00 then h
      else strhash_loop z ((h + word_of_int (sqlite3Tolower (of_char c))) * 0x9e3779b1))"

definition strHash :: "string \<Rightarrow> u32" where
  "strHash z = strhash_loop z 0"

text \<open>What these routines compare: the lower-case text.\<close>

definition fold_case :: "string \<Rightarrow> int list" where
  "fold_case z = map (\<lambda>c. sqlite3Tolower (of_char c)) (c_str z)"

lemma of_char_zero [simp]: "(of_char c :: int) = 0 \<longleftrightarrow> c = CHR 0x00"
  using of_char_eq_iff [of c "CHR 0x00", where ?'a = int] by simp

lemma fold_case_simps [simp]:
  "fold_case [] = []"
  "fold_case (c # z) = (if c = CHR 0x00 then [] else sqlite3Tolower (of_char c) # fold_case z)"
  by (simp_all add: fold_case_def c_str_def)

lemma fold_case_nonzero: "0 \<notin> set (fold_case z)"
  by (induction z) (auto simp: Tolower_zero eq_commute [of 0])

lemma fold_case_cur: "cur z = 0 \<longleftrightarrow> fold_case z = []"
  by (cases z) auto

lemma fold_case_step:
  "cur z \<noteq> 0 \<Longrightarrow> fold_case z = sqlite3Tolower (cur z) # fold_case (tl z)"
  by (cases z) auto

text \<open>Sign of the first difference, an end of text counting as 0.\<close>

fun compare_lists :: "int list \<Rightarrow> int list \<Rightarrow> int" where
  "compare_lists [] [] = 0"
| "compare_lists [] (y # ys) = - y"
| "compare_lists (x # xs) [] = x"
| "compare_lists (x # xs) (y # ys) = (if x = y then compare_lists xs ys else x - y)"

lemma compare_lists_zero: "0 \<notin> set xs \<Longrightarrow> 0 \<notin> set ys \<Longrightarrow> compare_lists xs ys = 0 \<longleftrightarrow> xs = ys"
  by (induction xs ys rule: compare_lists.induct) auto

lemma compare_lists_swap: "compare_lists ys xs = - compare_lists xs ys"
  by (induction xs ys rule: compare_lists.induct) auto

lemma Tolower_0 [simp]: "sqlite3Tolower 0 = 0"
  by (simp add: Tolower_eq)

lemma StrICmp_fold_case: "sqlite3StrICmp a b = compare_lists (fold_case a) (fold_case b)"
proof (induction a b rule: sqlite3StrICmp.induct)
  case (1 a b)
  consider (same) "cur a = cur b" "cur a \<noteq> 0" | (stop) "cur a = cur b" "cur a = 0"
    | (both) "cur a \<noteq> cur b" "cur a \<noteq> 0" "cur b \<noteq> 0" | (left) "cur a = 0" "cur b \<noteq> 0"
    | (right) "cur a \<noteq> 0" "cur b = 0" by linarith
  then show ?case
  proof cases
    case same
    with 1 show ?thesis by (simp add: sqlite3StrICmp.simps [of a b] fold_case_step)
  next
    case stop
    then have "fold_case a = []" "fold_case b = []" by (simp_all add: fold_case_cur [symmetric])
    with stop show ?thesis by (simp add: sqlite3StrICmp.simps [of a b])
  next
    case both
    with 1(2) show ?thesis by (simp add: sqlite3StrICmp.simps [of a b] fold_case_step Let_def)
  next
    case left
    then have "fold_case a = []" by (simp add: fold_case_cur)
    with left show ?thesis
      by (simp add: sqlite3StrICmp.simps [of a b] fold_case_step [of b] Let_def Tolower_zero)
  next
    case right
    then have "fold_case b = []" by (simp add: fold_case_cur)
    with right show ?thesis
      by (simp add: sqlite3StrICmp.simps [of a b] fold_case_step [of a] Let_def Tolower_zero)
  qed
qed

lemma strnicmp_fold_case:
  "strnicmp_loop a b N = compare_lists (take (nat N) (fold_case a)) (take (nat N) (fold_case b))"
proof (induction a b N rule: strnicmp_loop.induct)
  case (1 a b N)
  show ?case
  proof (cases "N > 0")
    case False
    then show ?thesis by (simp add: strnicmp_loop.simps [of a b N])
  next
    case True
    then obtain n where n: "nat N = Suc n" "nat (N - 1) = n" by (cases "nat N") (auto simp: nat_diff_distrib)
    show ?thesis
    proof (cases "cur a \<noteq> 0 \<and> sqlite3Tolower (cur a) = sqlite3Tolower (cur b)")
      case eq: True
      then have "cur b \<noteq> 0" by (metis Tolower_0 Tolower_zero cur_range)
      with 1 True eq n show ?thesis by (simp add: strnicmp_loop.simps [of a b N] fold_case_step)
    next
      case neq: False
      have "strnicmp_loop a b N = sqlite3Tolower (cur a) - sqlite3Tolower (cur b)"
        using True neq by (subst strnicmp_loop.simps) auto
      moreover have "sqlite3Tolower (cur a) - sqlite3Tolower (cur b) =
          compare_lists (take (nat N) (fold_case a)) (take (nat N) (fold_case b))"
      proof (cases "cur a = 0"; cases "cur b = 0")
      qed (use neq n in \<open>simp_all add: fold_case_step fold_case_cur [THEN iffD1]\<close>)
      ultimately show ?thesis by simp
    qed
  qed
qed

lemma strihash_fold: "strihash_loop z h = foldl (\<lambda>h x. h + word_of_int x) h (fold_case z)"
  by (induction z h rule: strihash_loop.induct) auto

lemma strhash_fold: "strhash_loop z h = foldl (\<lambda>h x. (h + word_of_int x) * 0x9e3779b1) h (fold_case z)"
  by (induction z h rule: strhash_loop.induct) auto



subsection \<open>Removing quotes\<close>

text \<open>
  The loop of \<open>sqlite3Dequote\<close> writes \<open>z[j++]\<close> behind the read position. Running past
  the terminator (a quote that is never closed) is a read outside the string.
\<close>

function dequote_loop :: "string \<Rightarrow> int \<Rightarrow> nat \<Rightarrow> nat \<Rightarrow> string result" where
  "dequote_loop z quote i j =
     (if i > length z then Inl Out_Of_Range
      else if ch z i = quote then
        if ch z (i + 1) = quote then dequote_loop (z[j := char_of quote]) quote (i + 2) (j + 1)
        else Inr (z[j := CHR 0x00])
      else dequote_loop (z[j := char_of (ch z i)]) quote (i + 1) (j + 1))"
  by pat_completeness auto
termination by (relation "measure (\<lambda>(z, quote, i, j). length z + 1 - i)") auto

declare dequote_loop.simps [simp del]

definition sqlite3Dequote :: "string \<Rightarrow> string result" where
  "sqlite3Dequote z =
     (let quote = ch z 0 in
      if \<not> sqlite3Isquote quote then Inr z
      else dequote_loop z (if quote = of_char (CHR ''['') then of_char (CHR '']'') else quote) 1 0)"

text \<open>A name written with a quote character, which is doubled inside.\<close>

definition closing :: "char \<Rightarrow> char" where
  "closing q = (if q = CHR ''['' then CHR '']'' else q)"

definition doubled :: "char \<Rightarrow> string \<Rightarrow> string" where
  "doubled q name = concat (map (\<lambda>c. if c = q then [q, q] else [c]) name)"

definition quoted :: "char \<Rightarrow> string \<Rightarrow> string" where
  "quoted q name = q # doubled (closing q) name @ [closing q]"

lemma doubled_simps [simp]:
  "doubled q [] = []" "doubled q (c # cs) = (if c = q then q # q # doubled q cs else c # doubled q cs)"
  by (simp_all add: doubled_def)

lemma ch_append: "ch (a @ b) i = (if i < length a then ch a i else ch b (i - length a))"
  by (cases "i < length a") (auto simp: ch_def nth_append)

lemma dequote_doubled:
  assumes "skip \<noteq> []" "q \<noteq> CHR 0x00"
  shows "\<exists>rest. dequote_loop (done @ skip @ doubled q name @ [q]) (of_char q) (length done + length skip) (length done) =
    Inr (done @ name @ CHR 0x00 # rest)"
  using assms(1)
proof (induction name arbitrary: "done" skip)
  case Nil
  obtain s ss where s: "skip = s # ss" using Nil by (cases skip) auto
  show ?case using assms(2) by (subst dequote_loop.simps) (simp add: ch_append s)
next
  case (Cons c name)
  obtain s ss where s: "skip = s # ss" using Cons.prems by (cases skip) auto
  show ?case
  proof (cases "c = q")
    case True
    have "dequote_loop (done @ skip @ doubled q (c # name) @ [q]) (of_char q) (length done + length skip) (length done) =
        dequote_loop ((done @ [q]) @ (ss @ [q, q]) @ doubled q name @ [q]) (of_char q)
          (length (done @ [q]) + length (ss @ [q, q])) (length (done @ [q]))"
      by (subst dequote_loop.simps) (simp add: ch_append s True)
    with Cons.IH [of "ss @ [q, q]" "done @ [q]"] True show ?thesis by auto
  next
    case False
    have "dequote_loop (done @ skip @ doubled q (c # name) @ [q]) (of_char q) (length done + length skip) (length done) =
        dequote_loop ((done @ [c]) @ (ss @ [c]) @ doubled q name @ [q]) (of_char q)
          (length (done @ [c]) + length (ss @ [c])) (length (done @ [c]))"
      using False by (subst dequote_loop.simps) (simp add: ch_append s)
    with Cons.IH [of "ss @ [c]" "done @ [c]"] show ?thesis by auto
  qed
qed

lemma dequote_quoted:
  assumes "CHR 0x00 \<notin> set name" "q \<in> {CHR 0x22, CHR 0x27, CHR 0x60, CHR ''[''}"
  shows "\<exists>z. sqlite3Dequote (quoted q name) = Inr z \<and> c_str z = name"
proof -
  have isq: "sqlite3Isquote (of_char q)" using assms(2) by (auto simp: ctype_facts)
  have cl: "closing q \<noteq> CHR 0x00" using assms(2) by (auto simp: closing_def)
  have "sqlite3Dequote (quoted q name) =
      dequote_loop ([] @ [q] @ doubled (closing q) name @ [closing q]) (of_char (closing q)) 1 0"
    using isq of_char_eq_iff [of q "CHR ''[''", where ?'a = int]
    by (simp add: sqlite3Dequote_def quoted_def closing_def Let_def)
  moreover obtain rest where
    "dequote_loop ([] @ [q] @ doubled (closing q) name @ [closing q]) (of_char (closing q)) 1 0 =
      Inr ([] @ name @ CHR 0x00 # rest)"
    using dequote_doubled [OF _ cl, of "[q]" "[]" name] by auto
  moreover have "c_str (name @ CHR 0x00 # rest) = name" for rest
    using assms(1) by (auto simp: c_str_def takeWhile_append2 intro: takeWhile_append2 [THEN trans])
  ultimately show ?thesis by auto
qed

text \<open>Removing the quotes gives back the name, whichever of the four quote characters
  encloses it and whatever quote characters it contains.\<close>

theorem Dequote_quoted:
  assumes "CHR 0x00 \<notin> set name" "q \<in> {CHR 0x22, CHR 0x27, CHR 0x60, CHR ''[''}"
  shows "\<exists>z. sqlite3Dequote (quoted q name) = Inr z \<and> c_str z = name"
  using assms by (rule dequote_quoted)

theorem Dequote_quoted_witness:
  "\<exists>z. sqlite3Dequote (quoted CHR ''['' ''a]b'') = Inr z \<and> c_str z = ''a]b''"
  by (rule Dequote_quoted) auto

end
