(* ===== verification/Sq_Atoi.thy ===== *)
theory Sq_Atoi
  imports Sq_Text
begin

text \<open>
  Text to integers, from the utilities of \<^verbatim>\<open>src/sqlite3.c\<close>:
  \<open>sqlite3Atoi64\<close> with \<open>compare2pow63\<close>, for UTF-8 and both UTF-16 encodings,
  \<open>sqlite3DecOrHexToI64\<close>, \<open>sqlite3GetInt32\<close> and \<open>sqlite3Atoi\<close>. A pointer
  into the text is an offset; \<open>step w\<close> is the distance \<open>incr\<close> between characters,
  2 in UTF-16. The unsigned accumulator wraps.
\<close>

subsection \<open>Decimal text of any encoding\<close>

definition step :: "bool \<Rightarrow> nat" where
  "step w = (if w then 2 else 1)"

lemma step_pos [simp]: "0 < step w"
  by (simp add: step_def)

text \<open>The loops over spaces and over leading zeros.\<close>

function skip_while :: "(int \<Rightarrow> bool) \<Rightarrow> string \<Rightarrow> bool \<Rightarrow> nat \<Rightarrow> nat \<Rightarrow> nat" where
  "skip_while P z w e p = (if p < e \<and> P (ch z p) then skip_while P z w e (p + step w) else p)"
  by pat_completeness auto
termination by (relation "measure (\<lambda>(P, z, w, e, p). e - p)") (auto intro: diff_less_mono2)

text \<open>The digits from \<open>p\<close> on: the distance \<open>i\<close> covered and the accumulator \<open>u\<close>.\<close>

function digit_loop :: "string \<Rightarrow> bool \<Rightarrow> nat \<Rightarrow> nat \<Rightarrow> nat \<Rightarrow> nat \<Rightarrow> nat \<times> nat" where
  "digit_loop z w e p i u =
     (if p + i < e \<and> ch z (p + i) \<ge> 48 \<and> ch z (p + i) \<le> 57
      then digit_loop z w e p (i + step w) ((u * 10 + nat (ch z (p + i)) - 48) mod 2 ^ 64)
      else (i, u))"
  by pat_completeness auto
termination by (relation "measure (\<lambda>(z, w, e, p, i, u). e - (p + i))") (auto intro: diff_less_mono2)

text \<open>The do-while loop over what follows the digits: the new return code.\<close>

function trailing_loop :: "string \<Rightarrow> bool \<Rightarrow> nat \<Rightarrow> nat \<Rightarrow> nat \<Rightarrow> int \<Rightarrow> int" where
  "trailing_loop z w e p jj rc =
     (if \<not> sqlite3Isspace (ch z (p + jj)) then 1
      else if p + (jj + step w) < e then trailing_loop z w e p (jj + step w) rc else rc)"
  by pat_completeness auto
termination by (relation "measure (\<lambda>(z, w, e, p, jj, rc). e - (p + jj))") (auto intro: diff_less_mono2)

text \<open>The scan for a high byte that is not zero.\<close>

function high_loop :: "string \<Rightarrow> nat \<Rightarrow> nat \<Rightarrow> nat" where
  "high_loop z len i = (if i < len \<and> ch z i = 0 then high_loop z len (i + 2) else i)"
  by pat_completeness auto
termination by (relation "measure (\<lambda>(z, len, i). len - i)") auto

declare skip_while.simps [simp del] digit_loop.simps [simp del] trailing_loop.simps [simp del]
  high_loop.simps [simp del]

definition pow63 :: string where "pow63 = ''922337203685477580''"

function compare_loop :: "string \<Rightarrow> nat \<Rightarrow> nat \<Rightarrow> nat \<Rightarrow> int \<Rightarrow> int" where
  "compare_loop z p incr i c =
     (if c = 0 \<and> i < 18 then compare_loop z p incr (i + 1) ((ch z (p + i * incr) - ch pow63 i) * 10)
      else c)"
  by pat_completeness auto
termination by (relation "measure (\<lambda>(z, p, incr, i, c). 18 - i)") auto

declare compare_loop.simps [simp del]

definition compare2pow63 :: "string \<Rightarrow> nat \<Rightarrow> nat \<Rightarrow> int" where
  "compare2pow63 z p incr =
     (let c = compare_loop z p incr 0 0
      in if c = 0 then ch z (p + 18 * incr) - of_char (CHR ''8'') else c)"

text \<open>The part after the text is delimited: \<open>p\<close> is \<open>zNum\<close> and \<open>e\<close> is \<open>zEnd\<close>.\<close>

definition atoi64_body :: "string \<Rightarrow> bool \<Rightarrow> nat \<Rightarrow> nat \<Rightarrow> bool \<Rightarrow> int \<times> int" where
  "atoi64_body z w p e nonNum =
     (let p = skip_while sqlite3Isspace z w e p;
          neg = (p < e \<and> ch z p = of_char (CHR ''-''));
          p = (if p < e \<and> (ch z p = of_char (CHR ''-'') \<or> ch z p = of_char (CHR ''+''))
               then p + step w else p);
          zStart = p;
          p = skip_while (\<lambda>c. c = of_char (CHR ''0'')) z w e p;
          (i, u) = digit_loop z w e p 0 0;
          num = (if int u > LARGEST_INT64 then (if neg then SMALLEST_INT64 else LARGEST_INT64)
                 else if neg then - int u else int u);
          rc = (if i = 0 \<and> zStart = p then - 1
                else if nonNum then 1
                else if p + i < e then trailing_loop z w e p i 0
                else 0)
      in
      if i < 19 * step w then (num, rc)
      else
      let c = (if i > 19 * step w then 1 else compare2pow63 z p (step w)) in
      if c < 0 then (num, rc)
      else (if neg then SMALLEST_INT64 else LARGEST_INT64,
            if c > 0 then 2 else if neg then rc else 3))"

definition sqlite3Atoi64 :: "string \<Rightarrow> nat \<Rightarrow> nat \<Rightarrow> int \<times> int" where
  "sqlite3Atoi64 zNum len enc =
     (if enc = SQLITE_UTF8 then atoi64_body zNum False 0 len False
      else
      let i = high_loop zNum len (3 - enc)
      in atoi64_body zNum True (enc AND 1) (i XOR 1) (i < len))"

subsection \<open>Characters at equal distances\<close>

text \<open>From offset \<open>p\<close> on, every \<open>step w\<close> bytes, up to \<open>e\<close>, the text has the characters \<open>u\<close>.\<close>

definition spells :: "string \<Rightarrow> bool \<Rightarrow> nat \<Rightarrow> nat \<Rightarrow> string \<Rightarrow> bool" where
  "spells z w e p u \<longleftrightarrow> (\<forall>i. p + i * step w < e \<longleftrightarrow> i < length u) \<and>
     (\<forall>i < length u. ch z (p + i * step w) = of_char (u ! i))"

lemma spells_narrow: "spells z False (length z) 0 z"
  by (simp add: spells_def step_def ch_def)

lemma spells_Nil: "spells z w e p [] \<longleftrightarrow> e \<le> p"
  using step_pos [of w] by (auto simp: spells_def not_less intro: le_trans)

lemma spells_Cons:
  "spells z w e p (c # u) \<longleftrightarrow> p < e \<and> ch z p = of_char c \<and> spells z w e (p + step w) u"
proof -
  have all: "(\<forall>i. Q i) \<longleftrightarrow> Q 0 \<and> (\<forall>i. Q (Suc i))" for Q
    by (metis not0_implies_Suc)
  show ?thesis
    unfolding spells_def all [of "\<lambda>i. p + i * step w < e \<longleftrightarrow> i < length (c # u)"]
      all [of "\<lambda>i. i < length (c # u) \<longrightarrow> ch z (p + i * step w) = of_char ((c # u) ! i)"]
    by (auto simp: add.assoc)
qed

lemma skip_while_spells:
  assumes "spells z w e p (u @ v)" "\<forall>c \<in> set u. P (of_char c)" "v = [] \<or> \<not> P (of_char (hd v))"
  shows "skip_while P z w e p = p + length u * step w \<and> spells z w e (p + length u * step w) v"
  using assms
proof (induction u arbitrary: p)
  case Nil
  then show ?case
    by (cases v) (auto simp: skip_while.simps [of P z w e p] spells_Nil spells_Cons)
next
  case (Cons c u)
  then have "skip_while P z w e p = skip_while P z w e (p + step w)"
    by (subst skip_while.simps) (simp add: spells_Cons)
  moreover have "p + length (c # u) * step w = p + step w + length u * step w" by simp
  ultimately show ?case
    using Cons.IH [of "p + step w"] Cons.prems by (simp add: spells_Cons add.assoc)
qed

text \<open>The number a text of digits denotes.\<close>

definition digit_of :: "char \<Rightarrow> nat" where
  "digit_of c = of_char c - 48"

definition dec :: "string \<Rightarrow> nat" where
  "dec ds = foldl (\<lambda>v c. v * 10 + digit_of c) 0 ds"

lemma of_char_nat_int: "(of_char c :: int) = int (of_char c)"
  by (rule of_nat_of_char [symmetric])

lemma isdigit_code: "isdigit c \<longleftrightarrow> 48 \<le> (of_char c :: nat) \<and> (of_char c :: nat) \<le> 57"
  by (simp add: isdigit_def less_eq_char_def)

lemma isdigit_int: "isdigit c \<longleftrightarrow> 48 \<le> (of_char c :: int) \<and> (of_char c :: int) \<le> 57"
  unfolding isdigit_code using of_char_nat_int [of c] by linarith

lemma dec_acc: "foldl (\<lambda>v c. v * 10 + digit_of c) a ds = a * 10 ^ length ds + dec ds"
proof -
  have "foldl (\<lambda>v c. v * 10 + digit_of c) a ds = a * 10 ^ length ds + foldl (\<lambda>v c. v * 10 + digit_of c) 0 ds" for a
  proof (induction ds rule: rev_induct)
    case (snoc d ds)
    then show ?case by (simp add: algebra_simps)
  qed simp
  then show ?thesis unfolding dec_def .
qed

lemma dec_simps [simp]: "dec [] = 0" "dec (c # ds) = digit_of c * 10 ^ length ds + dec ds"
  using dec_acc [of "digit_of c" ds] by (simp_all add: dec_def)

lemma digit_less: "isdigit c \<Longrightarrow> digit_of c < 10"
  by (auto simp: digit_of_def isdigit_code)

lemma dec_less: "list_all isdigit ds \<Longrightarrow> dec ds < 10 ^ length ds"
proof (induction ds)
  case (Cons c ds)
  then have "digit_of c \<le> 9" using digit_less [of c] by simp
  then have "digit_of c * 10 ^ length ds \<le> 9 * 10 ^ length ds" by (rule mult_le_mono1)
  moreover have "dec ds < 10 ^ length ds" using Cons by simp
  ultimately have "digit_of c * 10 ^ length ds + dec ds < 9 * 10 ^ length ds + 10 ^ length ds"
    by (rule add_le_less_mono)
  then show ?case by simp
qed simp

lemma digit_loop_spells:
  assumes "spells z w e (p + i) (ds @ v)" "list_all isdigit ds" "v = [] \<or> \<not> isdigit (hd v)"
  shows "digit_loop z w e p i (u mod 2 ^ 64) =
      (i + length ds * step w, (u * 10 ^ length ds + dec ds) mod 2 ^ 64) \<and>
    spells z w e (p + i + length ds * step w) v"
  using assms
proof (induction ds arbitrary: i u)
  case Nil
  then show ?case
    by (cases v) (auto simp: digit_loop.simps [of z w e p i] spells_Nil spells_Cons isdigit_int)
next
  case (Cons c ds)
  have c: "nat (of_char c) = of_char c" "48 \<le> (of_char c :: nat)" using Cons.prems by (simp_all add: isdigit_code)
  have "(u mod 2 ^ 64 * 10 + of_char c - 48) mod 2 ^ 64 = (u mod 2 ^ 64 * 10 + digit_of c) mod 2 ^ 64"
    using c by (simp add: digit_of_def)
  also have "\<dots> = (u * 10 + digit_of c) mod 2 ^ 64" by (metis mod_add_left_eq mod_mult_left_eq)
  finally have "digit_loop z w e p i (u mod 2 ^ 64) = digit_loop z w e p (i + step w) ((u * 10 + digit_of c) mod 2 ^ 64)"
    using Cons.prems c by (subst digit_loop.simps) (simp add: spells_Cons isdigit_int)
  moreover have "digit_loop z w e p (i + step w) ((u * 10 + digit_of c) mod 2 ^ 64) =
      (i + step w + length ds * step w, ((u * 10 + digit_of c) * 10 ^ length ds + dec ds) mod 2 ^ 64) \<and>
    spells z w e (p + (i + step w) + length ds * step w) v"
    using Cons.prems by (intro Cons.IH) (simp_all add: spells_Cons add.assoc)
  moreover have "i + step w + length ds * step w = i + length (c # ds) * step w"
    "p + (i + step w) + length ds * step w = p + i + length (c # ds) * step w" by simp_all
  moreover have "(u * 10 + digit_of c) * 10 ^ length ds + dec ds = u * 10 ^ length (c # ds) + dec (c # ds)"
    by (simp add: algebra_simps)
  ultimately show ?case by metis
qed

lemma trailing_spells:
  assumes "spells z w e (p + jj) (c # v)"
  shows "trailing_loop z w e p jj 0 = (if list_all (\<lambda>c. sqlite3Isspace (of_char c)) (c # v) then 0 else 1)"
  using assms
proof (induction v arbitrary: jj c)
  case Nil
  then show ?case
    by (subst trailing_loop.simps) (auto simp: spells_Cons spells_Nil add.assoc)
next
  case (Cons d v)
  have "trailing_loop z w e p (jj + step w) 0 =
      (if list_all (\<lambda>c. sqlite3Isspace (of_char c)) (d # v) then 0 else 1)"
    by (rule Cons.IH) (use Cons.prems in \<open>simp add: spells_Cons [of _ _ _ _ c] add.assoc\<close>)
  moreover have "p + (jj + step w) < e" using Cons.prems by (simp add: spells_Cons add.assoc)
  ultimately show ?case
    using Cons.prems by (subst trailing_loop.simps) (simp add: spells_Cons [of _ _ _ _ c])
qed

subsection \<open>The comparison with 2 to the 63\<close>

lemma dec_append: "dec (as @ bs) = dec as * 10 ^ length bs + dec bs"
  by (induction as) (simp_all add: algebra_simps power_add)

text \<open>The difference of the first pair of digits that differ.\<close>

fun first_diff :: "string \<Rightarrow> string \<Rightarrow> int" where
  "first_diff (a # as) (b # bs) = (if a = b then first_diff as bs else of_char a - of_char b)"
| "first_diff _ _ = 0"

lemma first_diff_sgn:
  "length as = length bs \<Longrightarrow> list_all isdigit as \<Longrightarrow> list_all isdigit bs \<Longrightarrow>
     sgn (first_diff as bs) = sgn (int (dec as) - int (dec bs))"
proof (induction as bs rule: list_induct2)
  case (Cons a as b bs)
  show ?case
  proof (cases "a = b")
    case False
    have b: "dec as < 10 ^ length bs" "dec bs < 10 ^ length bs" using dec_less [of as] dec_less [of bs] Cons by auto
    have d: "(of_char a :: int) - of_char b = int (digit_of a) - int (digit_of b)"
      using Cons.prems by (auto simp: digit_of_def isdigit_code of_char_nat_int [of a] of_char_nat_int [of b])
    have "(of_char a :: int) \<noteq> of_char b" using False by simp
    then consider "digit_of a < digit_of b" | "digit_of b < digit_of a" using d by linarith
    then show ?thesis
    proof cases
      case 1
      then have "Suc (digit_of a) * 10 ^ length bs \<le> digit_of b * 10 ^ length bs" by (intro mult_le_mono1) simp
      with b have "dec (a # as) < dec (b # bs)" using Cons.hyps by simp
      with 1 d False show ?thesis by (simp del: dec_simps)
    next
      case 2
      then have "Suc (digit_of b) * 10 ^ length bs \<le> digit_of a * 10 ^ length bs" by (intro mult_le_mono1) simp
      with b have "dec (b # bs) < dec (a # as)" using Cons.hyps by simp
      with 2 d False show ?thesis by (simp del: dec_simps)
    qed
  qed (use Cons in simp)
qed simp

lemma pow63_digits: "length pow63 = 18" "list_all isdigit (pow63 @ ''8'')" "dec (pow63 @ ''8'') = 2 ^ 63"
  by (simp_all add: pow63_def isdigit_code digit_of_def)

lemma compare_loop_spells:
  assumes "\<And>j. j < 18 \<Longrightarrow> ch z (p + j * incr) = of_char (ds ! j)" "length ds = 18" "i \<le> 18"
  shows "compare_loop z p incr i 0 = 10 * first_diff (drop i ds) (drop i pow63)"
  using assms(3)
proof (induction "18 - i" arbitrary: i)
  case 0
  then show ?case using assms(2) pow63_digits(1) by (subst compare_loop.simps) simp
next
  case (Suc k)
  then have i: "i < 18" by simp
  have stop: "c \<noteq> 0 \<Longrightarrow> compare_loop z p incr j c = c" for j c by (subst compare_loop.simps) simp
  have d: "drop i ds = ds ! i # drop (Suc i) ds" "drop i pow63 = pow63 ! i # drop (Suc i) pow63"
    using i assms(2) pow63_digits(1) by (simp_all add: Cons_nth_drop_Suc)
  have "ch pow63 i = of_char (pow63 ! i)" using i pow63_digits(1) by (simp add: ch_def)
  then have "compare_loop z p incr i 0 = compare_loop z p incr (i + 1) ((of_char (ds ! i) - of_char (pow63 ! i)) * 10)"
    using assms(1) i by (subst compare_loop.simps) simp
  also have "\<dots> = 10 * first_diff (drop i ds) (drop i pow63)"
  proof (cases "ds ! i = pow63 ! i")
    case True
    with Suc i show ?thesis by (simp add: d)
  next
    case False
    then have "(of_char (ds ! i) - of_char (pow63 ! i)) * 10 \<noteq> (0 :: int)" by simp
    with False show ?thesis by (simp add: stop d)
  qed
  finally show ?case .
qed

lemma first_diff_snoc:
  "length as = length bs \<Longrightarrow> first_diff (as @ [a]) (bs @ [b]) =
     (if first_diff as bs \<noteq> 0 then first_diff as bs else of_char a - of_char b)"
  by (induction as bs rule: list_induct2) auto

lemma compare2pow63_sgn:
  assumes "spells z w e p (ds @ v)" "length ds = 19" "list_all isdigit ds"
  shows "sgn (compare2pow63 z p (step w)) = sgn (int (dec ds) - 2 ^ 63)"
proof -
  obtain es d where ds: "ds = es @ [d]" "length es = 18" using assms(2)
    by (metis append_butlast_last_id diff_Suc_1 eval_nat_numeral(3) length_butlast length_0_conv nat.simps(3))
  have c: "ch z (p + j * step w) = of_char (ds ! j)" if "j < 19" for j
    using assms(1,2) that by (simp add: spells_def nth_append)
  have "compare_loop z p (step w) 0 0 = 10 * first_diff es pow63"
    using compare_loop_spells [of z p "step w" es 0] c ds by (simp add: nth_append)
  moreover have "ch z (p + 18 * step w) = of_char d" using c [of 18] ds by (simp add: nth_append)
  ultimately have "sgn (compare2pow63 z p (step w)) = sgn (first_diff ds (pow63 @ ''8''))"
    using ds pow63_digits(1) by (simp add: compare2pow63_def first_diff_snoc sgn_mult)
  also have "\<dots> = sgn (int (dec ds) - int (dec (pow63 @ ''8'')))"
    using assms pow63_digits by (intro first_diff_sgn) simp_all
  finally show ?thesis by (simp only: pow63_digits) simp
qed

lemma dec_ge: "list_all isdigit ds \<Longrightarrow> ds \<noteq> [] \<Longrightarrow> hd ds \<noteq> CHR ''0'' \<Longrightarrow> 10 ^ (length ds - 1) \<le> dec ds"
proof (cases ds)
  case (Cons d ds')
  assume a: "list_all isdigit ds" "hd ds \<noteq> CHR ''0''"
  then have "(of_char d :: nat) \<noteq> 48" using Cons of_char_eq_iff [of d "CHR ''0''", where ?'a = nat] by simp
  then have "1 \<le> digit_of d" using a Cons by (auto simp: isdigit_code digit_of_def)
  then have "1 * 10 ^ length ds' \<le> digit_of d * 10 ^ length ds'" by (rule mult_le_mono1)
  then have "10 ^ length ds' \<le> digit_of d * 10 ^ length ds' + dec ds'" by linarith
  then show ?thesis using Cons by simp
qed simp

lemma dec_zeros: "list_all (\<lambda>c. c = CHR ''0'') zs \<Longrightarrow> dec (zs @ ds) = dec ds"
  by (induction zs) (simp_all add: digit_of_def)

subsection \<open>Reading a decimal integer\<close>

text \<open>What the conversion of \<open>ws sg ds tail\<close> is to be: the value, or the nearest 64-bit
  integer with the code for an overflow.\<close>

definition signed_value :: "string \<Rightarrow> string \<Rightarrow> int" where
  "signed_value sg ds = (if sg = ''-'' then - int (dec ds) else int (dec ds))"

definition atoi64_spec :: "int \<Rightarrow> int \<Rightarrow> int \<times> int" where
  "atoi64_spec v rc =
     (if in_i64 v then (v, rc)
      else (if v < 0 then SMALLEST_INT64 else LARGEST_INT64, if v = 2 ^ 63 then 3 else 2))"

definition tail_code :: "bool \<Rightarrow> string \<Rightarrow> int" where
  "tail_code nonNum tail =
     (if nonNum then 1 else if list_all (\<lambda>c. sqlite3Isspace (of_char c)) tail then 0 else 1)"

text \<open>The end of the function: the digits \<open>ds\<close> are stripped of leading zeros.\<close>

lemma atoi64_finish:
  assumes "spells z w e p (ds @ tail)" "list_all isdigit ds" "ds = [] \<or> hd ds \<noteq> CHR ''0''"
    and "neg \<longleftrightarrow> sg = ''-''"
  shows "(let i = length ds * step w; u = dec ds mod 2 ^ 64;
      num = (if int u > LARGEST_INT64 then (if neg then SMALLEST_INT64 else LARGEST_INT64)
                 else if neg then - int u else int u)
     in if i < 19 * step w then (num, rc)
      else
      let c = (if i > 19 * step w then 1 else compare2pow63 z p (step w)) in
      if c < 0 then (num, rc)
      else (if neg then SMALLEST_INT64 else LARGEST_INT64,
            if c > 0 then 2 else if neg then rc else 3)) = atoi64_spec (signed_value sg ds) rc"
proof -
  note lims = atoi64_spec_def signed_value_def in_i64_def SMALLEST_INT64_def LARGEST_INT64_def
  consider "length ds < 19" | "length ds = 19" | "19 < length ds" by linarith
  then show ?thesis
  proof cases
    case 1
    have "dec ds < 10 ^ length ds" by (rule dec_less) fact
    also have "\<dots> \<le> 10 ^ 18" using 1 by (intro power_increasing) simp_all
    finally have "dec ds < 10 ^ 18" .
    with 1 assms(4) show ?thesis by (auto simp: lims)
  next
    case 2
    define c where "c = compare2pow63 z p (step w)"
    have s: "sgn c = sgn (int (dec ds) - 2 ^ 63)"
      unfolding c_def by (rule compare2pow63_sgn [OF assms(1) 2 assms(2)])
    consider "c < 0" "dec ds < 2 ^ 63" | "c = 0" "dec ds = 2 ^ 63" | "c > 0" "dec ds > 2 ^ 63"
      using s by (cases c "0 :: int" rule: linorder_cases) (auto simp: sgn_if split: if_splits)
    then show ?thesis
      using 2 assms(4) by cases (auto simp: lims c_def [symmetric])
  next
    case 3
    have "10 ^ 19 \<le> (10 :: nat) ^ (length ds - 1)" using 3 by (intro power_increasing) simp_all
    also have "\<dots> \<le> dec ds" using 3 assms by (intro dec_ge) auto
    finally have "10 ^ 19 \<le> dec ds" .
    with 3 assms(4) show ?thesis by (auto simp: lims)
  qed
qed

lemma atoi64_body_decimal:
  assumes sp: "spells z w e p (ws @ sg @ ds @ tail)"
    and ws: "\<forall>c \<in> set ws. sqlite3Isspace (of_char c)" and sg: "sg \<in> {[], ''-'', ''+''}"
    and ds: "list_all isdigit ds" "ds \<noteq> []" and tail: "tail = [] \<or> \<not> isdigit (hd tail)"
  shows "atoi64_body z w p e nonNum = atoi64_spec (signed_value sg ds) (tail_code nonNum tail)"
proof -
  define p1 where "p1 = p + length ws * step w"
  define p2 where "p2 = p1 + length sg * step w"
  define zs where "zs = takeWhile (\<lambda>c. c = CHR ''0'') ds"
  define ds' where "ds' = dropWhile (\<lambda>c. c = CHR ''0'') ds"
  define p3 where "p3 = p2 + length zs * step w"
  have split: "ds = zs @ ds'" by (simp add: zs_def ds'_def)
  have d0: "isdigit (hd ds)" using ds by (cases ds) auto
  have nospace: "\<not> sqlite3Isspace (of_char (hd (sg @ ds @ tail)))"
    using sg d0 ds(2) by (auto simp: ctype_facts isdigit_int)
  have 1: "skip_while sqlite3Isspace z w e p = p1" "spells z w e p1 (sg @ ds @ tail)"
    using skip_while_spells [OF sp ws] nospace by (auto simp: p1_def)
  have 2: "spells z w e p2 (ds @ tail)"
    using 1(2) sg by (auto simp: p2_def spells_Cons)
  have h: "of_char (hd ds) \<noteq> (45 :: int)" "of_char (hd ds) \<noteq> (43 :: int)" using d0 by (auto simp: isdigit_int)
  have neg: "(p1 < e \<and> ch z p1 = of_char (CHR ''-'')) \<longleftrightarrow> sg = ''-''"
    and pos: "(if p1 < e \<and> (ch z p1 = of_char (CHR ''-'') \<or> ch z p1 = of_char (CHR ''+''))
               then p1 + step w else p1) = p2"
    using 1(2) sg h ds(2) by (cases ds; auto simp: spells_Cons p2_def)+
  have hd': "ds' = [] \<or> hd ds' \<noteq> CHR ''0''"
    using hd_dropWhile [of "\<lambda>c. c = CHR ''0''" ds] by (auto simp: ds'_def)
  have "ds' @ tail = [] \<or> hd (ds' @ tail) \<noteq> CHR ''0''"
    using hd' tail by (cases ds') (auto simp: isdigit_code)
  then have stop: "ds' @ tail = [] \<or> \<not> (of_char (hd (ds' @ tail)) :: int) = of_char (CHR ''0'')"
    by (simp only: of_char_eq_iff)
  have "\<forall>c \<in> set zs. (of_char c :: int) = of_char (CHR ''0'')"
    by (auto simp: zs_def dest: set_takeWhileD)
  moreover have "spells z w e p2 (zs @ ds' @ tail)" using 2 unfolding split by simp
  ultimately have 3: "skip_while (\<lambda>c. c = of_char (CHR ''0'')) z w e p2 = p3" "spells z w e p3 (ds' @ tail)"
    using skip_while_spells [of z w e p2 zs "ds' @ tail" "\<lambda>c. c = of_char (CHR ''0'')", OF _ _ stop]
    unfolding p3_def by blast+
  have dd: "list_all isdigit ds'" using ds(1) unfolding split by simp
  have 4: "digit_loop z w e p3 0 0 = (length ds' * step w, dec ds' mod 2 ^ 64)"
      "spells z w e (p3 + length ds' * step w) tail"
    using digit_loop_spells [of z w e p3 0 ds' tail 0] 3(2) dd tail by simp_all
  have some: "\<not> (length ds' * step w = 0 \<and> p2 = p3)" using ds(2) step_pos [of w] unfolding split p3_def by auto
  have rc: "(if length ds' * step w = 0 \<and> p2 = p3 then - 1 else if nonNum then 1
      else if p3 + length ds' * step w < e then trailing_loop z w e p3 (length ds' * step w) 0 else 0) =
      tail_code nonNum tail"
  proof -
    have "(if p3 + length ds' * step w < e then trailing_loop z w e p3 (length ds' * step w) 0 else 0) =
        tail_code False tail"
    proof (cases tail)
      case Nil
      with 4(2) show ?thesis by (simp add: spells_Nil tail_code_def)
    next
      case (Cons c v)
      with 4(2) have "p3 + length ds' * step w < e" by (simp add: spells_Cons)
      with trailing_spells [OF 4(2) [unfolded Cons]] show ?thesis by (simp add: tail_code_def Cons)
    qed
    then show ?thesis unfolding if_not_P [OF some] by (simp add: tail_code_def)
  qed
  have dz: "dec ds' = dec ds"   proof -
    have "list_all (\<lambda>c. c = CHR ''0'') zs" by (auto simp: zs_def list_all_iff dest: set_takeWhileD)
    then show ?thesis unfolding split by (rule dec_zeros [symmetric])
  qed
  have sv: "signed_value sg ds' = signed_value sg ds" by (simp add: signed_value_def dz)
  show ?thesis
    unfolding atoi64_body_def Let_def 1(1) neg pos 3(1) 4(1) prod.case rc
    by (rule atoi64_finish [OF 3(2) dd hd' refl, of sg "tail_code nonNum tail", unfolded Let_def sv])
qed

text \<open>The text in UTF-16: every character as two bytes, the low one first or last.\<close>

definition utf16 :: "bool \<Rightarrow> string \<Rightarrow> string" where
  "utf16 big z = concat (map (\<lambda>c. if big then [CHR 0x00, c] else [c, CHR 0x00]) z)"

lemma ch_utf16:
  "ch (utf16 big z) (2 * i + (if big then 1 else 0)) = ch z i"
  "ch (utf16 big z) (2 * i + (if big then 0 else 1)) = 0"
proof -
  have "ch (utf16 big z) (2 * i + (if big then 1 else 0)) = ch z i \<and>
      ch (utf16 big z) (2 * i + (if big then 0 else 1)) = 0"
  proof (induction z arbitrary: i)
    case (Cons c z)
    then show ?case by (cases i) (auto simp: utf16_def)
  qed (simp add: utf16_def)
  then show "ch (utf16 big z) (2 * i + (if big then 1 else 0)) = ch z i"
    "ch (utf16 big z) (2 * i + (if big then 0 else 1)) = 0" by blast+
qed

lemma length_utf16 [simp]: "length (utf16 big z) = 2 * length z"
  by (induction z) (simp_all add: utf16_def)

lemma ch_nth: "i < length z \<Longrightarrow> ch z i = of_char (z ! i)"
  by (simp add: ch_def)

lemma high_loop_utf16:
  "i \<le> length z \<Longrightarrow> high_loop (utf16 big z) (2 * length z) (2 * i + (if big then 0 else 1)) =
     2 * length z + (if big then 0 else 1)"
proof (induction "length z - i" arbitrary: i)
  case 0
  then show ?case by (subst high_loop.simps) simp
next
  case (Suc k)
  then have "high_loop (utf16 big z) (2 * length z) (2 * i + (if big then 0 else 1)) =
      high_loop (utf16 big z) (2 * length z) (2 * Suc i + (if big then 0 else 1))"
    using ch_utf16(2) [of big z i] Suc.hyps(2) by (subst high_loop.simps) auto
  also have "\<dots> = 2 * length z + (if big then 0 else 1)" using Suc.hyps(2) by (intro Suc.hyps(1)) simp_all
  finally show ?case .
qed

text \<open>Where the conversions start and stop in a text of ASCII characters in UTF-16.\<close>

lemma utf16_text:
  "high_loop (utf16 False z) (2 * length z) (Suc 0) = 2 * length z + 1"
  "(2 * length z + 1) XOR 1 = 2 * length z"
  "spells (utf16 False z) True (2 * length z) 0 z"
  "high_loop (utf16 True z) (2 * length z) 0 = 2 * length z"
  "(2 * length z) XOR 1 = 2 * length z + 1"
  "spells (utf16 True z) True (2 * length z + 1) 1 z"
  using high_loop_utf16 [of 0 z False] high_loop_utf16 [of 0 z True] xor_one_eq [of "2 * length z + 1"]
    xor_one_eq [of "2 * length z"] ch_utf16(1) [of False z] ch_utf16(1) [of True z]
  by (simp_all add: spells_def step_def mult.commute ch_nth)

text \<open>C26: the conversion of white space, an optional sign, decimal digits and anything that
  does not start with a digit yields exactly the number, with code 0 or, after trailing
  text other than white space, 1, if it fits in 64 bits; otherwise the nearest 64-bit
  integer with code 3 for 2 to the 63 and 2 for everything else, although the accumulator
  has wrapped. The same text in either UTF-16 encoding gives the same result.\<close>

theorem Atoi64_decimal:
  assumes "\<forall>c \<in> set ws. sqlite3Isspace (of_char c)" "sg \<in> {[], ''-'', ''+''}"
    and "list_all isdigit ds" "ds \<noteq> []" "tail = [] \<or> \<not> isdigit (hd tail)"
  defines "z \<equiv> ws @ sg @ ds @ tail"
  shows "sqlite3Atoi64 z (length z) SQLITE_UTF8 = atoi64_spec (signed_value sg ds) (tail_code False tail) \<and>
    sqlite3Atoi64 (utf16 False z) (2 * length z) SQLITE_UTF16LE = sqlite3Atoi64 z (length z) SQLITE_UTF8 \<and>
    sqlite3Atoi64 (utf16 True z) (2 * length z) SQLITE_UTF16BE = sqlite3Atoi64 z (length z) SQLITE_UTF8"
proof -
  have u8: "sqlite3Atoi64 z (length z) SQLITE_UTF8 = atoi64_spec (signed_value sg ds) (tail_code False tail)"
    using atoi64_body_decimal [of z False "length z" 0 ws sg ds tail False] spells_narrow [of z] assms
    by (simp add: sqlite3Atoi64_def z_def)
  have le: "sqlite3Atoi64 (utf16 False z) (2 * length z) SQLITE_UTF16LE = atoi64_spec (signed_value sg ds) (tail_code False tail)"
    using atoi64_body_decimal [OF _ assms(1-5), of "utf16 False z" True "2 * length z" 0 False]
      utf16_text(1-3) [of z] by (simp add: sqlite3Atoi64_def SQLITE_UTF8_def SQLITE_UTF16LE_def z_def)
  have be: "sqlite3Atoi64 (utf16 True z) (2 * length z) SQLITE_UTF16BE = atoi64_spec (signed_value sg ds) (tail_code False tail)"
    using atoi64_body_decimal [OF _ assms(1-5), of "utf16 True z" True "2 * length z + 1" 1 False]
      utf16_text(4-6) [of z] by (simp add: sqlite3Atoi64_def SQLITE_UTF8_def SQLITE_UTF16BE_def z_def)
  show ?thesis using u8 le be by simp
qed

theorem Atoi64_decimal_witness:
  "sqlite3Atoi64 '' -9223372036854775808 x'' (length '' -9223372036854775808 x'') SQLITE_UTF8 = (SMALLEST_INT64, 1) \<and>
   sqlite3Atoi64 ''9223372036854775808'' (length ''9223372036854775808'') SQLITE_UTF8 = (LARGEST_INT64, 3) \<and>
   sqlite3Atoi64 ''00018446744073709551617'' (length ''00018446744073709551617'') SQLITE_UTF8 = (LARGEST_INT64, 2)"
  using Atoi64_decimal [of "'' ''" "''-''" "''9223372036854775808''" "'' x''"]
    Atoi64_decimal [of "[]" "[]" "''9223372036854775808''" "[]"]
    Atoi64_decimal [of "[]" "[]" "''00018446744073709551617''" "[]"]
  by (simp add: isdigit_code ctype_facts signed_value_def tail_code_def atoi64_spec_def digit_of_def
      in_i64_def SMALLEST_INT64_def LARGEST_INT64_def)

subsection \<open>Literals and 32-bit integers\<close>

function hex_digits_loop :: "string \<Rightarrow> nat \<Rightarrow> u64 \<Rightarrow> nat \<times> u64" where
  "hex_digits_loop z k u =
     (if sqlite3Isxdigit (ch z k)
      then hex_digits_loop z (k + 1) (u * 16 + ucast (sqlite3HexToInt (ch z k)))
      else (k, u))"
  by pat_completeness auto
termination
proof (relation "measure (\<lambda>(z, k, u). length z - k)")
  fix z :: string and k :: nat and u :: u64
  assume "sqlite3Isxdigit (ch z k)"
  then have "k < length z" by (intro ch_nonzero) (auto simp: ctype_facts)
  then show "((z, k + 1, u * 16 + ucast (sqlite3HexToInt (ch z k))), z, k, u) \<in> measure (\<lambda>(z, k, u). length z - k)"
    by simp
qed simp

text \<open>The loop over the zeros after the prefix; it ends before the terminator.\<close>

function skip_zeros :: "string \<Rightarrow> nat \<Rightarrow> nat" where
  "skip_zeros z i = (if ch z i = of_char (CHR ''0'') then skip_zeros z (i + 1) else i)"
  by pat_completeness auto
termination
proof (relation "measure (\<lambda>(z, i). length z - i)")
  fix z :: string and i :: nat
  assume "ch z i = of_char (CHR ''0'')"
  then have "i < length z" by (intro ch_nonzero) simp
  then show "((z, i + 1), z, i) \<in> measure (\<lambda>(z, i). length z - i)" by simp
qed simp

declare hex_digits_loop.simps [simp del] skip_zeros.simps [simp del]

definition sqlite3DecOrHexToI64 :: "string \<Rightarrow> int \<times> int" where
  "sqlite3DecOrHexToI64 z =
     (if ch z 0 = of_char (CHR ''0'') \<and> (ch z 1 = of_char (CHR ''x'') \<or> ch z 1 = of_char (CHR ''X'')) then
        let i = skip_zeros z 2; (k, u) = hex_digits_loop z i 0
        in (sint u, if ch z k = 0 \<and> k - i \<le> 16 then 0 else 2)
      else sqlite3Atoi64 z (nat (sqlite3Strlen30 (Some z))) SQLITE_UTF8)"

function hex32_loop :: "string \<Rightarrow> nat \<Rightarrow> nat \<Rightarrow> u32 \<Rightarrow> nat \<times> u32" where
  "hex32_loop z p i u =
     (if sqlite3Isxdigit (ch z (p + i)) \<and> i < 8
      then hex32_loop z p (i + 1) (u * 16 + ucast (sqlite3HexToInt (ch z (p + i))))
      else (i, u))"
  by pat_completeness auto
termination by (relation "measure (\<lambda>(z, p, i, u). 8 - i)") auto

function dec11_loop :: "string \<Rightarrow> nat \<Rightarrow> nat \<Rightarrow> int \<Rightarrow> nat \<times> int" where
  "dec11_loop z p i v =
     (if i < 11 \<and> ch z (p + i) - 48 \<ge> 0 \<and> ch z (p + i) - 48 \<le> 9
      then dec11_loop z p (i + 1) (v * 10 + (ch z (p + i) - 48))
      else (i, v))"
  by pat_completeness auto
termination by (relation "measure (\<lambda>(z, p, i, v). 11 - i)") auto

declare hex32_loop.simps [simp del] dec11_loop.simps [simp del]

text \<open>\<open>Some v\<close> is the return value 1 with \<open>*pValue = v\<close>.\<close>

definition sqlite3GetInt32 :: "string \<Rightarrow> int option" where
  "sqlite3GetInt32 z =
     (let neg = (ch z 0 = of_char (CHR ''-''));
          signed = (neg \<or> ch z 0 = of_char (CHR ''+''));
          p = (if signed then 1 else 0)
      in
      if \<not> signed \<and> ch z 0 = of_char (CHR ''0'') \<and>
         (ch z 1 = of_char (CHR ''x'') \<or> ch z 1 = of_char (CHR ''X'')) \<and> sqlite3Isxdigit (ch z 2) then
        let p = skip_zeros z 2; (i, u) = hex32_loop z p 0 0
        in if u AND 0x80000000 = 0 \<and> \<not> sqlite3Isxdigit (ch z (p + i)) then Some (sint u) else None
      else if \<not> sqlite3Isdigit (ch z p) then None
      else
      let p = skip_zeros z p; (i, v) = dec11_loop z p 0 0 in
      if i > 10 then None
      else if v - (if neg then 1 else 0) > 2147483647 then None
      else Some (if neg then - v else v))"

definition sqlite3Atoi :: "string option \<Rightarrow> int" where
  "sqlite3Atoi z =
     (case z of None \<Rightarrow> 0 | Some z \<Rightarrow> (case sqlite3GetInt32 z of None \<Rightarrow> 0 | Some v \<Rightarrow> v))"

lemma skip_zeros_while: "skip_zeros z p = skip_while (\<lambda>c. c = of_char (CHR ''0'')) z False (length z) p"
proof (induction z p rule: skip_zeros.induct)
  case (1 z p)
  have "ch z p = of_char (CHR ''0'') \<Longrightarrow> p < length z" by (intro ch_nonzero) simp
  with 1 show ?case
    by (subst skip_zeros.simps, subst skip_while.simps) (simp add: step_def)
qed

lemma dec11_loop_spells:
  assumes "spells z False (length z) (p + i) (ds @ tail)" "list_all isdigit ds"
    and "tail = [] \<or> \<not> isdigit (hd tail)" "i \<le> 11"
  shows "dec11_loop z p i v =
    (i + min (11 - i) (length ds), v * 10 ^ min (11 - i) (length ds) + int (dec (take (11 - i) ds)))"
  using assms
proof (induction ds arbitrary: i v)
  case Nil
  have "ch z (p + i) = 0 \<or> tail \<noteq> []" using Nil by (cases tail) (auto simp: spells_Nil ch_def)
  then show ?case
    using Nil by (cases tail) (auto simp: dec11_loop.simps [of z p i] spells_Cons isdigit_int)
next
  case (Cons c ds)
  show ?case
  proof (cases "i = 11")
    case True
    then show ?thesis by (subst dec11_loop.simps) simp
  next
    case False
    then have i: "i < 11" "11 - i = Suc (11 - Suc i)" using Cons.prems by simp_all
    have c: "ch z (p + i) - 48 = int (digit_of c)" "digit_of c < 10"
      using Cons.prems by (auto simp: spells_Cons digit_of_def isdigit_code of_char_nat_int [of c])
    have "dec11_loop z p i v = dec11_loop z p (i + 1) (v * 10 + int (digit_of c))"
      using c i by (subst dec11_loop.simps) simp
    also have "\<dots> = (i + 1 + min (11 - (i + 1)) (length ds),
        (v * 10 + int (digit_of c)) * 10 ^ min (11 - (i + 1)) (length ds) + int (dec (take (11 - (i + 1)) ds)))"
      using Cons.prems i by (intro Cons.IH) (simp_all add: spells_Cons step_def)
    finally show ?thesis using i by (simp add: algebra_simps min_def)
  qed
qed

text \<open>The number the conversion of such a text computes from the digits after the leading
  zeros, of which it reads eleven at most.\<close>

lemma GetInt32_reads:
  assumes "sg \<in> {[], ''-'', ''+''}" "list_all isdigit ds" "ds \<noteq> []"
    and "tail = [] \<or> \<not> isdigit (hd tail) \<and> hd tail \<noteq> CHR ''x'' \<and> hd tail \<noteq> CHR ''X''"
    and ds'_def: "ds' = dropWhile (\<lambda>c. c = CHR ''0'') ds"
  shows "sqlite3GetInt32 (sg @ ds @ tail) =
      (if min 11 (length ds') > 10 then None
       else if int (dec (take 11 ds')) - (if sg = ''-'' then 1 else 0) > 2147483647 then None
       else Some (if sg = ''-'' then - int (dec (take 11 ds')) else int (dec (take 11 ds'))))"
proof -
  define z where "z = sg @ ds @ tail"
  obtain d ds1 where d: "ds = d # ds1" "isdigit d" using assms(2,3) by (cases ds) auto
  define zs where "zs = takeWhile (\<lambda>c. c = CHR ''0'') ds"
  have split: "ds = zs @ ds'" by (simp add: zs_def ds'_def)
  have sp: "spells z False (length z) (length sg) (ds @ tail)"
    using spells_narrow [of z] assms(1) by (auto simp: z_def spells_Cons step_def)
  have dc: "48 \<le> (of_char d :: int)" "(of_char d :: int) \<le> 57" using d(2) by (simp_all add: isdigit_int)
  have z0: "ch z 0 = of_char (hd (sg @ ds))" using d by (cases sg) (simp_all add: z_def)
  have signs: "(ch z 0 = of_char (CHR ''-'')) = (sg = ''-'')" "(ch z 0 = of_char (CHR ''+'')) = (sg = ''+'')"
    using z0 assms(1) dc d(1) by auto
  have notx: "\<not> (ch z 1 = of_char (CHR ''x'') \<or> ch z 1 = of_char (CHR ''X''))" if "sg = []"
  proof (cases "ds1 @ tail")
    case Nil
    then show ?thesis using that d by (simp add: z_def)
  next
    case (Cons c rest)
    have "c \<noteq> CHR ''x''" "c \<noteq> CHR ''X''"
      using Cons assms(2,4) d(1) by (cases ds1; auto simp: isdigit_code)+
    moreover have "ch z 1 = of_char c" using that d Cons by (simp add: z_def)
    ultimately show ?thesis by (simp only: of_char_eq_iff simp_thms)
  qed
  have digit: "sqlite3Isdigit (ch z (length sg))"
    using sp d dc by (simp add: spells_Cons ctype_facts)
  have p: "(if sg = ''-'' \<or> sg = ''+'' then 1 else 0) = length sg" using assms(1) by auto
  have stop: "ds' @ tail = [] \<or> \<not> (of_char (hd (ds' @ tail)) :: int) = of_char (CHR ''0'')"
    using hd_dropWhile [of "\<lambda>c. c = CHR ''0''" ds] assms(4) unfolding of_char_eq_iff
    by (cases ds') (auto simp: ds'_def [symmetric] isdigit_code)
  have zz: "\<forall>c \<in> set zs. (of_char c :: int) = of_char (CHR ''0'')"
    by (auto simp: zs_def dest: set_takeWhileD)
  define p3 where "p3 = length sg + length zs"
  have 3: "skip_zeros z (length sg) = p3" "spells z False (length z) p3 (ds' @ tail)"
    using skip_while_spells [of z False "length z" "length sg" zs "ds' @ tail" "\<lambda>c. c = of_char (CHR ''0'')", OF _ zz stop] sp
    unfolding skip_zeros_while p3_def split by (simp_all add: step_def)
  have dd: "list_all isdigit ds'" using assms(2) unfolding split by simp
  have 4: "dec11_loop z p3 0 0 = (min 11 (length ds'), int (dec (take 11 ds')))"
    using dec11_loop_spells [of z p3 0 ds' tail 0] 3(2) dd assms(4) by auto
  have nohex: "\<not> (\<not> (sg = ''-'' \<or> sg = ''+'') \<and> ch z 0 = of_char (CHR ''0'') \<and>
      (ch z 1 = of_char (CHR ''x'') \<or> ch z 1 = of_char (CHR ''X'')) \<and> sqlite3Isxdigit (ch z 2))"
    using notx assms(1) by blast
  have "\<not> \<not> sqlite3Isdigit (ch z (length sg))" using digit by blast
  then show ?thesis unfolding z_def [symmetric]
    unfolding sqlite3GetInt32_def Let_def signs if_not_P [OF nohex] p 3(1) 4 prod.case
    by (simp only: if_False)
qed

lemma dec_leading_zeros: "dec (dropWhile (\<lambda>c. c = CHR ''0'') ds) = dec ds"
proof -
  have "list_all (\<lambda>c. c = CHR ''0'') (takeWhile (\<lambda>c. c = CHR ''0'') ds)"
    by (auto simp: list_all_iff dest: set_takeWhileD)
  from dec_zeros [OF this, of "dropWhile (\<lambda>c. c = CHR ''0'') ds"] show ?thesis by simp
qed

text \<open>A decimal text of any length, with an optional sign and followed by anything that
  is not a digit (nor the x of a hexadecimal literal), converts to its value exactly when
  that is a 32-bit integer.\<close>

theorem GetInt32_decimal:
  assumes "sg \<in> {[], ''-'', ''+''}" "list_all isdigit ds" "ds \<noteq> []"
    and "tail = [] \<or> \<not> isdigit (hd tail) \<and> hd tail \<noteq> CHR ''x'' \<and> hd tail \<noteq> CHR ''X''"
  shows "sqlite3GetInt32 (sg @ ds @ tail) =
    (if - (2 ^ 31) \<le> signed_value sg ds \<and> signed_value sg ds < 2 ^ 31 then Some (signed_value sg ds) else None)"
proof -
  define ds' where "ds' = dropWhile (\<lambda>c. c = CHR ''0'') ds"
  have dz: "dec ds' = dec ds" unfolding ds'_def by (rule dec_leading_zeros)
  have dd: "list_all isdigit ds'" using assms(2) by (auto simp: ds'_def list_all_iff dest: set_dropWhileD)
  note get = GetInt32_reads [OF assms ds'_def]
  show ?thesis
  proof (cases "length ds' \<le> 10")
    case True
    then have "take 11 ds' = ds'" "\<not> min 11 (length ds') > 10" by simp_all
    then show ?thesis unfolding get by (auto simp: signed_value_def dz)
  next
    case False
    have "10 ^ 10 \<le> (10 :: nat) ^ (length ds' - 1)" using False by (intro power_increasing) simp_all
    also have "\<dots> \<le> dec ds'"
    proof (rule dec_ge [OF dd])
      show "ds' \<noteq> []" using False by auto
      then show "hd ds' \<noteq> CHR ''0''" using hd_dropWhile [of "\<lambda>c. c = CHR ''0''" ds] unfolding ds'_def by blast
    qed
    finally have "10000000000 \<le> dec ds" by (simp add: dz)
    moreover have "min 11 (length ds') > 10" using False by simp
    ultimately show ?thesis unfolding get by (simp add: signed_value_def)
  qed
qed

theorem GetInt32_decimal_witness:
  "sqlite3GetInt32 (''-'' @ ''0002147483648'' @ ''px'') = Some (- 2147483648) \<and>
   sqlite3GetInt32 ([] @ ''2147483648'' @ []) = None"
  using GetInt32_decimal [of "''-''" "''0002147483648''" "''px''"] GetInt32_decimal [of "[]" "''2147483648''" "[]"]
  by (simp add: isdigit_code signed_value_def digit_of_def)

end
