(* ===== verification/Sq_Complete.thy ===== *)
theory Sq_Complete
  imports Sq_Text
begin

text \<open>
  \<open>sqlite3_complete\<close> of \<^verbatim>\<open>src/sqlite3.c\<close> (complete.c): does a text end in
  a complete SQL statement? A scanner that only tells semicolons, white space with comments,
  five keywords and everything else apart drives a state machine of eight states. The
  pointer \<open>zSql\<close> is the rest of the text. The machine is shown to implement a
  specification by statements (\<open>complete_from\<close>).
\<close>

subsection \<open>The scanner\<close>

datatype token = tkSEMI | tkWS | tkOTHER | tkEXPLAIN | tkCREATE | tkTEMP | tkTRIGGER | tkEND

text \<open>The last character of a token (the loop then moves one on), or a text that ends inside
  a quoted token or a comment (return 0), or inside a line comment (return the state).\<close>

datatype scan = Token token string | Open_Token | Line_Comment_End

function skip_until :: "int \<Rightarrow> string \<Rightarrow> string" where
  "skip_until c z = (if cur z \<noteq> 0 \<and> cur z \<noteq> c then skip_until c (tl z) else z)"
  by pat_completeness auto
termination by (relation "measure (\<lambda>(c, z). length z)") (auto simp: cur_def dest: ch_nonzero)

function skip_comment :: "string \<Rightarrow> string" where
  "skip_comment z =
     (if ch z 0 \<noteq> 0 \<and> (ch z 0 \<noteq> of_char (CHR ''*'') \<or> ch z 1 \<noteq> of_char (CHR ''/''))
      then skip_comment (tl z) else z)"
  by pat_completeness auto
termination by (relation "measure length") (auto dest: ch_nonzero)

function ident_length :: "string \<Rightarrow> nat \<Rightarrow> nat" where
  "ident_length z n = (if IdChar (ch z n) then ident_length z (n + 1) else n)"
  by pat_completeness auto
termination
proof (relation "measure (\<lambda>(z, n). length z - n)")
  fix z :: string and n :: nat
  assume "IdChar (ch z n)"
  then have "n < length z" by (intro ch_nonzero) (auto simp: ctype_facts)
  then show "((z, n + 1), z, n) \<in> measure (\<lambda>(z, n). length z - n)" by simp
qed simp

declare skip_until.simps [simp del] skip_comment.simps [simp del] ident_length.simps [simp del]

text \<open>The keyword an identifier of length \<open>nId\<close> at the start of \<open>z\<close> is.\<close>

definition keyword_token :: "string \<Rightarrow> nat \<Rightarrow> token" where
  "keyword_token z nId =
     (let c = cur z; is = (\<lambda>kw. nId = length kw \<and> sqlite3_strnicmp (Some z) (Some kw) (int (length kw)) = 0)
      in
      if c = of_char (CHR ''c'') \<or> c = of_char (CHR ''C'') then
        if is ''create'' then tkCREATE else tkOTHER
      else if c = of_char (CHR ''t'') \<or> c = of_char (CHR ''T'') then
        if is ''trigger'' then tkTRIGGER
        else if is ''temp'' then tkTEMP
        else if is ''temporary'' then tkTEMP
        else tkOTHER
      else if c = of_char (CHR ''e'') \<or> c = of_char (CHR ''E'') then
        if is ''end'' then tkEND else if is ''explain'' then tkEXPLAIN else tkOTHER
      else tkOTHER)"

definition scan_token :: "string \<Rightarrow> scan" where
  "scan_token z =
     (let c = cur z in
      if c = of_char (CHR '';'') then Token tkSEMI z
      else if c \<in> {32, 13, 9, 10, 12} then Token tkWS z
      else if c = of_char (CHR ''/'') then
        if ch z 1 \<noteq> of_char (CHR ''*'') then Token tkOTHER z
        else
        let r = skip_comment (drop 2 z)
        in if ch r 0 = 0 then Open_Token else Token tkWS (tl r)
      else if c = of_char (CHR ''-'') then
        if ch z 1 \<noteq> of_char (CHR ''-'') then Token tkOTHER z
        else
        let r = skip_until 10 z
        in if cur r = 0 then Line_Comment_End else Token tkWS r
      else if c = of_char (CHR ''['') then
        let r = skip_until (of_char (CHR '']'')) (tl z)
        in if cur r = 0 then Open_Token else Token tkOTHER r
      else if c \<in> {96, 34, 39} then
        let r = skip_until c (tl z)
        in if cur r = 0 then Open_Token else Token tkOTHER r
      else if IdChar c then
        let nId = ident_length z 1 in Token (keyword_token z nId) (drop (nId - 1) z)
      else Token tkOTHER z)"

lemma length_skip_until: "length (skip_until c z) \<le> length z"
proof (induction c z rule: skip_until.induct)
  case (1 c z)
  then show ?case by (subst skip_until.simps) (auto intro: le_trans)
qed

lemma length_skip_comment: "length (skip_comment z) \<le> length z"
proof (induction z rule: skip_comment.induct)
  case (1 z)
  then show ?case by (subst skip_comment.simps) (auto intro: le_trans)
qed

lemma scan_token_shorter:
  assumes "cur z \<noteq> 0" "scan_token z = Token t r"
  shows "length (tl r) < length z"
proof -
  have z: "0 < length z" using assms(1) by (cases z) auto
  have 1: "length (skip_comment (drop 2 z)) \<le> length z" "\<And>c. length (skip_until c (tl z)) \<le> length z"
    "\<And>c. length (skip_until c z) \<le> length z"
    using length_skip_comment [of "drop 2 z"] length_skip_until [of _ "tl z"] length_skip_until [of _ z]
    by (simp_all add: le_diff_conv) (meson diff_le_self le_trans)+
  have "length r \<le> length z \<or> length (tl r) < length z"
    using assms(2) 1 z unfolding scan_token_def Let_def
    by (auto split: if_splits intro: le_trans [OF _ 1(1)] simp: less_eq_Suc_le)
  then show ?thesis using z by (cases r) auto
qed

subsection \<open>The state machine\<close>

definition trans :: "nat list list" where
  "trans =
     [[1, 0, 2, 3, 4, 2, 2, 2],
      [1, 1, 2, 3, 4, 2, 2, 2],
      [1, 2, 2, 2, 2, 2, 2, 2],
      [1, 3, 3, 2, 4, 2, 2, 2],
      [1, 4, 2, 2, 2, 4, 5, 2],
      [6, 5, 5, 5, 5, 5, 5, 5],
      [6, 6, 5, 5, 5, 5, 5, 7],
      [1, 7, 5, 5, 5, 5, 5, 5]]"

fun token_code :: "token \<Rightarrow> nat" where
  "token_code tkSEMI = 0" | "token_code tkWS = 1" | "token_code tkOTHER = 2" | "token_code tkEXPLAIN = 3"
| "token_code tkCREATE = 4" | "token_code tkTEMP = 5" | "token_code tkTRIGGER = 6" | "token_code tkEND = 7"

function complete_loop :: "nat \<Rightarrow> string \<Rightarrow> bool" where
  "complete_loop state z =
     (if cur z = 0 then state = 1
      else case scan_token z of
        Open_Token \<Rightarrow> False
      | Line_Comment_End \<Rightarrow> state = 1
      | Token t r \<Rightarrow> complete_loop (trans ! state ! token_code t) (tl r))"
  by pat_completeness auto
termination by (relation "measure (\<lambda>(s, z). length z)") (auto dest: scan_token_shorter)

declare complete_loop.simps [simp del]

definition sqlite3_complete :: "string \<Rightarrow> bool" where
  "sqlite3_complete z = complete_loop 0 z"

subsection \<open>Specification by statements\<close>

text \<open>The tokens of a text without its white space: \<open>None\<close> when it ends in an open
  quote or comment. A line comment at the very end is white space.\<close>

function tokens :: "string \<Rightarrow> token list option" where
  "tokens z =
     (if cur z = 0 then Some []
      else case scan_token z of
        Open_Token \<Rightarrow> None
      | Line_Comment_End \<Rightarrow> Some []
      | Token t r \<Rightarrow> map_option (\<lambda>ts. if t = tkWS then ts else t # ts) (tokens (tl r)))"
  by pat_completeness auto
termination by (relation "measure length") (auto dest: scan_token_shorter)

declare tokens.simps [simp del]

fun after_semi :: "token list \<Rightarrow> token list option" where
  "after_semi [] = None"
| "after_semi (t # ts) = (if t = tkSEMI then Some ts else after_semi ts)"

text \<open>What follows \<open>CREATE [TEMP ...] TRIGGER\<close>, possibly after \<open>EXPLAIN\<close> and other tokens.\<close>

fun after_trigger :: "token list \<Rightarrow> token list option" where
  "after_trigger (tkTEMP # ts) = after_trigger ts"
| "after_trigger (tkTRIGGER # ts) = Some ts"
| "after_trigger ts = None"

fun after_explain :: "token list \<Rightarrow> token list option" where
  "after_explain (tkOTHER # ts) = after_explain ts"
| "after_explain (tkCREATE # ts) = after_trigger ts"
| "after_explain ts = None"

fun after_header :: "token list \<Rightarrow> token list option" where
  "after_header (tkEXPLAIN # ts) = after_explain ts"
| "after_header (tkCREATE # ts) = after_trigger ts"
| "after_header ts = None"

text \<open>What follows the first \<open>; END ;\<close>.\<close>

fun after_body :: "token list \<Rightarrow> token list option" where
  "after_body [] = None"
| "after_body (t # ts) =
     (if t = tkSEMI \<and> take 2 ts = [tkEND, tkSEMI] then Some (drop 2 ts) else after_body ts)"

text \<open>A sequence of statements: a trigger definition extends to its \<open>; END ;\<close>, any other
  statement to its first semicolon.\<close>

lemma after_semi_shorter: "after_semi ts = Some r \<Longrightarrow> length r < length ts"
  by (induction ts) (auto split: if_splits)

lemma after_body_shorter: "after_body ts = Some r \<Longrightarrow> length r < length ts"
  by (induction ts) (auto split: if_splits)

lemma after_trigger_shorter: "after_trigger ts = Some r \<Longrightarrow> length r < length ts"
  by (induction ts rule: after_trigger.induct) auto

lemma after_explain_shorter: "after_explain ts = Some r \<Longrightarrow> length r < length ts"
  by (induction ts rule: after_explain.induct) (auto dest: after_trigger_shorter)

lemma after_header_shorter: "after_header ts = Some r \<Longrightarrow> length r < length ts"
  by (induction ts rule: after_header.induct) (auto dest: after_trigger_shorter after_explain_shorter)

function complete_from :: "token list \<Rightarrow> bool" where
  "complete_from ts =
     (if ts = [] then True
      else case (case after_header ts of Some b \<Rightarrow> after_body b | None \<Rightarrow> after_semi ts) of
        None \<Rightarrow> False
      | Some r \<Rightarrow> complete_from r)"
  by pat_completeness auto
termination
  by (relation "measure length")
    (auto split: option.splits dest!: after_header_shorter after_body_shorter after_semi_shorter)

declare complete_from.simps [simp del]

subsection \<open>The machine implements the specification\<close>

definition run :: "nat \<Rightarrow> token list \<Rightarrow> nat" where
  "run = foldl (\<lambda>s t. trans ! s ! token_code t)"

lemma run_simps [simp]: "run s [] = s" "run s (t # ts) = run (trans ! s ! token_code t) ts"
  by (simp_all add: run_def)

lemma trans_simps [simp]:
  "trans ! 0 = [1, 0, 2, 3, 4, 2, 2, 2]" "trans ! 1 = [1, 1, 2, 3, 4, 2, 2, 2]"
  "trans ! (Suc 0) = [1, 1, 2, 3, 4, 2, 2, 2]" "trans ! 2 = [1, 2, 2, 2, 2, 2, 2, 2]"
  "trans ! 3 = [1, 3, 3, 2, 4, 2, 2, 2]" "trans ! 4 = [1, 4, 2, 2, 2, 4, 5, 2]"
  "trans ! 5 = [6, 5, 5, 5, 5, 5, 5, 5]" "trans ! 6 = [6, 6, 5, 5, 5, 5, 5, 7]"
  "trans ! 7 = [1, 7, 5, 5, 5, 5, 5, 5]"
  by (simp_all add: trans_def)

lemma run_2: "tkWS \<notin> set ts \<Longrightarrow>
  run 2 ts = (case after_semi ts of None \<Rightarrow> 2 | Some r \<Rightarrow> run 1 r)"
proof (induction ts)
  case (Cons t ts)
  then show ?case by (cases t) simp_all
qed simp

lemma run_5: "tkWS \<notin> set ts \<Longrightarrow>
  (run 5 ts = 1 \<longleftrightarrow> (case after_body ts of None \<Rightarrow> False | Some r \<Rightarrow> run 1 r = 1)) \<and>
  (run 6 ts = 1 \<longleftrightarrow> (case after_body (tkSEMI # ts) of None \<Rightarrow> False | Some r \<Rightarrow> run 1 r = 1)) \<and>
  (run 7 ts = 1 \<longleftrightarrow> (case after_body (tkSEMI # tkEND # ts) of None \<Rightarrow> False | Some r \<Rightarrow> run 1 r = 1))"
proof (induction ts)
  case (Cons t ts)
  then show ?case by (cases t; cases ts) (simp_all split: option.split)
qed simp

lemma run_4: "tkWS \<notin> set ts \<Longrightarrow>
  run 4 ts = 1 \<longleftrightarrow> (case after_trigger ts of Some b \<Rightarrow> run 5 b = 1
    | None \<Rightarrow> (case after_semi ts of None \<Rightarrow> False | Some r \<Rightarrow> run 1 r = 1))"
proof (induction ts)
  case (Cons t ts)
  then show ?case by (cases t) (simp_all add: run_2 split: option.split)
qed simp

lemma run_3: "tkWS \<notin> set ts \<Longrightarrow>
  run 3 ts = 1 \<longleftrightarrow> (case after_explain ts of Some b \<Rightarrow> run 5 b = 1
    | None \<Rightarrow> (case after_semi ts of None \<Rightarrow> False | Some r \<Rightarrow> run 1 r = 1))"
proof (induction ts)
  case (Cons t ts)
  then show ?case by (cases t) (simp_all add: run_2 run_4 [unfolded One_nat_def] split: option.split)
qed simp

lemma run_1: "tkWS \<notin> set ts \<Longrightarrow> ts \<noteq> [] \<Longrightarrow>
  run 1 ts = 1 \<longleftrightarrow> (case after_header ts of Some b \<Rightarrow> run 5 b = 1
    | None \<Rightarrow> (case after_semi ts of None \<Rightarrow> False | Some r \<Rightarrow> run 1 r = 1))"
proof (cases ts)
  case (Cons t us)
  assume "tkWS \<notin> set ts"
  with Cons show ?thesis by (cases t) (simp_all add: run_2 run_3 [unfolded One_nat_def] run_4 [unfolded One_nat_def] split: option.split)
qed simp

lemma set_after:
  "after_semi ts = Some r \<Longrightarrow> set r \<subseteq> set ts" "after_body ts = Some r \<Longrightarrow> set r \<subseteq> set ts"
  "after_trigger ts = Some r \<Longrightarrow> set r \<subseteq> set ts" "after_explain ts = Some r \<Longrightarrow> set r \<subseteq> set ts"
  "after_header ts = Some r \<Longrightarrow> set r \<subseteq> set ts"
proof -
  show 1: "after_semi ts = Some r \<Longrightarrow> set r \<subseteq> set ts" for ts
    by (induction ts) (auto split: if_splits)
  show "after_body ts = Some r \<Longrightarrow> set r \<subseteq> set ts" for ts
    by (induction ts) (auto split: if_splits dest: in_set_dropD)
  show 3: "after_trigger ts = Some r \<Longrightarrow> set r \<subseteq> set ts" for ts
    by (induction ts rule: after_trigger.induct) auto
  show 4: "after_explain ts = Some r \<Longrightarrow> set r \<subseteq> set ts" for ts
    by (induction ts rule: after_explain.induct) (auto dest: 3)
  show "after_header ts = Some r \<Longrightarrow> set r \<subseteq> set ts" for ts
    by (induction ts rule: after_header.induct) (auto dest: 3 4)
qed

lemma run_complete_from: "tkWS \<notin> set ts \<Longrightarrow> run 1 ts = 1 \<longleftrightarrow> complete_from ts"
proof (induction ts rule: complete_from.induct)
  case (1 ts)
  show ?case
  proof (cases "ts = []")
    case False
    show ?thesis
    proof (cases "after_header ts")
      case None
      with 1 False show ?thesis
        by (subst complete_from.simps, subst run_1) (auto split: option.split dest: set_after(1))
    next
      case (Some b)
      have b: "tkWS \<notin> set b" using set_after(5) [OF Some] 1(2) by blast
      show ?thesis
      proof (cases "after_body b")
        case None
        with Some False b 1(2) show ?thesis
          by (subst complete_from.simps, subst run_1) (simp_all add: run_5 [unfolded One_nat_def])
      next
        case (Some r)
        have "tkWS \<notin> set r" using set_after(2) [OF Some] b by blast
        with 1 False \<open>after_header ts = Some b\<close> Some b show ?thesis
          by (subst complete_from.simps, subst run_1) (simp_all add: run_5 [unfolded One_nat_def])
      qed
    qed
  qed (simp add: complete_from.simps)
qed

lemma trans_ws: "s < 8 \<Longrightarrow> trans ! s ! token_code tkWS = s"
  and trans_closed: "s < 8 \<Longrightarrow> trans ! s ! token_code t < 8"
proof -
  have "\<forall>s \<in> {0..<8}. trans ! s ! 1 = s \<and> (\<forall>c \<in> {0..<8}. trans ! s ! c < 8)" by code_simp
  moreover have "token_code t < 8" by (cases t) simp_all
  ultimately show "s < 8 \<Longrightarrow> trans ! s ! token_code tkWS = s" "s < 8 \<Longrightarrow> trans ! s ! token_code t < 8"
    by simp_all
qed

lemma complete_loop_run:
  "s < 8 \<Longrightarrow> complete_loop s z \<longleftrightarrow> (case tokens z of None \<Rightarrow> False | Some ts \<Rightarrow> run s ts = 1)"
proof (induction s z rule: complete_loop.induct)
  case (1 s z)
  show ?case
  proof (cases "cur z = 0")
    case False
    show ?thesis
    proof (cases "scan_token z")
      case (Token t r)
      have IH: "complete_loop (trans ! s ! token_code t) (tl r) \<longleftrightarrow>
          (case tokens (tl r) of None \<Rightarrow> False | Some ts \<Rightarrow> run (trans ! s ! token_code t) ts = 1)"
        using 1(1) [OF False Token] trans_closed [OF 1(2)] by simp
      show ?thesis
        using Token False IH trans_ws [OF 1(2)]
        by (simp add: complete_loop.simps [of s z] tokens.simps [of z] split: option.split)
    qed (use False in \<open>simp_all add: complete_loop.simps [of s z] tokens.simps [of z]\<close>)
  qed (simp add: complete_loop.simps tokens.simps)
qed

lemma tokens_no_space: "tokens z = Some ts \<Longrightarrow> tkWS \<notin> set ts"
proof (induction z arbitrary: ts rule: tokens.induct)
  case (1 z)
  show ?case
  proof (cases "cur z = 0")
    case False
    show ?thesis
      using 1 False by (cases "scan_token z") (auto simp: tokens.simps [of z] split: if_splits)
  qed (use 1 in \<open>simp add: tokens.simps\<close>)
qed


end
