(* ===== verification/Sq_Bitvec.thy ===== *)
theory Sq_Bitvec
  imports Sq_Base
begin

text \<open>
  The page bitmaps of \<^verbatim>\<open>src/sqlite3.c\<close> (bitvec.c): a set of numbers
  between 1 and \<open>iSize\<close> kept as a plain bitmap when it is small, else as a hash table with
  linear probing, and once that fills up as 62 sub-bitmaps, recursively. The union is a
  datatype with one constructor for each representation; the zeroed object a creation
  returns is the empty bitmap or the empty hash table. Integers are \<open>nat\<close>, reduced modulo
  \<open>2 ^ 32\<close> where the C expression can wrap. The constants are those of 64-bit pointers.
  Memory is taken to be available: the \<open>SQLITE_NOMEM\<close> returns are not part of the model.
  A loop over the hash table is bounded by the number of slots: going round without finding
  a free slot, which in C would never end, is \<open>None\<close>. \<open>sqlite3BitvecSet\<close> takes fuel
  for its recursion; 9 units are shown to be enough for every size.
\<close>

subsection \<open>Constants and data\<close>

definition BITVEC_SZ :: nat where "BITVEC_SZ = 512"
definition BITVEC_USIZE :: nat where "BITVEC_USIZE = ((BITVEC_SZ - 3 * 4) div 8) * 8"
definition BITVEC_SZELEM :: nat where "BITVEC_SZELEM = 8"
definition BITVEC_NELEM :: nat where "BITVEC_NELEM = BITVEC_USIZE div 1"
definition BITVEC_NBIT :: nat where "BITVEC_NBIT = BITVEC_NELEM * BITVEC_SZELEM"
definition BITVEC_NINT :: nat where "BITVEC_NINT = BITVEC_USIZE div 4"
definition BITVEC_MXHASH :: nat where "BITVEC_MXHASH = BITVEC_NINT div 2"
definition BITVEC_NPTR :: nat where "BITVEC_NPTR = BITVEC_USIZE div 8"

definition BITVEC_HASH :: "nat \<Rightarrow> nat" where
  "BITVEC_HASH X = (X * 1) mod BITVEC_NINT"

lemma bitvec_constants:
  "BITVEC_NELEM = 496" "BITVEC_NBIT = 3968" "BITVEC_NINT = 124" "BITVEC_MXHASH = 62" "BITVEC_NPTR = 62"
  "BITVEC_SZELEM = 8"
  by (simp_all add: BITVEC_NELEM_def BITVEC_NBIT_def BITVEC_NINT_def BITVEC_MXHASH_def BITVEC_NPTR_def
      BITVEC_USIZE_def BITVEC_SZ_def BITVEC_SZELEM_def)

datatype Bitvec = Bitvec (iSize: nat) (nSet: nat) (iDivisor: nat) (bv_u: bitvec_union)
  and bitvec_union = aBitmap "u8 list" | aHash "nat list" | apSub "Bitvec option list"

definition sqlite3BitvecCreate :: "nat \<Rightarrow> Bitvec" where
  "sqlite3BitvecCreate n =
     Bitvec n 0 0 (if n \<le> BITVEC_NBIT then aBitmap (replicate BITVEC_NELEM 0) else aHash (replicate BITVEC_NINT 0))"

definition sqlite3BitvecSize :: "Bitvec \<Rightarrow> nat" where
  "sqlite3BitvecSize p = iSize p"

text \<open>\<open>i--\<close> of an unsigned 32-bit integer.\<close>

definition u32_dec :: "nat \<Rightarrow> nat" where
  "u32_dec i = (i + (2 ^ 32 - 1)) mod 2 ^ 32"

subsection \<open>Testing a bit\<close>

fun hash_test :: "nat \<Rightarrow> nat list \<Rightarrow> nat \<Rightarrow> nat \<Rightarrow> bool option" where
  "hash_test 0 ht i h = None"
| "hash_test (Suc n) ht i h =
     (if ht ! h \<noteq> 0 then
        if ht ! h = i then Some True else hash_test n ht i ((h + 1) mod BITVEC_NINT)
      else Some False)"

definition leaf_test :: "Bitvec \<Rightarrow> nat \<Rightarrow> bool option" where
  "leaf_test p i =
     (if iSize p \<le> BITVEC_NBIT then
        (case bv_u p of
           aBitmap m \<Rightarrow> Some (m ! (i div BITVEC_SZELEM) AND push_bit (i AND (BITVEC_SZELEM - 1)) 1 \<noteq> 0)
         | _ \<Rightarrow> None)
      else
        (case bv_u p of
           aHash ht \<Rightarrow> hash_test BITVEC_NINT ht (i + 1) (BITVEC_HASH i)
         | _ \<Rightarrow> None))"

text \<open>The while loop down the sub-bitmaps, with the zero-based \<open>i\<close>.\<close>

lemma size_sub: "bin < length subs \<Longrightarrow> subs ! bin = Some q \<Longrightarrow> size q < size_list (size_option size) subs"
proof (induction subs arbitrary: bin)
  case (Cons s subs)
  then show ?case by (cases bin) (auto intro: less_SucI trans_less_add2)
qed simp

function test_down :: "Bitvec \<Rightarrow> nat \<Rightarrow> bool option" where
  "test_down p i =
     (if iDivisor p \<noteq> 0 then
        (case bv_u p of
           apSub subs \<Rightarrow>
             let bin = i div iDivisor p; i' = i mod iDivisor p in
             if bin < length subs then
               (case subs ! bin of None \<Rightarrow> Some False | Some q \<Rightarrow> test_down q i')
             else None
         | _ \<Rightarrow> None)
      else leaf_test p i)"
  by pat_completeness auto
termination
proof (relation "measure (\<lambda>(p, i). size p)")
  fix p i subs bin i' q
  assume "bv_u p = apSub subs" "bin < length subs" "subs ! bin = Some q"
  then show "((q, i'), p, i) \<in> measure (\<lambda>(p, i). size p)"
    using size_sub [of bin subs q] by (cases p) simp
qed simp

declare test_down.simps [simp del]

definition sqlite3BitvecTestNotNull :: "Bitvec \<Rightarrow> nat \<Rightarrow> bool option" where
  "sqlite3BitvecTestNotNull p i =
     (let i = u32_dec i in if i \<ge> iSize p then Some False else test_down p i)"

definition sqlite3BitvecTest :: "Bitvec option \<Rightarrow> nat \<Rightarrow> bool option" where
  "sqlite3BitvecTest p i = (case p of None \<Rightarrow> Some False | Some p \<Rightarrow> sqlite3BitvecTestNotNull p i)"

subsection \<open>Setting a bit\<close>

text \<open>The do-while loop from a slot that is taken: the value is there, or a free slot.\<close>

datatype slot = Found | Free nat

fun hash_slot :: "nat \<Rightarrow> nat list \<Rightarrow> nat \<Rightarrow> nat \<Rightarrow> slot option" where
  "hash_slot 0 ht i h = None"
| "hash_slot (Suc n) ht i h =
     (if ht ! h = i then Some Found
      else
      let h = (if h + 1 \<ge> BITVEC_NINT then 0 else h + 1)
      in if ht ! h \<noteq> 0 then hash_slot n ht i h else Some (Free h))"

fun set_all :: "(Bitvec \<Rightarrow> nat \<Rightarrow> Bitvec option) \<Rightarrow> Bitvec \<Rightarrow> nat list \<Rightarrow> Bitvec option" where
  "set_all f p [] = Some p"
| "set_all f p (v # vs) =
     (if v \<noteq> 0 then (case f p v of None \<Rightarrow> None | Some p' \<Rightarrow> set_all f p' vs) else set_all f p vs)"

lemma set_all_cong [fundef_cong]:
  "p = p' \<Longrightarrow> vs = vs' \<Longrightarrow> (\<And>q v. f q v = f' q v) \<Longrightarrow> set_all f p vs = set_all f' p' vs'"
proof -
  assume "\<And>q v. f q v = f' q v"
  then have "f = f'" by (intro ext)
  then show "p = p' \<Longrightarrow> vs = vs' \<Longrightarrow> ?thesis" by simp
qed

text \<open>Subdividing: the entries of the table and the new value go to the sub-bitmaps.\<close>

definition subdivided :: "Bitvec \<Rightarrow> Bitvec" where
  "subdivided p =
     Bitvec (iSize p) (nSet p) ((iSize p + BITVEC_NPTR - 1) mod 2 ^ 32 div BITVEC_NPTR)
       (apSub (replicate BITVEC_NPTR None))"

definition hash_put :: "Bitvec \<Rightarrow> nat list \<Rightarrow> nat \<Rightarrow> nat \<Rightarrow> Bitvec" where
  "hash_put p ht h i = Bitvec (iSize p) (nSet p + 1) (iDivisor p) (aHash (ht[h := i]))"

fun sqlite3BitvecSet :: "nat \<Rightarrow> Bitvec \<Rightarrow> nat \<Rightarrow> Bitvec option" where
  "sqlite3BitvecSet 0 p i = None"
| "sqlite3BitvecSet (Suc fuel) p i =
     (let i0 = u32_dec i in
      if iSize p > BITVEC_NBIT \<and> iDivisor p \<noteq> 0 then
        (case bv_u p of
           apSub subs \<Rightarrow>
             let bin = i0 div iDivisor p; i' = i0 mod iDivisor p in
             if bin < length subs then
               let q = (case subs ! bin of None \<Rightarrow> sqlite3BitvecCreate (iDivisor p) | Some q \<Rightarrow> q) in
               map_option (\<lambda>q'. Bitvec (iSize p) (nSet p) (iDivisor p) (apSub (subs[bin := Some q'])))
                 (sqlite3BitvecSet fuel q (i' + 1))
             else None
         | _ \<Rightarrow> None)
      else if iSize p \<le> BITVEC_NBIT then
        (case bv_u p of
           aBitmap m \<Rightarrow>
             Some (Bitvec (iSize p) (nSet p) (iDivisor p) (aBitmap
               (m[i0 div BITVEC_SZELEM := m ! (i0 div BITVEC_SZELEM) OR push_bit (i0 AND (BITVEC_SZELEM - 1)) 1])))
         | _ \<Rightarrow> None)
      else
        (case bv_u p of
           aHash ht \<Rightarrow>
             let h = BITVEC_HASH i0; i = i0 + 1;
                 rehash = (\<lambda>h.
                   if nSet p \<ge> BITVEC_MXHASH then set_all (sqlite3BitvecSet fuel) (subdivided p) (i # ht)
                   else Some (hash_put p ht h i))
             in
             if ht ! h = 0 then
               if nSet p < BITVEC_NINT - 1 then Some (hash_put p ht h i) else rehash h
             else
               (case hash_slot BITVEC_NINT ht i h of
                  None \<Rightarrow> None
                | Some Found \<Rightarrow> Some p
                | Some (Free h) \<Rightarrow> rehash h)
         | _ \<Rightarrow> None))"

subsection \<open>Clearing a bit\<close>

fun free_slot :: "nat \<Rightarrow> nat list \<Rightarrow> nat \<Rightarrow> nat option" where
  "free_slot 0 ht h = None"
| "free_slot (Suc n) ht h =
     (if ht ! h \<noteq> 0 then free_slot n ht (if h + 1 \<ge> BITVEC_NINT then 0 else h + 1) else Some h)"

text \<open>The loop that builds the table again without \<open>i + 1\<close>: the table and the count.\<close>

fun rebuild :: "nat \<Rightarrow> nat list \<Rightarrow> nat list \<times> nat \<Rightarrow> (nat list \<times> nat) option" where
  "rebuild i [] (ht, n) = Some (ht, n)"
| "rebuild i (v # vs) (ht, n) =
     (if v \<noteq> 0 \<and> v \<noteq> i + 1 then
        case free_slot BITVEC_NINT ht (BITVEC_HASH (v - 1)) of
          None \<Rightarrow> None
        | Some h \<Rightarrow> rebuild i vs (ht[h := v], n + 1)
      else rebuild i vs (ht, n))"

definition leaf_clear :: "Bitvec \<Rightarrow> nat \<Rightarrow> Bitvec option" where
  "leaf_clear p i =
     (if iSize p \<le> BITVEC_NBIT then
        (case bv_u p of
           aBitmap m \<Rightarrow>
             Some (Bitvec (iSize p) (nSet p) (iDivisor p) (aBitmap
               (m[i div BITVEC_SZELEM := m ! (i div BITVEC_SZELEM) AND NOT (push_bit (i AND (BITVEC_SZELEM - 1)) 1)])))
         | _ \<Rightarrow> None)
      else
        (case bv_u p of
           aHash ht \<Rightarrow>
             map_option (\<lambda>(ht', n). Bitvec (iSize p) n (iDivisor p) (aHash ht'))
               (rebuild i ht (replicate BITVEC_NINT 0, 0))
         | _ \<Rightarrow> None))"

function clear_down :: "Bitvec \<Rightarrow> nat \<Rightarrow> Bitvec option" where
  "clear_down p i =
     (if iDivisor p \<noteq> 0 then
        (case bv_u p of
           apSub subs \<Rightarrow>
             let bin = i div iDivisor p; i' = i mod iDivisor p in
             if bin < length subs then
               (case subs ! bin of
                  None \<Rightarrow> Some p
                | Some q \<Rightarrow>
                    map_option (\<lambda>q'. Bitvec (iSize p) (nSet p) (iDivisor p) (apSub (subs[bin := Some q'])))
                      (clear_down q i'))
             else None
         | _ \<Rightarrow> None)
      else leaf_clear p i)"
  by pat_completeness auto
termination
proof (relation "measure (\<lambda>(p, i). size p)")
  fix p i subs bin i' q
  assume "bv_u p = apSub subs" "bin < length subs" "subs ! bin = Some q"
  then show "((q, i'), p, i) \<in> measure (\<lambda>(p, i). size p)"
    using size_sub [of bin subs q] by (cases p) simp
qed simp

declare clear_down.simps [simp del]

definition sqlite3BitvecClear :: "Bitvec \<Rightarrow> nat \<Rightarrow> Bitvec option" where
  "sqlite3BitvecClear p i = clear_down p (u32_dec i)"

subsection \<open>The hash table\<close>

text \<open>The slot reached from the hash of \<open>i\<close> in \<open>k\<close> steps.\<close>

definition slot_at :: "nat \<Rightarrow> nat \<Rightarrow> nat" where
  "slot_at i k = (BITVEC_HASH i + k) mod BITVEC_NINT"

lemma slot_at_less [simp]: "slot_at i k < BITVEC_NINT"
  by (simp add: slot_at_def bitvec_constants)

lemma slot_at_0: "slot_at i 0 = BITVEC_HASH i"
  by (simp add: slot_at_def BITVEC_HASH_def)

lemma slot_at_Suc: "(slot_at i k + 1) mod BITVEC_NINT = slot_at i (Suc k)"
  by (simp add: slot_at_def mod_Suc_eq)

lemma slot_at_wrap: "(if slot_at i k + 1 \<ge> BITVEC_NINT then 0 else slot_at i k + 1) = slot_at i (Suc k)"
proof (cases "slot_at i k + 1 = BITVEC_NINT")
  case True
  with slot_at_Suc [of i k] show ?thesis by simp
next
  case False
  then have "slot_at i k + 1 < BITVEC_NINT" using slot_at_less [of i k] by linarith
  then have "(slot_at i k + 1) mod BITVEC_NINT = slot_at i k + 1" "\<not> slot_at i k + 1 \<ge> BITVEC_NINT" by simp_all
  then show ?thesis using slot_at_Suc [of i k] by presburger
qed

lemma slot_at_reaches: "s < BITVEC_NINT \<Longrightarrow> \<exists>k < BITVEC_NINT. slot_at i k = s"
proof -
  assume s: "s < BITVEC_NINT"
  have h: "BITVEC_HASH i < BITVEC_NINT" by (simp add: BITVEC_HASH_def bitvec_constants)
  define k where "k = (s + (BITVEC_NINT - BITVEC_HASH i)) mod BITVEC_NINT"
  have "slot_at i k = (BITVEC_HASH i + (s + (BITVEC_NINT - BITVEC_HASH i))) mod BITVEC_NINT"
    by (simp add: slot_at_def k_def mod_add_right_eq)
  also have "BITVEC_HASH i + (s + (BITVEC_NINT - BITVEC_HASH i)) = s + BITVEC_NINT" using h by simp
  finally have "slot_at i k = s" using s by simp
  moreover have "k < BITVEC_NINT" by (simp add: k_def bitvec_constants)
  ultimately show ?thesis by blast
qed

text \<open>Probing from the hash of \<open>i\<close> meets a free slot first after \<open>K\<close> steps.\<close>

definition first_free :: "nat list \<Rightarrow> nat \<Rightarrow> nat \<Rightarrow> bool" where
  "first_free ht i K \<longleftrightarrow> K < BITVEC_NINT \<and> ht ! slot_at i K = 0 \<and> (\<forall>j < K. ht ! slot_at i j \<noteq> 0)"

lemma first_free_exists: "s < BITVEC_NINT \<Longrightarrow> ht ! s = 0 \<Longrightarrow> \<exists>K. first_free ht i K"
proof -
  assume s: "s < BITVEC_NINT" "ht ! s = 0"
  then obtain k where k: "k < BITVEC_NINT \<and> ht ! slot_at i k = 0" using slot_at_reaches by metis
  define K where "K = (LEAST k. k < BITVEC_NINT \<and> ht ! slot_at i k = 0)"
  have "K < BITVEC_NINT \<and> ht ! slot_at i K = 0" unfolding K_def by (rule LeastI) (rule k)
  moreover have "ht ! slot_at i j \<noteq> 0" if "j < K" for j
    using not_less_Least [of j "\<lambda>k. k < BITVEC_NINT \<and> ht ! slot_at i k = 0"] that calculation
    unfolding K_def by auto
  ultimately show ?thesis by (auto simp: first_free_def)
qed

lemma hash_test_probe:
  assumes "first_free ht i K" "k \<le> K"
  shows "hash_test (BITVEC_NINT - k) ht v (slot_at i k) = Some (\<exists>j. k \<le> j \<and> j < K \<and> ht ! slot_at i j = v)"
  using assms(2)
proof (induction "K - k" arbitrary: k)
  case 0
  then have "k = K" by simp
  moreover obtain n where "BITVEC_NINT - k = Suc n"
    using assms(1) \<open>k = K\<close> by (metis Suc_diff_Suc first_free_def)
  ultimately show ?case using assms(1) by (auto simp: first_free_def)
next
  case (Suc d)
  then have k: "k < K" "BITVEC_NINT - k = Suc (BITVEC_NINT - Suc k)" "ht ! slot_at i k \<noteq> 0"
    using assms(1) by (auto simp: first_free_def)
  have split: "(\<exists>j. k \<le> j \<and> j < K \<and> ht ! slot_at i j = v) \<longleftrightarrow>
      ht ! slot_at i k = v \<or> (\<exists>j. Suc k \<le> j \<and> j < K \<and> ht ! slot_at i j = v)"
    using k(1) by (metis Suc_leD le_neq_implies_less less_eq_Suc_le order_refl)
  have "hash_test (BITVEC_NINT - Suc k) ht v (slot_at i (Suc k)) =
      Some (\<exists>j. Suc k \<le> j \<and> j < K \<and> ht ! slot_at i j = v)"
    using Suc.hyps(2) k(1) by (intro Suc.hyps(1)) simp_all
  then show ?case unfolding split k(2) using k(3) by (simp add: slot_at_Suc [simplified])
qed

lemma hash_slot_probe:
  assumes "first_free ht i K" "k < K"
  shows "hash_slot (BITVEC_NINT - k) ht v (slot_at i k) =
    Some (if \<exists>j. k \<le> j \<and> j < K \<and> ht ! slot_at i j = v then Found else Free (slot_at i K))"
  using assms(2)
proof (induction "K - k" arbitrary: k)
  case (Suc d)
  have k: "BITVEC_NINT - k = Suc (BITVEC_NINT - Suc k)" using Suc.prems assms(1) by (auto simp: first_free_def)
  have split: "(\<exists>j. k \<le> j \<and> j < K \<and> ht ! slot_at i j = v) \<longleftrightarrow>
      ht ! slot_at i k = v \<or> (\<exists>j. Suc k \<le> j \<and> j < K \<and> ht ! slot_at i j = v)"
    using Suc.prems by (metis Suc_leD le_neq_implies_less less_eq_Suc_le order_refl)

  show ?case
  proof (cases "Suc k = K")
    case True
    have "ht ! slot_at i (Suc k) = 0" using assms(1) True by (simp add: first_free_def)
    with True show ?thesis unfolding split k hash_slot.simps Let_def slot_at_wrap by auto
  next
    case False
    then have "Suc k < K" using Suc.prems by simp
    then have "ht ! slot_at i (Suc k) \<noteq> 0" using assms(1) by (simp add: first_free_def)
    moreover have "hash_slot (BITVEC_NINT - Suc k) ht v (slot_at i (Suc k)) =
        Some (if \<exists>j. Suc k \<le> j \<and> j < K \<and> ht ! slot_at i j = v then Found else Free (slot_at i K))"
      using Suc.hyps(2) \<open>Suc k < K\<close> by (intro Suc.hyps(1)) simp_all
    ultimately show ?thesis unfolding split k hash_slot.simps Let_def slot_at_wrap by simp
  qed
qed simp

lemma free_slot_probe:
  assumes "first_free ht i K" "k \<le> K"
  shows "free_slot (BITVEC_NINT - k) ht (slot_at i k) = Some (slot_at i K)"
  using assms(2)
proof (induction "K - k" arbitrary: k)
  case 0
  then have "k = K" by simp
  moreover obtain n where "BITVEC_NINT - k = Suc n"
    using assms(1) \<open>k = K\<close> by (metis Suc_diff_Suc first_free_def)
  ultimately show ?case using assms(1) by (auto simp: first_free_def)
next
  case (Suc d)
  then have k: "k < K" "BITVEC_NINT - k = Suc (BITVEC_NINT - Suc k)" "ht ! slot_at i k \<noteq> 0"
    using assms(1) by (auto simp: first_free_def)
  have "free_slot (BITVEC_NINT - Suc k) ht (slot_at i (Suc k)) = Some (slot_at i K)"
    using Suc.hyps(2) k(1) by (intro Suc.hyps(1)) simp_all
  then show ?case unfolding k(2) free_slot.simps slot_at_wrap using k(3) by simp
qed

text \<open>
  A table in order has a free slot, and probing from the hash of each of its values meets no
  free slot before the value.
\<close>

definition ok_table :: "nat list \<Rightarrow> bool" where
  "ok_table ht \<longleftrightarrow> length ht = BITVEC_NINT \<and> (\<exists>s < BITVEC_NINT. ht ! s = 0) \<and>
     (\<forall>v \<in> set ht. v \<noteq> 0 \<longrightarrow> (\<exists>k < BITVEC_NINT. ht ! slot_at (v - 1) k = v \<and> (\<forall>j < k. ht ! slot_at (v - 1) j \<noteq> 0)))"

definition occ :: "nat list \<Rightarrow> nat" where
  "occ ht = length (filter (\<lambda>v. v \<noteq> 0) ht)"

lemma occ_update: "s < length ht \<Longrightarrow> ht ! s = 0 \<Longrightarrow> v \<noteq> 0 \<Longrightarrow> occ (ht[s := v]) = Suc (occ ht)"
  unfolding occ_def
  by (induction ht arbitrary: s) (auto simp: nth_Cons split: nat.splits)

lemma occ_free: "occ ht < length ht \<Longrightarrow> \<exists>s < length ht. ht ! s = 0"
proof (rule ccontr)
  assume "occ ht < length ht" "\<not> (\<exists>s < length ht. ht ! s = 0)"
  then have "filter (\<lambda>v. v \<noteq> 0) ht = ht" by (auto simp: filter_id_conv in_set_conv_nth)
  with \<open>occ ht < length ht\<close> show False by (simp add: occ_def)
qed

lemma occ_le: "occ ht \<le> length ht" by (simp add: occ_def)

lemma ok_table_free: "ok_table ht \<Longrightarrow> \<exists>K. first_free ht i K"
  unfolding ok_table_def using first_free_exists by blast

lemma ok_table_found:
  assumes "ok_table ht" "v \<noteq> 0" "first_free ht (v - 1) K"
  shows "(\<exists>j < K. ht ! slot_at (v - 1) j = v) \<longleftrightarrow> v \<in> set ht"
proof
  assume "\<exists>j < K. ht ! slot_at (v - 1) j = v"
  then obtain j where "ht ! slot_at (v - 1) j = v" by blast
  moreover have "slot_at (v - 1) j < length ht" using assms(1) by (simp add: ok_table_def)
  ultimately show "v \<in> set ht" by (metis nth_mem)
next
  assume "v \<in> set ht"
  then obtain k where k: "ht ! slot_at (v - 1) k = v" "\<forall>j < k. ht ! slot_at (v - 1) j \<noteq> 0"
    using assms(1,2) unfolding ok_table_def by blast
  have "k < K"
  proof (rule ccontr)
    assume "\<not> k < K"
    then consider "K < k" | "K = k" by linarith
    then show False using k assms(2,3) by cases (auto simp: first_free_def)
  qed
  with k show "\<exists>j < K. ht ! slot_at (v - 1) j = v" by blast
qed

lemma hash_test_set:
  assumes "ok_table ht" "v \<noteq> 0"
  shows "hash_test BITVEC_NINT ht v (BITVEC_HASH (v - 1)) = Some (v \<in> set ht)"
proof -
  obtain K where K: "first_free ht (v - 1) K" using ok_table_free [OF assms(1)] by blast
  show ?thesis using hash_test_probe [OF K, of 0 v] ok_table_found [OF assms K] by (simp add: slot_at_0)
qed

lemma hash_slot_set:
  assumes "ok_table ht" "v \<noteq> 0" "ht ! BITVEC_HASH (v - 1) \<noteq> 0"
  shows "\<exists>K. first_free ht (v - 1) K \<and> hash_slot BITVEC_NINT ht v (BITVEC_HASH (v - 1)) =
    Some (if v \<in> set ht then Found else Free (slot_at (v - 1) K))"
proof -
  obtain K where K: "first_free ht (v - 1) K" using ok_table_free [OF assms(1)] by blast
  have "0 < K" using K assms(3) by (cases K) (auto simp: first_free_def slot_at_0)
  then show ?thesis using K hash_slot_probe [OF K, of 0 v] ok_table_found [OF assms(1,2) K]
    by (auto simp: slot_at_0)
qed

lemma ok_table_insert:
  assumes "ok_table ht" "v \<noteq> 0" "first_free ht (v - 1) K" "Suc (occ ht) < BITVEC_NINT"
  defines "s \<equiv> slot_at (v - 1) K"
  shows "ok_table (ht[s := v])" "occ (ht[s := v]) = Suc (occ ht)"
    "set (ht[s := v]) - {0} = insert v (set ht - {0})"
proof -
  have len: "length ht = BITVEC_NINT" and s: "s < length ht" and free: "ht ! s = 0"
    using assms(1,3) by (simp_all add: ok_table_def first_free_def s_def)
  show occ': "occ (ht[s := v]) = Suc (occ ht)" using occ_update [OF s free assms(2)] .
  have keep: "(ht[s := v]) ! j = ht ! j" if "ht ! j \<noteq> 0" for j using that free by (cases "j = s") auto
  have mem: "x \<in> set (ht[s := v]) \<longleftrightarrow> x = v \<or> x \<in> set ht" if "x \<noteq> 0" for x
    using s free that by (metis (no_types, lifting) in_set_conv_nth length_list_update nth_list_update_eq nth_list_update_neq)
  then show "set (ht[s := v]) - {0} = insert v (set ht - {0})" using assms(2) by blast
  have "\<exists>k < BITVEC_NINT. (ht[s := v]) ! slot_at (x - 1) k = x \<and> (\<forall>j < k. (ht[s := v]) ! slot_at (x - 1) j \<noteq> 0)"
    if x: "x \<in> set (ht[s := v])" "x \<noteq> 0" for x
  proof (cases "x \<in> set ht")
    case True
    then obtain k where k: "k < BITVEC_NINT" "ht ! slot_at (x - 1) k = x" "\<forall>j < k. ht ! slot_at (x - 1) j \<noteq> 0"
      using assms(1) x(2) unfolding ok_table_def by blast
    then have "(ht[s := v]) ! slot_at (x - 1) k = x" "\<forall>j < k. (ht[s := v]) ! slot_at (x - 1) j \<noteq> 0"
      using x(2) keep by auto
    with k(1) show ?thesis by blast
  next
    case False
    then have "x = v" using mem x by blast
    then have "(ht[s := v]) ! slot_at (x - 1) K = x" "\<forall>j < K. (ht[s := v]) ! slot_at (x - 1) j \<noteq> 0" "K < BITVEC_NINT"
      using assms(3) s keep by (auto simp: first_free_def s_def)
    then show ?thesis by blast
  qed
  moreover have "\<exists>t < BITVEC_NINT. (ht[s := v]) ! t = 0"
    using occ_free [of "ht[s := v]"] occ' assms(4) len by simp
  ultimately show "ok_table (ht[s := v])" using len unfolding ok_table_def by simp
qed

subsection \<open>Rebuilding the table\<close>

lemma rebuild_ok:
  assumes "ok_table ht" "n = occ ht" "n + occ vs < BITVEC_NINT"
  shows "\<exists>ht' n'. rebuild i vs (ht, n) = Some (ht', n') \<and> ok_table ht' \<and> n' = occ ht' \<and> n' \<le> n + occ vs \<and>
    set ht' - {0} = (set ht - {0}) \<union> (set vs - {0, i + 1})"
  using assms
proof (induction vs arbitrary: ht n)
  case Nil
  then show ?case by (simp add: occ_def)
next
  case (Cons v vs)
  show ?case
  proof (cases "v \<noteq> 0 \<and> v \<noteq> i + 1")
    case True
    obtain K where K: "first_free ht (v - 1) K" using ok_table_free [OF Cons.prems(1)] by blast
    have free: "free_slot BITVEC_NINT ht (BITVEC_HASH (v - 1)) = Some (slot_at (v - 1) K)"
      using free_slot_probe [OF K, of 0] by (simp add: slot_at_0)
    have occ_v: "occ (v # vs) = Suc (occ vs)" using True by (simp add: occ_def)
    then have room: "Suc (occ ht) < BITVEC_NINT" using Cons.prems by simp
    note ins = ok_table_insert [OF Cons.prems(1) _ K room]
    have "v \<noteq> 0" using True by simp
    note ins = ins [OF this]
    obtain ht' n' where r: "rebuild i vs (ht[slot_at (v - 1) K := v], n + 1) = Some (ht', n')" "ok_table ht'"
      "n' = occ ht'" "n' \<le> n + 1 + occ vs"
      "set ht' - {0} = (set (ht[slot_at (v - 1) K := v]) - {0}) \<union> (set vs - {0, i + 1})"
      using Cons.IH [OF ins(1), of "n + 1"] ins(2) Cons.prems(2,3) occ_v by auto
    have "rebuild i (v # vs) (ht, n) = Some (ht', n')" using True free r(1) by simp
    moreover have "set ht' - {0} = (set ht - {0}) \<union> (set (v # vs) - {0, i + 1})"
      unfolding r(5) ins(3) using True by auto
    ultimately show ?thesis using r occ_v by auto
  next
    case False
    then have "occ vs \<le> occ (v # vs)" by (simp add: occ_def)
    moreover have "n + occ vs < BITVEC_NINT" using Cons.prems(3) \<open>occ vs \<le> occ (v # vs)\<close> by linarith
    then obtain ht' n' where r: "rebuild i vs (ht, n) = Some (ht', n')" "ok_table ht'" "n' = occ ht'" "n' \<le> n + occ vs"
      "set ht' - {0} = (set ht - {0}) \<union> (set vs - {0, i + 1})"
      using Cons.IH [OF Cons.prems(1,2)] by blast
    have "rebuild i (v # vs) (ht, n) = Some (ht', n')" using False r(1) by (simp only: rebuild.simps if_False)
    moreover have "set (v # vs) - {0, i + 1} = set vs - {0, i + 1}" using False by auto
    moreover have "n' \<le> n + occ (v # vs)" using r(4) \<open>occ vs \<le> occ (v # vs)\<close> by linarith
    ultimately show ?thesis using r(2,3,5) by simp
  qed
qed

lemma ok_table_empty: "ok_table (replicate BITVEC_NINT 0)" "occ (replicate BITVEC_NINT 0) = 0"
  by (auto simp: ok_table_def occ_def bitvec_constants intro: exI [of _ 0])

subsection \<open>Well-formed bitmaps\<close>

inductive wf_bitvec :: "Bitvec \<Rightarrow> bool" where
  wf_bitmap: "n \<le> BITVEC_NBIT \<Longrightarrow> length m = BITVEC_NELEM \<Longrightarrow> wf_bitvec (Bitvec n c 0 (aBitmap m))"
| wf_hash: "BITVEC_NBIT < n \<Longrightarrow> ok_table ht \<Longrightarrow> c = occ ht \<Longrightarrow> \<forall>v \<in> set ht. v \<le> n \<Longrightarrow> wf_bitvec (Bitvec n c 0 (aHash ht))"
| wf_subs: "BITVEC_NBIT < n \<Longrightarrow> n + 61 < 2 ^ 32 \<Longrightarrow> d = (n + 61) div 62 \<Longrightarrow> length subs = BITVEC_NPTR \<Longrightarrow>
    \<forall>b < length subs. \<forall>q. subs ! b = Some q \<longrightarrow> wf_bitvec q \<and> iSize q = d \<Longrightarrow> wf_bitvec (Bitvec n c d (apSub subs))"

inductive_cases wf_bitvecE: "wf_bitvec p"

lemma wf_create: "wf_bitvec (sqlite3BitvecCreate n)"
  unfolding sqlite3BitvecCreate_def using ok_table_empty
  by (auto intro!: wf_bitmap wf_hash)


lemma and_push_bit_8:
  fixes x :: u8
  shows "(x AND push_bit (i AND 7) 1 \<noteq> 0) = bit x (i mod 8)"
proof -
  have a: "i AND 7 = i mod 8" using take_bit_eq_mod [of 3 i] by (simp add: take_bit_eq_mask mask_eq_exp_minus_1)
  show ?thesis unfolding a by (metis and_exp_eq_0_iff_not_bit push_bit_of_1)
qed

lemma and_7: "(i :: nat) AND 7 = i mod 8"
  using take_bit_eq_mod [of 3 i] by (simp add: take_bit_eq_mask mask_eq_exp_minus_1)

lemma test_bitmap:
  "n \<le> BITVEC_NBIT \<Longrightarrow> test_down (Bitvec n c 0 (aBitmap m)) i = Some (bit (m ! (i div 8)) (i mod 8))"
  by (subst test_down.simps) (simp add: leaf_test_def bitvec_constants and_push_bit_8 del: push_bit_of_1)

lemma test_hash:
  "BITVEC_NBIT < n \<Longrightarrow> ok_table ht \<Longrightarrow> test_down (Bitvec n c 0 (aHash ht)) i = Some (Suc i \<in> set ht)"
  using hash_test_set [of ht "Suc i"] by (subst test_down.simps) (simp add: leaf_test_def)

lemma divisor_facts:
  assumes "BITVEC_NBIT < n" "d = (n + 61) div 62"
  shows "d \<noteq> 0" "i < n \<Longrightarrow> i div d < 62" "i mod d < d"
proof -
  show d: "d \<noteq> 0" using assms by (simp add: bitvec_constants div_eq_0_iff)
  then show "i mod d < d" by simp
  have "n \<le> d * 62" using assms(2) div_mult_mod_eq [of "n + 61" 62] mod_less_divisor [of 62 "n + 61"] by linarith
  then show "i < n \<Longrightarrow> i div d < 62" using d by (simp add: less_mult_imp_div_less mult.commute)
qed

lemma test_subs:
  assumes "BITVEC_NBIT < n" "d = (n + 61) div 62" "length subs = BITVEC_NPTR" "i < n"
  shows "test_down (Bitvec n c d (apSub subs)) i =
    (case subs ! (i div d) of None \<Rightarrow> Some False | Some q \<Rightarrow> test_down q (i mod d))"
  using divisor_facts [OF assms(1,2)] assms(3,4)
  by (subst test_down.simps) (simp add: Let_def bitvec_constants)

text \<open>An operation that only changes whether \<open>i\<close> is in the bitmap.\<close>

definition updates :: "Bitvec \<Rightarrow> nat \<Rightarrow> bool \<Rightarrow> Bitvec option \<Rightarrow> bool" where
  "updates p i b r \<longleftrightarrow> (\<exists>p'. r = Some p' \<and> wf_bitvec p' \<and> iSize p' = iSize p \<and> (iDivisor p \<noteq> 0 \<longrightarrow> iDivisor p' \<noteq> 0) \<and>
     (\<forall>j < iSize p. test_down p' j = Some (if j = i then b else test_down p j = Some True)))"

lemma test_total: "wf_bitvec p \<Longrightarrow> i < iSize p \<Longrightarrow> \<exists>b. test_down p i = Some b"
proof (induction arbitrary: i rule: wf_bitvec.induct)
  case (wf_subs n d subs c)
  have "i div d < 62" "i mod d < d" using divisor_facts [OF wf_subs(1,3)] wf_subs.prems by simp_all
  then show ?case using wf_subs test_subs [OF wf_subs(1,3,4), of i c]
    by (auto simp: bitvec_constants split: option.split)
qed (simp_all add: test_bitmap test_hash)

lemma bit_neq_index: "j \<noteq> i \<Longrightarrow> j div 8 = i div 8 \<Longrightarrow> j mod 8 \<noteq> i mod (8 :: nat)"
  by (metis div_mult_mod_eq)

lemma bitmap_set:
  assumes "n \<le> BITVEC_NBIT" "length m = BITVEC_NELEM" "i < n"
  shows "updates (Bitvec n c 0 (aBitmap m)) i True
    (Some (Bitvec n c 0 (aBitmap (m[i div 8 := m ! (i div 8) OR push_bit (i mod 8) 1]))))"
proof -
  have i: "i div 8 < length m" using assms by (simp add: bitvec_constants)
  have "bit ((m[i div 8 := m ! (i div 8) OR push_bit (i mod 8) 1]) ! (j div 8)) (j mod 8) =
      (if j = i then True else bit (m ! (j div 8)) (j mod 8))" for j
    using i bit_neq_index [of j i]
    by (cases "j div 8 = i div 8") (auto simp: bit_or_iff bit_push_bit_iff bit_1_iff simp del: push_bit_of_1)
  then show ?thesis using assms wf_bitmap [of n "m[i div 8 := m ! (i div 8) OR push_bit (i mod 8) 1]" c]
    by (simp add: updates_def test_bitmap)
qed

lemma bitmap_clear:
  assumes "n \<le> BITVEC_NBIT" "length m = BITVEC_NELEM" "i < n"
  shows "updates (Bitvec n c 0 (aBitmap m)) i False
    (Some (Bitvec n c 0 (aBitmap (m[i div 8 := m ! (i div 8) AND NOT (push_bit (i mod 8) 1)]))))"
proof -
  have i: "i div 8 < length m" using assms by (simp add: bitvec_constants)
  have "bit ((m[i div 8 := m ! (i div 8) AND NOT (push_bit (i mod 8) 1)]) ! (j div 8)) (j mod 8) =
      (if j = i then False else bit (m ! (j div 8)) (j mod 8))" for j
    using i bit_neq_index [of j i]
    by (cases "j div 8 = i div 8") (auto simp: bit_and_iff bit_not_iff bit_push_bit_iff bit_1_iff simp del: push_bit_of_1)
  then show ?thesis using assms wf_bitmap [of n "m[i div 8 := m ! (i div 8) AND NOT (push_bit (i mod 8) 1)]" c]
    by (simp add: updates_def test_bitmap)
qed

lemma subs_update:
  assumes "wf_bitvec (Bitvec n c d (apSub subs))" "i < n" "BITVEC_NBIT < n"
    and "wf_bitvec q" "iSize q = d" "updates q (i mod d) b r"
    and "\<forall>j < d. test_down q j = Some True \<longleftrightarrow> (case subs ! (i div d) of None \<Rightarrow> False | Some q \<Rightarrow> test_down q j = Some True)"
  shows "updates (Bitvec n c d (apSub subs)) i b
    (map_option (\<lambda>q'. Bitvec n c d (apSub (subs[i div d := Some q']))) r)"
proof -
  from assms(1,3) have w: "n + 61 < 2 ^ 32" "d = (n + 61) div 62" "length subs = BITVEC_NPTR"
    "\<forall>b < length subs. \<forall>q. subs ! b = Some q \<longrightarrow> wf_bitvec q \<and> iSize q = d"
    by (auto elim: wf_bitvecE)
  obtain q' where q': "r = Some q'" "wf_bitvec q'" "iSize q' = d"
    "\<forall>j < d. test_down q' j = Some (if j = i mod d then b else test_down q j = Some True)"
    using assms(5,6) unfolding updates_def by auto
  define subs' where "subs' = subs[i div d := Some q']"
  have len: "length subs' = BITVEC_NPTR" by (simp add: subs'_def w(3))
  have idx: "i div d < length subs" using divisor_facts(2) [OF assms(3) w(2) assms(2)] w(3) by (simp add: bitvec_constants)
  have "wf_bitvec (Bitvec n c d (apSub subs'))"
  proof (rule wf_bitvec.wf_subs [OF assms(3) w(1,2) len], intro allI impI)
    fix b q assume "b < length subs'" "subs' ! b = Some q"
    then show "wf_bitvec q \<and> iSize q = d"
      using w(4) q'(2,3) by (cases "b = i div d") (auto simp: subs'_def)
  qed
  moreover have "test_down (Bitvec n c d (apSub subs')) j =
      Some (if j = i then b else test_down (Bitvec n c d (apSub subs)) j = Some True)" if "j < n" for j
  proof (cases "j div d = i div d")
    case True
    have "j mod d < d" "j = i \<longleftrightarrow> j mod d = i mod d"
      using divisor_facts(3) [OF assms(3) w(2)] True by (metis, metis div_mult_mod_eq)
    then show ?thesis
      using q'(4) assms(7) idx True that
      unfolding test_subs [OF assms(3) w(2) len that] test_subs [OF assms(3) w(2,3) that]
      by (auto simp: subs'_def split: option.splits)
  next
    case False
    have t: "test_down (Bitvec n c d (apSub subs')) j = test_down (Bitvec n c d (apSub subs)) j" "j \<noteq> i"
      using False unfolding test_subs [OF assms(3) w(2) len that] test_subs [OF assms(3) w(2,3) that]
      by (auto simp: subs'_def)
    moreover obtain b' where "test_down (Bitvec n c d (apSub subs)) j = Some b'"
      using test_total [OF assms(1), of j] \<open>j < n\<close> by auto
    ultimately show ?thesis by simp
  qed
  ultimately show ?thesis unfolding updates_def q'(1) by (auto simp: subs'_def)
qed

subsection \<open>Setting\<close>

lemma u32_dec_Suc: "Suc i < 2 ^ 32 \<Longrightarrow> u32_dec (Suc i) = i"
  by (simp add: u32_dec_def)

lemma iSize_create [simp]: "iSize (sqlite3BitvecCreate n) = n" "iDivisor (sqlite3BitvecCreate n) = 0"
  by (simp_all add: sqlite3BitvecCreate_def)

lemma test_create: "j < n \<Longrightarrow> test_down (sqlite3BitvecCreate n) j = Some False"
  using ok_table_empty
  by (auto simp: sqlite3BitvecCreate_def test_bitmap test_hash bitvec_constants)

lemma updates_test: "updates p i b (Some p') \<Longrightarrow> j < iSize p \<Longrightarrow> test_down p' j = Some (if j = i then b else test_down p j = Some True)"
  by (auto simp: updates_def)

definition sets_below :: "nat \<Rightarrow> (Bitvec \<Rightarrow> nat \<Rightarrow> Bitvec option) \<Rightarrow> Bitvec \<Rightarrow> bool" where
  "sets_below n f p \<longleftrightarrow> (\<forall>i. i < iSize p \<longrightarrow> updates p i True (f p (Suc i)))"

lemma set_subs:
  assumes "wf_bitvec (Bitvec n c d (apSub subs))" "i < n" "BITVEC_NBIT < n"
    and "\<And>q. wf_bitvec q \<Longrightarrow> iSize q = d \<Longrightarrow> updates q (i mod d) True (sqlite3BitvecSet fuel q (Suc (i mod d)))"
  shows "updates (Bitvec n c d (apSub subs)) i True (sqlite3BitvecSet (Suc fuel) (Bitvec n c d (apSub subs)) (Suc i))"
proof -
  from assms(1,3) have w: "n + 61 < 2 ^ 32" "d = (n + 61) div 62" "length subs = BITVEC_NPTR"
    "\<forall>b < length subs. \<forall>q. subs ! b = Some q \<longrightarrow> wf_bitvec q \<and> iSize q = d"
    by (auto elim: wf_bitvecE)
  note d = divisor_facts [OF assms(3) w(2)]
  have idx: "i div d < length subs" using d(2) [OF assms(2)] w(3) by (simp add: bitvec_constants)
  define q where "q = (case subs ! (i div d) of None \<Rightarrow> sqlite3BitvecCreate d | Some q \<Rightarrow> q)"
  have q: "wf_bitvec q" "iSize q = d" "\<forall>j < d. test_down q j = Some True \<longleftrightarrow>
      (case subs ! (i div d) of None \<Rightarrow> False | Some q \<Rightarrow> test_down q j = Some True)"
    using idx w(4) wf_create by (auto simp: q_def test_create split: option.splits)
  have dec: "u32_dec (Suc i) = i" using w(1) assms(2) by (simp add: u32_dec_Suc)
  have "sqlite3BitvecSet (Suc fuel) (Bitvec n c d (apSub subs)) (Suc i) =
      map_option (\<lambda>q'. Bitvec n c d (apSub (subs[i div d := Some q']))) (sqlite3BitvecSet fuel q (Suc (i mod d)))"
    using d(1) assms(3) idx by (simp add: dec Let_def q_def cong: option.case_cong)
  then show ?thesis
    using subs_update [OF assms(1-3) q(1,2) assms(4) [OF q(1,2)] q(3)] by simp
qed

lemma set_all_updates:
  assumes "\<And>p i. wf_bitvec p \<Longrightarrow> iSize p = n \<Longrightarrow> iDivisor p \<noteq> 0 \<Longrightarrow> i < n \<Longrightarrow> updates p i True (f p (Suc i))"
    and "wf_bitvec p" "iSize p = n" "iDivisor p \<noteq> 0" "\<forall>v \<in> set vs. v \<le> n"
  shows "\<exists>p'. set_all f p vs = Some p' \<and> wf_bitvec p' \<and> iSize p' = n \<and> iDivisor p' \<noteq> 0 \<and>
    (\<forall>j < n. test_down p' j = Some (Suc j \<in> set vs \<or> test_down p j = Some True))"
  using assms(2-)
proof (induction vs arbitrary: p)
  case Nil
  then show ?case using test_total [of p] by fastforce
next
  case (Cons v vs)
  show ?case
  proof (cases v)
    case 0
    then show ?thesis using Cons.IH [of p] Cons.prems by simp
  next
    case (Suc i)
    then have "updates p i True (f p (Suc i))" using Cons.prems assms(1) by simp
    then obtain p1 where p1: "f p (Suc i) = Some p1" "wf_bitvec p1" "iSize p1 = n" "iDivisor p1 \<noteq> 0"
      "\<forall>j < n. test_down p1 j = Some (j = i \<or> test_down p j = Some True)"
      using Cons.prems by (auto simp: updates_def)
    obtain p' where p': "set_all f p1 vs = Some p'" "wf_bitvec p'" "iSize p' = n" "iDivisor p' \<noteq> 0"
      "\<forall>j < n. test_down p' j = Some (Suc j \<in> set vs \<or> test_down p1 j = Some True)"
      using Cons.IH [OF p1(2-4)] Cons.prems(4) by auto
    have "set_all f p (v # vs) = Some p'" using Suc p1(1) p'(1) by simp
    moreover have "\<forall>j < n. test_down p' j = Some (Suc j \<in> set (v # vs) \<or> test_down p j = Some True)"
      using p'(5) p1(5) Suc by auto
    ultimately show ?thesis using p' by blast
  qed
qed

lemma set_hash_put:
  assumes "BITVEC_NBIT < n" "ok_table ht" "\<forall>v \<in> set ht. v \<le> n" "i < n" "first_free ht i K" "Suc (occ ht) < BITVEC_NINT"
  shows "updates (Bitvec n (occ ht) 0 (aHash ht)) i True
    (Some (hash_put (Bitvec n (occ ht) 0 (aHash ht)) ht (slot_at i K) (Suc i)))"
proof -
  define ht' where "ht' = ht[slot_at i K := Suc i]"
  have ins: "ok_table ht'" "occ ht' = Suc (occ ht)" "set ht' - {0} = insert (Suc i) (set ht - {0})"
    using ok_table_insert [of ht "Suc i" K] assms(2,5,6) by (simp_all add: ht'_def)
  have mem: "Suc j \<in> set ht' \<longleftrightarrow> j = i \<or> Suc j \<in> set ht" for j using ins(3) by blast
  have "v \<le> n" if "v \<in> set ht'" for v
  proof (cases v)
    case (Suc j)
    with that mem have "j = i \<or> Suc j \<in> set ht" by simp
    then show ?thesis using Suc assms(3,4) by auto
  qed simp
  then have "wf_bitvec (Bitvec n (Suc (occ ht)) 0 (aHash ht'))"
    using wf_hash [OF assms(1) ins(1) ins(2) [symmetric]] by blast
  then show ?thesis using mem test_hash [OF assms(1) assms(2)] test_hash [OF assms(1) ins(1)]
    by (simp add: updates_def hash_put_def ht'_def [symmetric])
qed

lemma updates_same: "wf_bitvec p \<Longrightarrow> test_down p i = Some b \<Longrightarrow> updates p i b (Some p)"
  using test_total [of p] by (fastforce simp: updates_def)

lemma set_hash_rehash:
  assumes "BITVEC_NBIT < n" "n + 61 < 2 ^ 32" "ok_table ht" "\<forall>v \<in> set ht. v \<le> n" "i < n"
    and "\<And>p i. wf_bitvec p \<Longrightarrow> iSize p = n \<Longrightarrow> iDivisor p \<noteq> 0 \<Longrightarrow> i < n \<Longrightarrow> updates p i True (f p (Suc i))"
  shows "updates (Bitvec n c 0 (aHash ht)) i True (set_all f (subdivided (Bitvec n c 0 (aHash ht))) (Suc i # ht))"
proof -
  let ?p = "subdivided (Bitvec n c 0 (aHash ht))"
  have p: "?p = Bitvec n c ((n + 61) div 62) (apSub (replicate BITVEC_NPTR None))"
    using assms(2) by (simp add: subdivided_def bitvec_constants)
  note d = divisor_facts [OF assms(1) refl]
  have wf: "wf_bitvec ?p" unfolding p by (rule wf_subs [OF assms(1,2) refl]) auto
  have none: "test_down ?p j = Some False" if "j < n" for j
    using test_subs [OF assms(1) refl _ that, of "replicate BITVEC_NPTR None" c] d(2) [OF that]
    unfolding p by (simp add: bitvec_constants)
  have "iSize ?p = n" "iDivisor ?p \<noteq> 0" using d(1) by (simp_all add: p)
  moreover have "\<forall>v \<in> set (Suc i # ht). v \<le> n" using assms(4,5) by simp
  ultimately obtain p' where "set_all f ?p (Suc i # ht) = Some p'" "wf_bitvec p'" "iSize p' = n" "iDivisor p' \<noteq> 0"
    "\<forall>j < n. test_down p' j = Some (Suc j \<in> set (Suc i # ht) \<or> test_down ?p j = Some True)"
    using set_all_updates [OF assms(6) wf] by blast
  then show ?thesis using none test_hash [OF assms(1,3)] by (auto simp: updates_def)
qed

lemma set_hash:
  assumes "wf_bitvec (Bitvec n c 0 (aHash ht))" "BITVEC_NBIT < n" "n + 61 < 2 ^ 32" "i < n"
    and "\<And>p i. wf_bitvec p \<Longrightarrow> iSize p = n \<Longrightarrow> iDivisor p \<noteq> 0 \<Longrightarrow> i < n \<Longrightarrow> updates p i True (sqlite3BitvecSet fuel p (Suc i))"
  shows "updates (Bitvec n c 0 (aHash ht)) i True (sqlite3BitvecSet (Suc fuel) (Bitvec n c 0 (aHash ht)) (Suc i))"
proof -
  let ?p = "Bitvec n c 0 (aHash ht)"
  from assms(1) have ok: "ok_table ht" and c: "c = occ ht" and le: "\<forall>v \<in> set ht. v \<le> n"
    by (auto elim: wf_bitvecE)
  have dec: "u32_dec (Suc i) = i" using assms(3,4) by (simp add: u32_dec_Suc)
  note again = set_hash_rehash [OF assms(2,3) ok le assms(4), where f = "sqlite3BitvecSet fuel" and c = c, OF assms(5)]
  have put: "updates ?p i True (Some (hash_put ?p ht (slot_at i K) (Suc i)))"
    if "first_free ht i K" "c < BITVEC_NINT - 1" for K
    using set_hash_put [OF assms(2) ok le assms(4) that(1)] that(2) c by (simp add: bitvec_constants)
  have rehash: "updates ?p i True
      (if c \<ge> BITVEC_MXHASH then set_all (sqlite3BitvecSet fuel) (subdivided ?p) (Suc i # ht)
       else Some (hash_put ?p ht (slot_at i K) (Suc i)))" if "first_free ht i K" for K
    using again put [OF that] by (auto simp: bitvec_constants)
  show ?thesis
  proof (cases "ht ! BITVEC_HASH i = 0")
    case True
    then have "first_free ht i 0" by (simp add: first_free_def slot_at_0 bitvec_constants)
    note free = put [OF this, unfolded slot_at_0] rehash [OF this, unfolded slot_at_0]
    show ?thesis using True assms(2) free
      by (cases "c < BITVEC_NINT - Suc 0"; cases "BITVEC_MXHASH \<le> c") (simp_all add: dec Let_def del: set_all.simps)
  next
    case False
    then obtain K where K: "first_free ht i K" "hash_slot BITVEC_NINT ht (Suc i) (BITVEC_HASH i) =
        Some (if Suc i \<in> set ht then Found else Free (slot_at i K))"
      using hash_slot_set [OF ok, of "Suc i"] by auto
    have "updates ?p i True (Some ?p)" if "Suc i \<in> set ht"
      using updates_same [OF assms(1), of i True] test_hash [OF assms(2) ok] that by simp
    then show ?thesis using K rehash [OF K(1)] False assms(2)
      by (simp add: dec Let_def not_le del: set_all.simps)
  qed
qed

lemma set_updates:
  assumes "wf_bitvec p" "iSize p \<le> 62 ^ k * BITVEC_NBIT" "iSize p + 61 < 2 ^ 32" "i < iSize p"
  shows "2 * k + 1 \<le> fuel \<or> iDivisor p \<noteq> 0 \<and> 2 * k \<le> fuel \<Longrightarrow> updates p i True (sqlite3BitvecSet fuel p (Suc i))"
  using assms
proof (induction fuel arbitrary: p k i)
  case 0
  then have "k = 0" "iDivisor p \<noteq> 0" by auto
  then show ?case using 0 by (auto elim: wf_bitvecE)
next
  case (Suc fuel)
  from Suc.prems(2) show ?case
  proof (cases rule: wf_bitvec.cases)
    case (wf_bitmap n m c)
    have dec: "u32_dec (Suc i) = i" using Suc.prems(4,5) by (simp add: u32_dec_Suc)
    show ?thesis using bitmap_set [OF wf_bitmap(2,3), of i c] wf_bitmap Suc.prems(5)
      by (simp add: dec Let_def bitvec_constants and_7)
  next
    case (wf_hash n ht c)
    show ?thesis unfolding wf_hash(1)
    proof (rule set_hash)
      fix p' i' assume p': "wf_bitvec p'" "iSize p' = n" "iDivisor p' \<noteq> 0" "i' < n"
      have "2 * k \<le> fuel" using Suc.prems(1) wf_hash(1) by simp
      then show "updates p' i' True (sqlite3BitvecSet fuel p' (Suc i'))"
        using Suc.IH [of k p' i'] Suc.prems(3,4) p' wf_hash(1) by simp
    qed (use Suc.prems wf_hash in simp_all)
  next
    case (wf_subs n d subs c)
    obtain k' where k: "k = Suc k'" using Suc.prems(3) wf_subs by (cases k) auto
    show ?thesis unfolding wf_subs(1)
    proof (rule set_subs)
      fix q assume q: "wf_bitvec q" "iSize q = d"
      have "d \<le> 62 ^ k' * BITVEC_NBIT" "d + 61 < 2 ^ 32"
        using Suc.prems(3,4) wf_subs(1,4) k by (auto simp: less_mult_imp_div_less)
      moreover have "2 * k' + 1 \<le> fuel" using Suc.prems(1) k by auto
      ultimately show "updates q (i mod d) True (sqlite3BitvecSet fuel q (Suc (i mod d)))"
        using Suc.IH [of k' q "i mod d"] q divisor_facts(3) [OF wf_subs(2,4)] by simp
    qed (use Suc.prems wf_subs in simp_all)
  qed
qed

subsection \<open>Clearing\<close>

lemma clear_updates: "wf_bitvec p \<Longrightarrow> i < iSize p \<Longrightarrow> updates p i False (clear_down p i)"
proof (induction arbitrary: i rule: wf_bitvec.induct)
  case (wf_bitmap n m c)
  then show ?case using bitmap_clear [OF wf_bitmap(1,2), of i c]
    by (subst clear_down.simps) (simp add: leaf_clear_def bitvec_constants and_7)
next
  case (wf_hash n ht c)
  have "occ ht < BITVEC_NINT"
  proof -
    obtain s where s: "s < length ht" "ht ! s = 0" and len: "length ht = BITVEC_NINT"
      using wf_hash(2) by (auto simp: ok_table_def)
    have "occ ht < length ht"
      unfolding occ_def by (rule length_filter_less [of "ht ! s"]) (use s nth_mem [OF s(1)] in simp_all)
    then show ?thesis using len by simp
  qed
  then obtain ht' n' where r: "rebuild i ht (replicate BITVEC_NINT 0, 0) = Some (ht', n')" "ok_table ht'" "n' = occ ht'"
    "set ht' - {0} = (set (replicate BITVEC_NINT 0) - {0}) \<union> (set ht - {0, i + 1})"
    using rebuild_ok [OF ok_table_empty(1), of 0 ht i] ok_table_empty(2) by auto
  have mem: "Suc j \<in> set ht' \<longleftrightarrow> Suc j \<in> set ht \<and> j \<noteq> i" for j
    using r(4) by (auto simp: bitvec_constants)
  have "v \<le> n" if "v \<in> set ht'" for v
  proof (cases v)
    case (Suc j)
    with that mem have "Suc j \<in> set ht" by simp
    then show ?thesis using Suc wf_hash(4) by auto
  qed simp
  then have "wf_bitvec (Bitvec n n' 0 (aHash ht'))"
    using wf_bitvec.wf_hash [OF wf_hash(1) r(2,3)] by blast
  moreover have "clear_down (Bitvec n c 0 (aHash ht)) i = Some (Bitvec n n' 0 (aHash ht'))"
    using r(1) wf_hash(1) by (subst clear_down.simps) (simp add: leaf_clear_def)
  ultimately show ?case using mem test_hash [OF wf_hash(1,2)] test_hash [OF wf_hash(1) r(2)]
    by (simp add: updates_def)
next
  case (wf_subs n d subs c)
  have wf: "wf_bitvec (Bitvec n c d (apSub subs))" using wf_subs by (intro wf_bitvec.wf_subs) auto
  note d = divisor_facts [OF wf_subs(1,3)]
  have i: "i < n" "i div d < length subs" using wf_subs(4) wf_subs.prems d(2) by (simp_all add: bitvec_constants)
  show ?case
  proof (cases "subs ! (i div d)")
    case None
    then have "test_down (Bitvec n c d (apSub subs)) i = Some False"
      using test_subs [OF wf_subs(1,3,4) i(1), of c] by simp
    then show ?thesis using updates_same [OF wf] None d(1) i(2)
      by (subst clear_down.simps) (simp add: Let_def)
  next
    case (Some q)
    then have "wf_bitvec q" "iSize q = d" "updates q (i mod d) False (clear_down q (i mod d))"
      using wf_subs(5) i(2) d(3) by auto
    from subs_update [OF wf i(1) wf_subs(1) this] show ?thesis using Some d(1) i(2)
      by (subst clear_down.simps) (simp add: Let_def)
  qed
qed

subsection \<open>The bitmap is a set\<close>

definition page_bits :: "Bitvec \<Rightarrow> nat set" where
  "page_bits p = {i. i < 2 ^ 32 \<and> sqlite3BitvecTest (Some p) i = Some True}"

lemma page_bits_down: "page_bits p = {i. 0 < i \<and> i < 2 ^ 32 \<and> i - 1 < iSize p \<and> test_down p (i - 1) = Some True}"
  if "iSize p < 2 ^ 32"
proof -
  have test: "sqlite3BitvecTest (Some p) i = (if u32_dec i \<ge> iSize p then Some False else test_down p (u32_dec i))" for i
    by (simp add: sqlite3BitvecTest_def sqlite3BitvecTestNotNull_def Let_def)
  have zero: "u32_dec 0 \<ge> iSize p" using that by (simp add: u32_dec_def)
  have "i \<in> page_bits p \<longleftrightarrow> 0 < i \<and> i < 2 ^ 32 \<and> i - 1 < iSize p \<and> test_down p (i - 1) = Some True" for i
  proof (cases i)
    case 0
    then show ?thesis using zero by (simp add: page_bits_def test)
  next
    case (Suc j)
    have "Suc j < 2 ^ 32 \<Longrightarrow> ?thesis" unfolding Suc by (simp only: page_bits_def mem_Collect_eq test u32_dec_Suc) (simp add: not_le)
    then show ?thesis by (cases "Suc j < 2 ^ 32") (simp_all add: page_bits_def Suc)
  qed
  then show ?thesis by blast
qed

lemma updates_bits:
  assumes "updates p i b r" "iSize p < 2 ^ 32" "i < iSize p"
  shows "\<exists>p'. r = Some p' \<and> wf_bitvec p' \<and> iSize p' = iSize p \<and>
    page_bits p' = (if b then insert (Suc i) (page_bits p) else page_bits p - {Suc i})"
proof -
  obtain p' where p': "r = Some p'" "wf_bitvec p'" "iSize p' = iSize p"
    "\<forall>j < iSize p. test_down p' j = Some (if j = i then b else test_down p j = Some True)"
    using assms(1) by (auto simp: updates_def)
  have "j \<in> page_bits p' \<longleftrightarrow> j \<in> (if b then insert (Suc i) (page_bits p) else page_bits p - {Suc i})" for j
    using p'(3,4) assms(2,3) by (cases j; cases b) (auto simp: page_bits_down split: if_splits)
  then show ?thesis using p'(1-3) by blast
qed

text \<open>Setting bit \<open>i\<close> of a well-formed page bitmap of any size the rehashing can divide
  returns, whatever representation is in use and however often the table is subdivided on the
  way, and adds exactly \<open>i\<close> to the bits that test as set; the result is well-formed again
  and of the same size. A new bitmap is well-formed and has no bit set.\<close>

theorem BitvecSet_inserts:
  assumes "wf_bitvec p" "0 < i" "i \<le> sqlite3BitvecSize p" "sqlite3BitvecSize p + 61 < 2 ^ 32"
  shows "(\<exists>p'. sqlite3BitvecSet 9 p i = Some p' \<and> wf_bitvec p' \<and> sqlite3BitvecSize p' = sqlite3BitvecSize p \<and>
      page_bits p' = insert i (page_bits p)) \<and>
    wf_bitvec (sqlite3BitvecCreate n) \<and> (n < 2 ^ 32 \<longrightarrow> page_bits (sqlite3BitvecCreate n) = {})"
proof -
  obtain j where j: "i = Suc j" using assms(2) gr0_conv_Suc by blast
  have "updates p j True (sqlite3BitvecSet 9 p (Suc j))"
    using assms by (intro set_updates [where k = 4]) (simp_all add: j sqlite3BitvecSize_def bitvec_constants)
  from updates_bits [OF this] assms j wf_create [of n]
  show ?thesis by (auto simp: sqlite3BitvecSize_def page_bits_down test_create)
qed

theorem BitvecSet_inserts_witness:
  "\<exists>p'. sqlite3BitvecSet 9 (sqlite3BitvecCreate 100000) 70000 = Some p' \<and> page_bits p' = {70000}"
proof -
  have "sqlite3BitvecSize (sqlite3BitvecCreate 100000) = 100000" by (simp add: sqlite3BitvecSize_def)
  then show ?thesis
    using BitvecSet_inserts [OF wf_create [of 100000], of 70000 100000] by auto
qed

text \<open>Clearing bit \<open>i\<close> of a well-formed page bitmap finds a free slot for every entry of
  the table it rebuilds, removes exactly \<open>i\<close> from the bits that test as set, and keeps the
  bitmap well-formed and its size.\<close>

theorem BitvecClear_removes:
  assumes "wf_bitvec p" "0 < i" "i \<le> sqlite3BitvecSize p" "sqlite3BitvecSize p < 2 ^ 32"
  shows "\<exists>p'. sqlite3BitvecClear p i = Some p' \<and> wf_bitvec p' \<and> sqlite3BitvecSize p' = sqlite3BitvecSize p \<and>
    page_bits p' = page_bits p - {i}"
proof -
  obtain j where j: "i = Suc j" using assms(2) gr0_conv_Suc by blast
  have "updates p j False (clear_down p j)"
    using assms by (intro clear_updates) (simp_all add: j sqlite3BitvecSize_def)
  from updates_bits [OF this] assms j show ?thesis
    by (simp add: sqlite3BitvecSize_def sqlite3BitvecClear_def u32_dec_Suc)
qed

theorem BitvecClear_removes_witness:
  "\<exists>p p'. sqlite3BitvecSet 9 (sqlite3BitvecCreate 5000) (Suc 3999) = Some p \<and> sqlite3BitvecClear p 4000 = Some p' \<and>
    page_bits p = {4000} \<and> page_bits p' = {}"
proof -
  let ?c = "sqlite3BitvecCreate 5000"
  have upd: "updates ?c 3999 True (sqlite3BitvecSet 9 ?c (Suc 3999))"
    by (rule set_updates [where k = 4]) (simp_all add: wf_create bitvec_constants)
  have "page_bits ?c = {}" by (simp add: page_bits_down test_create)
  then obtain p where p: "sqlite3BitvecSet 9 ?c (Suc 3999) = Some p" "wf_bitvec p" "iSize p = 5000" "page_bits p = {4000}"
    using updates_bits [OF upd] by auto
  have "\<exists>p'. sqlite3BitvecClear p 4000 = Some p' \<and> wf_bitvec p' \<and> sqlite3BitvecSize p' = sqlite3BitvecSize p \<and>
      page_bits p' = page_bits p - {4000}"
    by (rule BitvecClear_removes) (simp_all add: p sqlite3BitvecSize_def)
  then show ?thesis using p by auto
qed


subsection \<open>Sequences of operations\<close>

datatype bit_op = Bit_Set nat | Bit_Clear nat

fun bit_of :: "bit_op \<Rightarrow> nat" where
  "bit_of (Bit_Set i) = i"
| "bit_of (Bit_Clear i) = i"

fun run_bits :: "bit_op list \<Rightarrow> Bitvec \<Rightarrow> Bitvec option" where
  "run_bits [] p = Some p"
| "run_bits (Bit_Set i # ops) p = Option.bind (sqlite3BitvecSet 9 p i) (run_bits ops)"
| "run_bits (Bit_Clear i # ops) p = Option.bind (sqlite3BitvecClear p i) (run_bits ops)"

fun set_after :: "bit_op list \<Rightarrow> nat set \<Rightarrow> nat set" where
  "set_after [] A = A"
| "set_after (Bit_Set i # ops) A = set_after ops (insert i A)"
| "set_after (Bit_Clear i # ops) A = set_after ops (A - {i})"

lemma run_bits_ok:
  "wf_bitvec p \<Longrightarrow> sqlite3BitvecSize p + 61 < 2 ^ 32 \<Longrightarrow>
   \<forall>b \<in> set ops. 0 < bit_of b \<and> bit_of b \<le> sqlite3BitvecSize p \<Longrightarrow>
   \<exists>p'. run_bits ops p = Some p' \<and> wf_bitvec p' \<and> page_bits p' = set_after ops (page_bits p)"
proof (induction ops arbitrary: p)
  case (Cons b ops)
  show ?case
  proof (cases b)
    case (Bit_Set i)
    obtain q where "sqlite3BitvecSet 9 p i = Some q" "wf_bitvec q" "sqlite3BitvecSize q = sqlite3BitvecSize p"
        "page_bits q = insert i (page_bits p)"
      using conjunct1 [OF BitvecSet_inserts [of p i]] Cons.prems Bit_Set by auto
    then show ?thesis using Cons.IH [of q] Cons.prems Bit_Set by simp
  next
    case (Bit_Clear i)
    obtain q where "sqlite3BitvecClear p i = Some q" "wf_bitvec q" "sqlite3BitvecSize q = sqlite3BitvecSize p"
        "page_bits q = page_bits p - {i}"
      using BitvecClear_removes [of p i] Cons.prems Bit_Clear by auto
    then show ?thesis using Cons.IH [of q] Cons.prems Bit_Clear by simp
  qed
qed simp

lemma test_some:
  assumes "wf_bitvec p"
  shows "\<exists>b. sqlite3BitvecTest (Some p) i = Some b"
  using test_total [OF assms, of "u32_dec i"]
  by (cases "u32_dec i < iSize p") (auto simp: sqlite3BitvecTest_def sqlite3BitvecTestNotNull_def Let_def)

text \<open>C28: Any sequence of settings and clearings of bits in range, on a new page bitmap of any
  size the rehashing can divide, succeeds, through whatever changes of representation, and
  then testing a bit says whether it is in the set the sequence makes of the empty set.\<close>

theorem bitvec_refines_set:
  assumes "n + 61 < 2 ^ 32" and "\<forall>b \<in> set ops. 0 < bit_of b \<and> bit_of b \<le> n"
  shows "\<exists>p. run_bits ops (sqlite3BitvecCreate n) = Some p
    \<and> (\<forall>i < 2 ^ 32. sqlite3BitvecTest (Some p) i = Some (i \<in> set_after ops {}))"
proof -
  have c: "sqlite3BitvecSize (sqlite3BitvecCreate n) = n" by (simp add: sqlite3BitvecSize_def)
  have "page_bits (sqlite3BitvecCreate n) = {}" using assms(1) by (simp add: page_bits_down test_create)
  then obtain p where p: "run_bits ops (sqlite3BitvecCreate n) = Some p" "wf_bitvec p" "page_bits p = set_after ops {}"
    using run_bits_ok [OF wf_create, of n ops] assms c by metis
  have "sqlite3BitvecTest (Some p) i = Some (i \<in> set_after ops {})" if i: "i < 2 ^ 32" for i
  proof -
    obtain b where b: "sqlite3BitvecTest (Some p) i = Some b" using test_some [OF p(2)] by blast
    have "i \<in> page_bits p \<longleftrightarrow> b" using b i unfolding page_bits_def by simp
    then show ?thesis using b p(3) by simp
  qed
  then show ?thesis using p(1) by blast
qed

lemma bitvec_refines_set_witness:
  "\<exists>p. run_bits [Bit_Set 70000, Bit_Set 5, Bit_Clear 70000] (sqlite3BitvecCreate 100000) = Some p
    \<and> sqlite3BitvecTest (Some p) 5 = Some True \<and> sqlite3BitvecTest (Some p) 70000 = Some False"
proof -
  let ?ops = "[Bit_Set 70000, Bit_Set 5, Bit_Clear 70000]"
  obtain p where p: "run_bits ?ops (sqlite3BitvecCreate 100000) = Some p"
      "\<forall>i < 2 ^ 32. sqlite3BitvecTest (Some p) i = Some (i \<in> set_after ?ops {})"
    using bitvec_refines_set [of 100000 ?ops] by (auto simp del: run_bits.simps set_after.simps)
  have "sqlite3BitvecTest (Some p) 5 = Some (5 \<in> set_after ?ops {})"
    "sqlite3BitvecTest (Some p) 70000 = Some (70000 \<in> set_after ?ops {})"
    by (rule mp [OF spec [OF p(2)]]; simp del: set_after.simps)+
  then show ?thesis using p(1) by (simp del: run_bits.simps)
qed

end
