(* ===== verification/Sq_RowSet.thy ===== *)
theory Sq_RowSet
  imports Main "HOL-Library.Tree"
begin

text \<open>
  The row sets of \<^verbatim>\<open>src/sqlite3.c\<close> (rowset.c): numbers are inserted in any
  order, and either tested for by batches or taken out smallest first. An entry is part of one
  list or one tree at a time, so a list linked by \<open>pRight\<close> is a HOL list and a binary tree
  of entries a tree of the library; the forest, which the code links through spare entries, is
  the list of its trees, a missing one being the empty tree. Row numbers are \<open>int\<close>. Entries
  come from chunks; whether the memory for the \<open>n\<close>-th chunk is there is the parameter
  \<open>mem\<close>.
\<close>

subsection \<open>The code\<close>

definition ROWSET_ENTRY_PER_CHUNK :: nat where
  "ROWSET_ENTRY_PER_CHUNK = (1024 - 8) div 24"

record RowSet =
  pChunk :: nat
  pEntry :: "int list"
  pLast :: "int option"
  pForest :: "int tree list"
  nFresh :: nat
  ROWSET_SORTED :: bool
  ROWSET_NEXT :: bool
  iBatch :: int

definition sqlite3RowSetInit :: "nat \<Rightarrow> RowSet" where
  "sqlite3RowSetInit fresh =
     \<lparr>pChunk = 0, pEntry = [], pLast = None, pForest = [], nFresh = fresh,
      ROWSET_SORTED = True, ROWSET_NEXT = False, iBatch = 0\<rparr>"

definition sqlite3RowSetClear :: "RowSet \<Rightarrow> RowSet" where
  "sqlite3RowSetClear p =
     p\<lparr>pChunk := 0, nFresh := 0, pEntry := [], pLast := None, pForest := [],
       ROWSET_SORTED := True, ROWSET_NEXT := False\<rparr>"

text \<open>Allocation: whether there is a new entry, and the row set with one entry less to give.\<close>

definition rowSetEntryAlloc :: "(nat \<Rightarrow> bool) \<Rightarrow> RowSet \<Rightarrow> bool \<times> RowSet" where
  "rowSetEntryAlloc mem p =
     (if nFresh p = 0 then
        if \<not> mem (pChunk p) then (False, p)
        else (True, p\<lparr>pChunk := pChunk p + 1, nFresh := ROWSET_ENTRY_PER_CHUNK - 1\<rparr>)
      else (True, p\<lparr>nFresh := nFresh p - 1\<rparr>))"

definition sqlite3RowSetInsert :: "(nat \<Rightarrow> bool) \<Rightarrow> RowSet \<Rightarrow> int \<Rightarrow> RowSet" where
  "sqlite3RowSetInsert mem p rowid =
     (let (ok, p) = rowSetEntryAlloc mem p in
      if \<not> ok then p
      else
      let p = (case pLast p of
          Some l \<Rightarrow> (if rowid \<le> l then p\<lparr>ROWSET_SORTED := False\<rparr> else p)\<lparr>pEntry := pEntry p @ [rowid]\<rparr>
        | None \<Rightarrow> p\<lparr>pEntry := [rowid]\<rparr>)
      in p\<lparr>pLast := Some rowid\<rparr>)"

fun rowSetEntryMerge :: "int list \<Rightarrow> int list \<Rightarrow> int list" where
  "rowSetEntryMerge [] pB = pB"
| "rowSetEntryMerge pA [] = pA"
| "rowSetEntryMerge (a # pA) (b # pB) =
     (if a \<le> b then
        (if a < b then [a] else []) @ (if pA = [] then b # pB else rowSetEntryMerge pA (b # pB))
      else b # (if pB = [] then a # pA else rowSetEntryMerge (a # pA) pB))"

text \<open>The inner loop over the buckets from one position on; running past the last one is \<open>None\<close>.\<close>

fun put_bucket :: "int list list \<Rightarrow> int list \<Rightarrow> int list list option" where
  "put_bucket [] pIn = None"
| "put_bucket (b # bs) pIn =
     (if b \<noteq> [] then map_option (\<lambda>bs'. [] # bs') (put_bucket bs (rowSetEntryMerge b pIn))
      else Some (pIn # bs))"

fun fill_buckets :: "int list list \<Rightarrow> int list \<Rightarrow> int list list option" where
  "fill_buckets aBucket [] = Some aBucket"
| "fill_buckets aBucket (v # pNext) =
     (case put_bucket aBucket [v] of None \<Rightarrow> None | Some aBucket' \<Rightarrow> fill_buckets aBucket' pNext)"

fun merge_buckets :: "int list \<Rightarrow> int list list \<Rightarrow> int list" where
  "merge_buckets pIn [] = pIn"
| "merge_buckets pIn (b # bs) =
     (if b = [] then merge_buckets pIn bs
      else merge_buckets (if pIn \<noteq> [] then rowSetEntryMerge pIn b else b) bs)"

definition rowSetEntrySort :: "int list \<Rightarrow> int list option" where
  "rowSetEntrySort pIn =
     map_option (\<lambda>aBucket. merge_buckets (hd aBucket) (tl aBucket)) (fill_buckets (replicate 40 []) pIn)"

fun rowSetTreeToList :: "int tree \<Rightarrow> int list" where
  "rowSetTreeToList Leaf = []"
| "rowSetTreeToList (Node l v r) =
     (if l \<noteq> Leaf then rowSetTreeToList l @ [v] else [v]) @ (if r \<noteq> Leaf then rowSetTreeToList r else [])"

text \<open>A tree of at most the given depth from the head of the list, and the rest of the list.\<close>

fun rowSetNDeepTree :: "int list \<Rightarrow> nat \<Rightarrow> int tree \<times> int list" where
  "rowSetNDeepTree ppList 0 =
     (case ppList of [] \<Rightarrow> (Leaf, []) | v # rest \<Rightarrow> (Node Leaf v Leaf, rest))"
| "rowSetNDeepTree ppList (Suc d) =
     (case ppList of
        [] \<Rightarrow> (Leaf, [])
      | v # rest \<Rightarrow>
          if Suc d > 1 then
            let (pLeft, ppList) = rowSetNDeepTree ppList d in
            (case ppList of
               [] \<Rightarrow> (pLeft, [])
             | v # rest \<Rightarrow> let (pRight, ppList) = rowSetNDeepTree rest d in (Node pLeft v pRight, ppList))
          else (Node Leaf v Leaf, rest))"

lemma rowSetNDeepTree_shorter: "length (snd (rowSetNDeepTree xs d)) \<le> length xs"
proof (induction d arbitrary: xs)
  case (Suc d)
  obtain l ys where l: "rowSetNDeepTree xs d = (l, ys)" by fastforce
  show ?case
  proof (cases "xs = [] \<or> d = 0 \<or> ys = []")
    case False
    then obtain y zs where ys: "ys = y # zs" by (cases ys) auto
    have "length ys \<le> length xs" using Suc.IH [of xs] by (simp add: l)
    moreover obtain r ws where r: "rowSetNDeepTree zs d = (r, ws)" by fastforce
    moreover have "length ws \<le> length zs" using Suc.IH [of zs] by (simp add: r)
    moreover obtain x xs' where "xs = x # xs'" using False by (cases xs) auto
    ultimately show ?thesis using False l by (simp add: ys)
  next
    case True
    then show ?thesis using l by (cases xs) (auto split: prod.split)
  qed
qed (simp split: list.split)

function grow_tree :: "nat \<Rightarrow> int tree \<Rightarrow> int list \<Rightarrow> int tree" where
  "grow_tree iDepth p [] = p"
| "grow_tree iDepth p (v # pList) =
     (let (pRight, pList') = rowSetNDeepTree pList iDepth in grow_tree (iDepth + 1) (Node p v pRight) pList')"
  by pat_completeness auto
termination
  by (relation "measure (\<lambda>(d, p, xs). length xs)")
    (auto, metis le_imp_less_Suc rowSetNDeepTree_shorter snd_conv)

definition rowSetListToTree :: "int list \<Rightarrow> int tree" where
  "rowSetListToTree pList = (case pList of [] \<Rightarrow> Leaf | v # rest \<Rightarrow> grow_tree 1 (Node Leaf v Leaf) rest)"

text \<open>Taking the smallest entry out: the value, if there is one; running out of buckets is \<open>None\<close>.\<close>

definition sqlite3RowSetNext :: "RowSet \<Rightarrow> (RowSet \<times> int option) option" where
  "sqlite3RowSetNext p =
     map_option (\<lambda>p.
       case pEntry p of
         v # rest \<Rightarrow>
           let p = p\<lparr>pEntry := rest\<rparr>
           in (if rest = [] then sqlite3RowSetClear p else p, Some v)
       | [] \<Rightarrow> (p, None))
       (if \<not> ROWSET_NEXT p then
          map_option (\<lambda>es. p\<lparr>pEntry := es, ROWSET_SORTED := True, ROWSET_NEXT := True\<rparr>)
            (if \<not> ROWSET_SORTED p then rowSetEntrySort (pEntry p) else Some (pEntry p))
        else Some p)"

text \<open>
  The loop that puts a sorted list into the forest: it ends at the first empty tree, or
  (\<open>False\<close>) at the end of the forest with the list that is left.
\<close>

fun into_forest :: "int tree list \<Rightarrow> int list \<Rightarrow> int tree list \<times> int list \<times> bool" where
  "into_forest [] p = ([], p, False)"
| "into_forest (pTree # rest) p =
     (if pTree = Leaf then (rowSetListToTree p # rest, [], True)
      else
      let (rest', p', found) = into_forest rest (rowSetEntryMerge (rowSetTreeToList pTree) p)
      in (Leaf # rest', p', found))"

fun search_tree :: "int tree \<Rightarrow> int \<Rightarrow> bool" where
  "search_tree Leaf iRowid = False"
| "search_tree (Node l v r) iRowid =
     (if v < iRowid then search_tree r iRowid
      else if v > iRowid then search_tree l iRowid
      else True)"

fun search_forest :: "int tree list \<Rightarrow> int \<Rightarrow> bool" where
  "search_forest [] iRowid = False"
| "search_forest (pTree # rest) iRowid = (search_tree pTree iRowid \<or> search_forest rest iRowid)"

definition new_batch :: "(nat \<Rightarrow> bool) \<Rightarrow> RowSet \<Rightarrow> RowSet option" where
  "new_batch mem p =
     (if pEntry p \<noteq> [] then
        map_option (\<lambda>es.
          let (forest, rest, found) = into_forest (pForest p) es;
              p1 = p\<lparr>pForest := forest\<rparr>;
              p2 = (if found then p1
                    else
                    let (ok, q) = rowSetEntryAlloc mem p1
                    in if ok then q\<lparr>pForest := pForest q @ [rowSetListToTree rest]\<rparr> else q)
          in p2\<lparr>pEntry := [], pLast := None, ROWSET_SORTED := True\<rparr>)
          (if \<not> ROWSET_SORTED p then rowSetEntrySort (pEntry p) else Some (pEntry p))
      else Some p)"

definition sqlite3RowSetTest :: "(nat \<Rightarrow> bool) \<Rightarrow> RowSet \<Rightarrow> int \<Rightarrow> int \<Rightarrow> (RowSet \<times> bool) option" where
  "sqlite3RowSetTest mem pRowSet batch iRowid =
     map_option (\<lambda>p. (p, search_forest (pForest p) iRowid))
       (if batch \<noteq> iBatch pRowSet then map_option (\<lambda>p. p\<lparr>iBatch := batch\<rparr>) (new_batch mem pRowSet)
        else Some pRowSet)"

subsection \<open>Sorting\<close>

abbreviation strict :: "int list \<Rightarrow> bool" where
  "strict \<equiv> sorted_wrt (<)"

lemma set_merge: "set (rowSetEntryMerge xs ys) = set xs \<union> set ys"
proof (induction xs ys rule: rowSetEntryMerge.induct)
  case (3 a xs b ys)
  consider "a < b" | "a = b" | "b < a" by linarith
  then show ?case using 3 by cases auto
qed simp_all
lemma strict_merge: "strict xs \<Longrightarrow> strict ys \<Longrightarrow> strict (rowSetEntryMerge xs ys)"
proof (induction xs ys rule: rowSetEntryMerge.induct)
  case (3 a xs b ys)
  have as: "strict xs" "\<forall>x \<in> set xs. a < x" and bs: "strict ys" "\<forall>x \<in> set ys. b < x" using 3 by auto
  note IH = 3
  consider "a < b" | "a = b" | "b < a" by linarith
  then show ?case
  proof cases
    case 1
    then have "\<forall>x \<in> set (b # ys). a < x" using bs(2) by auto
    then show ?thesis using 1 as bs IH by (auto simp: set_merge)
  next
    case 2
    then show ?thesis using as bs IH by auto
  next
    case 3
    then have "\<forall>x \<in> set (a # xs). b < x" using as(2) by auto
    then show ?thesis using 3 as bs IH by (auto simp: set_merge)
  qed
qed auto

lemma merge_nonempty: "ys \<noteq> [] \<Longrightarrow> rowSetEntryMerge xs ys \<noteq> []"
  by (metis set_merge set_empty Un_empty)

text \<open>The buckets that are in use, read as a binary number.\<close>

fun in_use :: "int list list \<Rightarrow> nat" where
  "in_use [] = 0"
| "in_use (b # bs) = of_bool (b \<noteq> []) + 2 * in_use bs"

definition bucket_set :: "int list list \<Rightarrow> int set" where
  "bucket_set bs = (\<Union>b \<in> set bs. set b)"

lemma put_bucket_ok:
  assumes "in_use bs + 1 < 2 ^ length bs" "strict p" "p \<noteq> []" "\<forall>b \<in> set bs. strict b"
  shows "\<exists>bs'. put_bucket bs p = Some bs' \<and> length bs' = length bs \<and> in_use bs' = in_use bs + 1 \<and>
    (\<forall>b \<in> set bs'. strict b) \<and> bucket_set bs' = bucket_set bs \<union> set p"
  using assms
proof (induction bs arbitrary: p)
  case (Cons b bs)
  show ?case
  proof (cases "b = []")
    case True
    then show ?thesis using Cons.prems by (auto simp: bucket_set_def)
  next
    case False
    have "strict (rowSetEntryMerge b p)" using Cons.prems by (simp add: strict_merge)
    moreover have "rowSetEntryMerge b p \<noteq> []" using Cons.prems(3) by (rule merge_nonempty)
    ultimately obtain bs' where bs': "put_bucket bs (rowSetEntryMerge b p) = Some bs'" "length bs' = length bs"
        "in_use bs' = in_use bs + 1" "\<forall>b \<in> set bs'. strict b"
        "bucket_set bs' = bucket_set bs \<union> set (rowSetEntryMerge b p)"
      using Cons.IH [of "rowSetEntryMerge b p"] Cons.prems(1,4) False by auto
    then show ?thesis using False by (auto simp: bucket_set_def set_merge)
  qed
qed simp

lemma fill_buckets_ok:
  assumes "in_use bs + length xs < 2 ^ length bs" "\<forall>b \<in> set bs. strict b"
  shows "\<exists>bs'. fill_buckets bs xs = Some bs' \<and> length bs' = length bs \<and> (\<forall>b \<in> set bs'. strict b) \<and>
    bucket_set bs' = bucket_set bs \<union> set xs"
  using assms
proof (induction xs arbitrary: bs)
  case (Cons x xs)
  obtain bs1 where bs1: "put_bucket bs [x] = Some bs1" "length bs1 = length bs" "in_use bs1 = in_use bs + 1"
      "\<forall>b \<in> set bs1. strict b" "bucket_set bs1 = bucket_set bs \<union> {x}"
    using put_bucket_ok [of bs "[x]"] Cons.prems by auto
  then show ?case using Cons.IH [of bs1] Cons.prems(1) by auto
qed simp

lemma merge_buckets_ok:
  assumes "strict p" "\<forall>b \<in> set bs. strict b"
  shows "strict (merge_buckets p bs) \<and> set (merge_buckets p bs) = set p \<union> bucket_set bs"
  using assms
  by (induction bs arbitrary: p) (auto simp: bucket_set_def strict_merge set_merge)

lemma sort_ok:
  assumes "length xs < 2 ^ 40"
  shows "rowSetEntrySort xs = Some (sorted_list_of_set (set xs))"
proof -
  have "in_use (replicate n []) = 0" for n by (induction n) auto
  then obtain bs where bs: "fill_buckets (replicate 40 []) xs = Some bs" "length bs = 40" "\<forall>b \<in> set bs. strict b"
      "bucket_set bs = set xs"
    using fill_buckets_ok [of "replicate 40 []" xs] assms by (auto simp: bucket_set_def)
  obtain b bs' where b: "bs = b # bs'" using bs(2) by (cases bs) auto
  have "strict (merge_buckets b bs') \<and> set (merge_buckets b bs') = set xs"
    using merge_buckets_ok [of b bs'] bs(3,4) by (auto simp: b bucket_set_def)
  then have "merge_buckets b bs' = sorted_list_of_set (set xs)"
    by (intro strict_sorted_equal) auto
  then show ?thesis using bs(1) b by (simp add: rowSetEntrySort_def)
qed

subsection \<open>Lists and trees\<close>

lemma tree_to_list: "rowSetTreeToList t = inorder t"
  by (induction t) auto

lemma deep_tree_Suc:
  "xs \<noteq> [] \<Longrightarrow> d \<noteq> 0 \<Longrightarrow> rowSetNDeepTree xs (Suc d) =
    (let (l, ys) = rowSetNDeepTree xs d in
     case ys of [] \<Rightarrow> (l, []) | v # rest \<Rightarrow> let (r, zs) = rowSetNDeepTree rest d in (Node l v r, zs))"
  by (cases xs) simp_all

lemma deep_tree:
  assumes "rowSetNDeepTree xs d = (t, rest)"
  shows "xs = inorder t @ rest \<and> height t \<le> max d 1 \<and> (rest \<noteq> [] \<longrightarrow> Suc (size t) = 2 ^ max d 1)"
  using assms
proof (induction d arbitrary: xs t rest)
  case 0
  then show ?case by (cases xs) auto
next
  case (Suc d)
  show ?case
  proof (cases "xs = [] \<or> d = 0")
    case True
    then show ?thesis using Suc.prems by (cases xs) auto
  next
    case False
    obtain l ys where l: "rowSetNDeepTree xs d = (l, ys)" by fastforce
    note IH_l = Suc.IH [OF l]
    have m: "max d (Suc 0) = d" "max (Suc d) (Suc 0) = Suc d" using False by simp_all
    show ?thesis
    proof (cases ys)
      case Nil
      then have "t = l" "rest = []" using Suc.prems l deep_tree_Suc [of xs d] False
        by (simp_all del: rowSetNDeepTree.simps)
      then show ?thesis using IH_l Nil by (simp add: m)
    next
      case (Cons y zs)
      obtain r ws where r: "rowSetNDeepTree zs d = (r, ws)" by fastforce
      have "t = Node l y r" "rest = ws"
        using Suc.prems l r Cons deep_tree_Suc [of xs d] False by (simp_all del: rowSetNDeepTree.simps)
      then show ?thesis using IH_l Suc.IH [OF r] Cons by (auto simp: m)
    qed
  qed
qed

definition shallow :: "int tree \<Rightarrow> bool" where
  "shallow t \<longleftrightarrow> (\<forall>h. size t < 2 ^ h \<longrightarrow> height t \<le> h)"

lemma grow_tree_ok:
  assumes "height t \<le> d" "Suc (size t) = 2 ^ d" "1 \<le> d"
  shows "inorder (grow_tree d t xs) = inorder t @ xs \<and> shallow (grow_tree d t xs)"
  using assms
proof (induction d t xs rule: grow_tree.induct)
  case (1 d t)
  have "d \<le> h" if "size t < 2 ^ h" for h
  proof -
    have "(2 :: nat) ^ d \<le> 2 ^ h" using that "1.prems"(2) by linarith
    then show ?thesis by (rule power_le_imp_le_exp [rotated]) simp
  qed
  then show ?case using "1.prems"(1) by (auto simp: shallow_def intro: le_trans)
next
  case (2 d t v xs)
  obtain r ys where r: "rowSetNDeepTree xs d = (r, ys)" by fastforce
  note deep = deep_tree [OF r]
  have h: "height (Node t v r) \<le> Suc d" using deep "2.prems"(1,3) by (simp add: max_def split: if_splits)
  show ?case
  proof (cases "ys = []")
    case True
    have "Suc d \<le> k" if "size (Node t v r) < 2 ^ k" for k
    proof -
      have "size (Node t v r) = size t + size r + 1" by simp
      then have "(2 :: nat) ^ d < 2 ^ k" using that "2.prems"(2) by linarith
      then show ?thesis using power_less_imp_less_exp [of "2 :: nat" d k] by simp
    qed
    then have "shallow (Node t v r)" using h unfolding shallow_def by (meson le_trans)
    then show ?thesis using r True deep by simp
  next
    case False
    then have "Suc (size (Node t v r)) = 2 ^ (d + 1)" using deep "2.prems"(2,3) by (simp add: max_def split: if_splits)
    then show ?thesis using "2.IH" [OF r [symmetric] refl] r deep h by simp
  qed
qed

lemma list_to_tree: "inorder (rowSetListToTree xs) = xs" "shallow (rowSetListToTree xs)"
proof -
  have "inorder (rowSetListToTree xs) = xs \<and> shallow (rowSetListToTree xs)"
    using grow_tree_ok [of "Node Leaf (hd xs) Leaf" 1 "tl xs"]
    by (cases xs) (simp_all add: rowSetListToTree_def shallow_def)
  then show "inorder (rowSetListToTree xs) = xs" "shallow (rowSetListToTree xs)" by simp_all
qed

lemma search_tree_iff: "strict (inorder t) \<Longrightarrow> search_tree t x \<longleftrightarrow> x \<in> set_tree t"
proof (induction t)
  case (Node l v r)
  then have "strict (inorder l)" "strict (inorder r)" "\<forall>y \<in> set_tree l. y < v" "\<forall>y \<in> set_tree r. v < y"
    by (auto simp: sorted_wrt_append)
  then show ?case using Node.IH by (cases x v rule: linorder_cases) auto
qed simp

subsection \<open>The forest\<close>

definition visible :: "RowSet \<Rightarrow> int set" where
  "visible p = (\<Union>t \<in> set (pForest p). set_tree t)"

definition tree_ok :: "int tree \<Rightarrow> bool" where
  "tree_ok t \<longleftrightarrow> strict (inorder t) \<and> shallow t"

lemma tree_ok_list: "strict xs \<Longrightarrow> tree_ok (rowSetListToTree xs)" "tree_ok Leaf"
  by (simp_all add: tree_ok_def list_to_tree) (simp add: shallow_def)

lemma set_tree_list: "set_tree (rowSetListToTree xs) = set xs"
  by (metis list_to_tree(1) set_inorder)

lemma search_forest_iff:
  "\<forall>t \<in> set ts. tree_ok t \<Longrightarrow> search_forest ts x \<longleftrightarrow> (\<exists>t \<in> set ts. x \<in> set_tree t)"
  by (induction ts) (auto simp: search_tree_iff tree_ok_def)

lemma into_forest_ok:
  assumes "into_forest ts xs = (ts', rest, found)" "strict xs" "\<forall>t \<in> set ts. tree_ok t"
  shows "(\<forall>t \<in> set ts'. tree_ok t) \<and> strict rest \<and>
    (\<Union>t \<in> set ts'. set_tree t) \<union> (if found then {} else set rest) = (\<Union>t \<in> set ts. set_tree t) \<union> set xs"
  using assms
proof (induction ts arbitrary: xs ts' rest found)
  case (Cons t ts)
  show ?case
  proof (cases "t = Leaf")
    case True
    then show ?thesis using Cons.prems by (auto simp: tree_ok_list set_tree_list)
  next
    case False
    let ?xs = "rowSetEntryMerge (rowSetTreeToList t) xs"
    obtain ts1 r1 f1 where i: "into_forest ts ?xs = (ts1, r1, f1)" by (cases "into_forest ts ?xs") auto
    have "strict ?xs" using Cons.prems by (intro strict_merge) (auto simp: tree_to_list tree_ok_def)
    note IH = Cons.IH [OF i this]
    have "set ?xs = set_tree t \<union> set xs" by (simp add: set_merge tree_to_list)
    moreover have "ts' = Leaf # ts1" "rest = r1" "found = f1" using Cons.prems(1) False i by auto
    moreover have "\<forall>t \<in> set ts. tree_ok t" using Cons.prems(3) by simp
    ultimately show ?thesis using IH by (cases f1) (simp_all add: tree_ok_list Un_assoc Un_commute Un_left_commute)
  qed
qed auto

definition rowset_ok :: "RowSet \<Rightarrow> bool" where
  "rowset_ok p \<longleftrightarrow> (\<forall>t \<in> set (pForest p). tree_ok t) \<and> (ROWSET_SORTED p \<longrightarrow> strict (pEntry p)) \<and>
     pLast p = (if pEntry p = [] then None else Some (last (pEntry p))) \<and> \<not> ROWSET_NEXT p"

lemma alloc_ok:
  "\<forall>k. mem k \<Longrightarrow> \<exists>q. rowSetEntryAlloc mem p = (True, q) \<and> pEntry q = pEntry p \<and> pLast q = pLast p \<and>
    pForest q = pForest p \<and> ROWSET_SORTED q = ROWSET_SORTED p \<and> ROWSET_NEXT q = ROWSET_NEXT p \<and> iBatch q = iBatch p"
  by (simp add: rowSetEntryAlloc_def)

lemma insert_ok:
  assumes "rowset_ok p" "\<forall>k. mem k"
  shows "rowset_ok (sqlite3RowSetInsert mem p x) \<and> pEntry (sqlite3RowSetInsert mem p x) = pEntry p @ [x] \<and>
    visible (sqlite3RowSetInsert mem p x) = visible p \<and> iBatch (sqlite3RowSetInsert mem p x) = iBatch p"
proof -
  obtain q where q: "rowSetEntryAlloc mem p = (True, q)" "pEntry q = pEntry p" "pLast q = pLast p"
      "pForest q = pForest p" "ROWSET_SORTED q = ROWSET_SORTED p" "ROWSET_NEXT q = ROWSET_NEXT p" "iBatch q = iBatch p"
    using alloc_ok [OF assms(2)] by blast
  have "strict (es @ [x])" if "strict es" "es = [] \<or> last es < x" for es :: "int list"
  proof -
    have "\<forall>y \<in> set es. y < x"
      using that by (cases es rule: rev_cases) (auto simp: sorted_wrt_append)
    then show ?thesis using that(1) by (simp add: sorted_wrt_append)
  qed
  then show ?thesis using assms(1)
    by (auto simp: sqlite3RowSetInsert_def q rowset_ok_def visible_def not_le split: if_splits)
qed

lemma new_batch_ok:
  assumes "rowset_ok p" "\<forall>k. mem k" "length (pEntry p) < 2 ^ 40"
  shows "\<exists>q. new_batch mem p = Some q \<and> rowset_ok q \<and> pEntry q = [] \<and> visible q = visible p \<union> set (pEntry p) \<and>
    iBatch q = iBatch p"
proof (cases "pEntry p = []")
  case True
  then show ?thesis using assms(1) by (simp add: new_batch_def)
next
  case False
  obtain es where es: "(if \<not> ROWSET_SORTED p then rowSetEntrySort (pEntry p) else Some (pEntry p)) = Some es"
      "strict es" "set es = set (pEntry p)"
    using sort_ok [OF assms(3)] assms(1) by (cases "ROWSET_SORTED p") (auto simp: rowset_ok_def)
  obtain f r found where i: "into_forest (pForest p) es = (f, r, found)" by (cases "into_forest (pForest p) es") auto
  have fo: "\<forall>t \<in> set (pForest p). tree_ok t" using assms(1) by (simp add: rowset_ok_def)
  note i_ok = into_forest_ok [OF i es(2) fo]
  obtain q where q: "rowSetEntryAlloc mem (p\<lparr>pForest := f\<rparr>) = (True, q)" "pForest q = f"
      "ROWSET_NEXT q = ROWSET_NEXT p" "iBatch q = iBatch p"
    using alloc_ok [OF assms(2), of "p\<lparr>pForest := f\<rparr>"] by auto
  have nb: "new_batch mem p = Some ((if found then p\<lparr>pForest := f\<rparr> else q\<lparr>pForest := f @ [rowSetListToTree r]\<rparr>)
      \<lparr>pEntry := [], pLast := None, ROWSET_SORTED := True\<rparr>)"
    using False es(1) i q(1,2) by (simp add: new_batch_def)
  show ?thesis
  proof (cases found)
    case True
    then show ?thesis using nb i_ok es(3) assms(1) by (simp add: rowset_ok_def visible_def)
  next
    case False
    then show ?thesis
      using nb i_ok es(3) assms(1) q by (auto simp: rowset_ok_def visible_def tree_ok_list set_tree_list)
  qed
qed

subsection \<open>Batches\<close>

datatype rowset_op = Insert int | Test int int

fun run_rowset :: "(nat \<Rightarrow> bool) \<Rightarrow> RowSet \<Rightarrow> rowset_op list \<Rightarrow> bool list option" where
  "run_rowset mem p [] = Some []"
| "run_rowset mem p (Insert x # ops) = run_rowset mem (sqlite3RowSetInsert mem p x) ops"
| "run_rowset mem p (Test b x # ops) =
     (case sqlite3RowSetTest mem p b x of
        None \<Rightarrow> None
      | Some (p', r) \<Rightarrow> map_option (\<lambda>rs. r # rs) (run_rowset mem p' ops))"

text \<open>The specification: the numbers of former batches, those of this one, and its number.\<close>

fun spec_rowset :: "int set \<Rightarrow> int set \<Rightarrow> int \<Rightarrow> rowset_op list \<Rightarrow> bool list" where
  "spec_rowset old new b [] = []"
| "spec_rowset old new b (Insert x # ops) = spec_rowset old (insert x new) b ops"
| "spec_rowset old new b (Test b' x # ops) =
     (if b' \<noteq> b then (x \<in> old \<union> new) # spec_rowset (old \<union> new) {} b' ops
      else (x \<in> old) # spec_rowset old new b ops)"

lemma run_rowset_ok:
  assumes "rowset_ok p" "\<forall>k. mem k" "length (pEntry p) + length ops < 2 ^ 40"
  shows "run_rowset mem p ops = Some (spec_rowset (visible p) (set (pEntry p)) (iBatch p) ops)"
  using assms(1,3)
proof (induction ops arbitrary: p)
  case (Cons x ops)
  show ?case
  proof (cases x)
    case (Insert v)
    then show ?thesis using insert_ok [OF Cons.prems(1) assms(2), of v] Cons.IH [of "sqlite3RowSetInsert mem p v"] Cons.prems(2)
      by simp
  next
    case (Test b v)
    show ?thesis
    proof (cases "b = iBatch p")
      case True
      have "search_forest (pForest p) v \<longleftrightarrow> v \<in> visible p"
        using Cons.prems(1) by (auto simp: rowset_ok_def search_forest_iff visible_def)
      then show ?thesis using Cons.IH [OF Cons.prems(1)] Cons.prems(2) Test True by (simp add: sqlite3RowSetTest_def)
    next
      case False
      obtain q where q: "new_batch mem p = Some q" "rowset_ok q" "pEntry q = []"
          "visible q = visible p \<union> set (pEntry p)"
        using new_batch_ok [OF Cons.prems(1) assms(2)] Cons.prems(2) by auto
      let ?q = "q\<lparr>iBatch := b\<rparr>"
      have ok: "rowset_ok ?q" "visible ?q = visible p \<union> set (pEntry p)"
        using q(2,4) by (simp_all add: rowset_ok_def visible_def)
      have "search_forest (pForest q) v \<longleftrightarrow> v \<in> visible q"
        using q(2) by (auto simp: rowset_ok_def search_forest_iff visible_def)
      then show ?thesis using Cons.IH [OF ok(1)] ok(2) Cons.prems(2) q Test False by (simp add: sqlite3RowSetTest_def)
    qed
  qed
qed simp

lemma init_ok: "rowset_ok (sqlite3RowSetInit n)" "visible (sqlite3RowSetInit n) = {}" "pEntry (sqlite3RowSetInit n) = []"
    "iBatch (sqlite3RowSetInit n) = 0"
  by (simp_all add: rowset_ok_def visible_def sqlite3RowSetInit_def)

text \<open>C29: in any sequence of insertions and tests on a new row set, while there is memory,
  every test answers whether its number was inserted before the last change of the batch
  number, whatever the order of insertion, the duplicates, and the merging and rebalancing of
  the forest on the way; the sort never runs out of its 40 buckets below \<open>2 ^ 40\<close> entries.\<close>

theorem rowset_batches:
  assumes "\<forall>k. mem k" "length ops < 2 ^ 40"
  shows "run_rowset mem (sqlite3RowSetInit n) ops = Some (spec_rowset {} {} 0 ops)"
  using run_rowset_ok [OF init_ok(1) assms(1), where ops = ops and n1 = n] assms(2) by (simp add: init_ok)

theorem rowset_batches_witness:
  "run_rowset (\<lambda>_. True) (sqlite3RowSetInit 3) [Insert 5, Insert 3, Test 1 3, Insert 4, Test 1 4, Test 2 4] =
     Some [True, False, True]"
  using rowset_batches [of "\<lambda>_. True" "[Insert 5, Insert 3, Test 1 3, Insert 4, Test 1 4, Test 2 4]" 3] by simp

subsection \<open>Draining\<close>

text \<open>Taking entries out until there is none.\<close>

fun drain :: "nat \<Rightarrow> RowSet \<Rightarrow> int list option" where
  "drain 0 p = None"
| "drain (Suc fuel) p =
     (case sqlite3RowSetNext p of
        None \<Rightarrow> None
      | Some (p', None) \<Rightarrow> Some []
      | Some (p', Some v) \<Rightarrow> map_option (\<lambda>vs. v # vs) (drain fuel p'))"

lemma drain_next:
  assumes "ROWSET_NEXT p" "length (pEntry p) \<le> fuel"
  shows "drain (Suc fuel) p = Some (pEntry p)"
  using assms
proof (induction "pEntry p" arbitrary: p fuel)
  case Nil
  then show ?case by (simp add: sqlite3RowSetNext_def split: list.split)
next
  case (Cons v rest)
  obtain f where f: "fuel = Suc f" using Cons.prems(2) Cons.hyps(2) by (cases fuel) auto
  have entries: "pEntry p = v # rest" using Cons.hyps(2) by simp
  show ?case
  proof (cases rest)
    case Nil
    then show ?thesis using entries Cons.prems f
      by (simp add: sqlite3RowSetNext_def sqlite3RowSetClear_def Let_def)
  next
    case (Cons w ws)
    have "drain fuel (p\<lparr>pEntry := rest\<rparr>) = Some rest"
      using Cons.hyps(1) [of "p\<lparr>pEntry := rest\<rparr>" f] Cons.prems entries f by simp
    then show ?thesis using entries Cons Cons.prems by (simp add: sqlite3RowSetNext_def)
  qed
qed

lemma inserts_ok:
  assumes "rowset_ok p" "\<forall>k. mem k"
  shows "rowset_ok (foldl (sqlite3RowSetInsert mem) p xs) \<and> pEntry (foldl (sqlite3RowSetInsert mem) p xs) = pEntry p @ xs"
  using assms(1)
  by (induction xs arbitrary: p) (auto simp: insert_ok assms(2))

text \<open>C30: once numbers have been inserted into a new row set, in any order and with any
  duplicates, taking the smallest entry out again and again gives each of them once, in
  ascending order, and then reports that the set is empty.\<close>

theorem rowset_drains_sorted:
  assumes "\<forall>k. mem k" "length xs < 2 ^ 40"
  shows "drain (Suc (length xs)) (foldl (sqlite3RowSetInsert mem) (sqlite3RowSetInit n) xs) =
    Some (sorted_list_of_set (set xs))"
proof -
  let ?p = "foldl (sqlite3RowSetInsert mem) (sqlite3RowSetInit n) xs"
  have p: "rowset_ok ?p" "pEntry ?p = xs" using inserts_ok [OF init_ok(1) assms(1), of n xs] by (simp_all add: init_ok)
  have "strict xs \<Longrightarrow> xs = sorted_list_of_set (set xs)" by (intro strict_sorted_equal) auto
  then have es: "(if \<not> ROWSET_SORTED ?p then rowSetEntrySort (pEntry ?p) else Some (pEntry ?p)) = Some (sorted_list_of_set (set xs))"
    using sort_ok [OF assms(2)] p by (simp add: rowset_ok_def)
  let ?q = "?p\<lparr>pEntry := sorted_list_of_set (set xs), ROWSET_SORTED := True, ROWSET_NEXT := True\<rparr>"
  have "sqlite3RowSetNext ?p = sqlite3RowSetNext ?q"
    using p(1) es by (simp add: sqlite3RowSetNext_def rowset_ok_def)
  then have "drain (Suc (length xs)) ?p = drain (Suc (length xs)) ?q" by simp
  also have "\<dots> = Some (pEntry ?q)" by (rule drain_next) (simp_all add: card_length)
  finally show ?thesis by simp
qed

theorem rowset_drains_sorted_witness:
  "drain (Suc (length [7, -2, 7, 3 :: int])) (foldl (sqlite3RowSetInsert (\<lambda>_. True)) (sqlite3RowSetInit 0) [7, -2, 7, 3]) =
     Some [-2, 3, 7]"
proof -
  have "sorted_list_of_set (set [7, -2, 7, 3 :: int]) = [-2, 3, 7]" by code_simp
  then show ?thesis
    using rowset_drains_sorted [of "\<lambda>_. True" "[7, -2, 7, 3]" 0, OF allI [OF TrueI]] by (simp only: list.size) simp
qed

end
