(* ===== verification/Sq_Hash.thy ===== *)
theory Sq_Hash
  imports Sq_Text
begin

text \<open>
  The hash tables of \<^verbatim>\<open>src/sqlite3.c\<close> (hash.c): from names, compared without
  regard to case, to data pointers that are not null. All elements are on one doubly linked
  list; a bucket is a number of elements of it that lie next to each other, so that insertion
  relinks the list in the middle. The elements are kept in a heap by address, and following
  a pointer that is not there is \<open>None\<close>. Memory is a parameter: the address of a new element,
  if there is memory for it, and the number of buckets an allocation has room for. Counts
  are \<open>nat\<close>.
\<close>

subsection \<open>The data\<close>

record 'd HashElem =
  enext :: "nat option"
  eprev :: "nat option"
  edata :: "'d option"
  pKey :: string

record ht_entry =
  bcount :: nat
  chain :: "nat option"

record 'd Hash =
  htsize :: nat
  hcount :: nat
  first :: "nat option"
  ht :: "ht_entry list option"
  heap :: "nat \<Rightarrow> 'd HashElem option"

definition sqlite3HashInit :: "(nat \<Rightarrow> 'd HashElem option) \<Rightarrow> 'd Hash" where
  "sqlite3HashInit hp = \<lparr>htsize = 0, hcount = 0, first = None, ht = None, heap = hp\<rparr>"

definition set_elem :: "nat \<Rightarrow> ('d HashElem \<Rightarrow> 'd HashElem) \<Rightarrow> 'd Hash \<Rightarrow> 'd Hash option" where
  "set_elem a f H =
     (case heap H a of None \<Rightarrow> None | Some e \<Rightarrow> Some (H\<lparr>heap := (heap H)(a \<mapsto> f e)\<rparr>))"

subsection \<open>The operations\<close>

partial_function (option) free_all :: "'d Hash \<Rightarrow> nat option \<Rightarrow> 'd Hash option" where
  "free_all H elem =
     (case elem of
        None \<Rightarrow> Some H
      | Some a \<Rightarrow> Option.bind (heap H a) (\<lambda>e. free_all (H\<lparr>heap := (heap H)(a := None)\<rparr>) (enext e)))"

definition sqlite3HashClear :: "'d Hash \<Rightarrow> 'd Hash option" where
  "sqlite3HashClear H =
     map_option (\<lambda>H. H\<lparr>hcount := 0\<rparr>) (free_all (H\<lparr>first := None, ht := None, htsize := 0\<rparr>) (first H))"

definition insertElement :: "'d Hash \<Rightarrow> nat option \<Rightarrow> nat \<Rightarrow> 'd Hash option" where
  "insertElement H pEntry pNew =
     (let pHead = (case (pEntry, ht H) of
            (Some h, Some bs) \<Rightarrow> if bcount (bs ! h) \<noteq> 0 then chain (bs ! h) else None
          | _ \<Rightarrow> None);
          H = (case pEntry of
            None \<Rightarrow> H
          | Some h \<Rightarrow> H\<lparr>ht := map_option (\<lambda>bs. bs[h := \<lparr>bcount = bcount (bs ! h) + 1, chain = Some pNew\<rparr>]) (ht H)\<rparr>)
      in
      case pHead of
        Some pH \<Rightarrow>
          Option.bind (set_elem pNew (\<lambda>e. e\<lparr>enext := Some pH\<rparr>) H) (\<lambda>H.
          Option.bind (heap H pH) (\<lambda>eh.
          Option.bind (set_elem pNew (\<lambda>e. e\<lparr>eprev := eprev eh\<rparr>) H) (\<lambda>H.
          Option.bind (case eprev eh of
              Some q \<Rightarrow> set_elem q (\<lambda>e. e\<lparr>enext := Some pNew\<rparr>) H
            | None \<Rightarrow> Some (H\<lparr>first := Some pNew\<rparr>)) (\<lambda>H.
          set_elem pH (\<lambda>e. e\<lparr>eprev := Some pNew\<rparr>) H))))
      | None \<Rightarrow>
          Option.bind (set_elem pNew (\<lambda>e. e\<lparr>enext := first H\<rparr>) H) (\<lambda>H.
          Option.bind (case first H of
              Some f \<Rightarrow> set_elem f (\<lambda>e. e\<lparr>eprev := Some pNew\<rparr>) H
            | None \<Rightarrow> Some H) (\<lambda>H.
          map_option (\<lambda>H. H\<lparr>first := Some pNew\<rparr>) (set_elem pNew (\<lambda>e. e\<lparr>eprev := None\<rparr>) H))))"

definition bucket_of :: "string \<Rightarrow> nat \<Rightarrow> nat" where
  "bucket_of key n = unat (strHash key) mod n"

partial_function (option) rehash_loop :: "'d Hash \<Rightarrow> nat option \<Rightarrow> 'd Hash option" where
  "rehash_loop H elem =
     (case elem of
        None \<Rightarrow> Some H
      | Some a \<Rightarrow>
          Option.bind (heap H a) (\<lambda>e.
          Option.bind (insertElement H (Some (bucket_of (pKey e) (htsize H))) a) (\<lambda>H'.
          rehash_loop H' (enext e))))"

definition SQLITE_MALLOC_SOFT_LIMIT :: nat where "SQLITE_MALLOC_SOFT_LIMIT = 1024"

text \<open>The number of buckets an allocation of the wanted number has room for, if it succeeds.\<close>

definition rehash :: "(nat \<Rightarrow> nat option) \<Rightarrow> 'd Hash \<Rightarrow> nat \<Rightarrow> ('d Hash \<times> bool) option" where
  "rehash room H new_size =
     (let new_size = (if new_size * 16 > SQLITE_MALLOC_SOFT_LIMIT then SQLITE_MALLOC_SOFT_LIMIT div 16 else new_size) in
      if new_size = htsize H then Some (H, False)
      else
      case room new_size of
        None \<Rightarrow> Some (H, False)
      | Some n \<Rightarrow>
          map_option (\<lambda>H. (H, True))
            (rehash_loop (H\<lparr>ht := Some (replicate n \<lparr>bcount = 0, chain = None\<rparr>), htsize := n, first := None\<rparr>) (first H)))"

fun find_loop :: "'d Hash \<Rightarrow> string \<Rightarrow> nat \<Rightarrow> nat option \<Rightarrow> nat option option" where
  "find_loop H key 0 elem = Some None"
| "find_loop H key (Suc count) elem =
     (case elem of
        None \<Rightarrow> None
      | Some a \<Rightarrow>
          Option.bind (heap H a) (\<lambda>e.
          if sqlite3StrICmp (pKey e) key = 0 then Some (Some a) else find_loop H key count (enext e)))"

text \<open>The hash and the element found; no element is the null element, whose data is null.\<close>

definition findElementWithHash :: "'d Hash \<Rightarrow> string \<Rightarrow> (nat \<times> nat option) option" where
  "findElementWithHash H key =
     (case ht H of
        Some bs \<Rightarrow>
          let h = bucket_of key (htsize H)
          in map_option (\<lambda>r. (h, r)) (find_loop H key (bcount (bs ! h)) (chain (bs ! h)))
      | None \<Rightarrow> map_option (\<lambda>r. (0, r)) (find_loop H key (hcount H) (first H)))"

definition removeElementGivenHash :: "'d Hash \<Rightarrow> nat \<Rightarrow> nat \<Rightarrow> 'd Hash option" where
  "removeElementGivenHash H elem h =
     Option.bind (heap H elem) (\<lambda>e.
     Option.bind (case eprev e of
         Some q \<Rightarrow> set_elem q (\<lambda>x. x\<lparr>enext := enext e\<rparr>) H
       | None \<Rightarrow> Some (H\<lparr>first := enext e\<rparr>)) (\<lambda>H.
     Option.bind (case enext e of
         Some q \<Rightarrow> set_elem q (\<lambda>x. x\<lparr>eprev := eprev e\<rparr>) H
       | None \<Rightarrow> Some H) (\<lambda>H.
     let H = H\<lparr>ht := map_option (\<lambda>bs.
           bs[h := \<lparr>bcount = bcount (bs ! h) - 1,
                    chain = (if chain (bs ! h) = Some elem then enext e else chain (bs ! h))\<rparr>]) (ht H)\<rparr>;
         H = H\<lparr>heap := (heap H)(elem := None), hcount := hcount H - 1\<rparr>
     in if hcount H = 0 then sqlite3HashClear H else Some H)))"

definition elem_data :: "'d Hash \<Rightarrow> nat option \<Rightarrow> 'd option option" where
  "elem_data H elem = (case elem of None \<Rightarrow> Some None | Some a \<Rightarrow> map_option edata (heap H a))"

definition sqlite3HashFind :: "'d Hash \<Rightarrow> string \<Rightarrow> 'd option option" where
  "sqlite3HashFind H key = Option.bind (findElementWithHash H key) (\<lambda>(h, elem). elem_data H elem)"

text \<open>The end of an insertion: a new element with a new key, at the address \<open>a\<close>.\<close>

definition add_element :: "(nat \<Rightarrow> nat option) \<Rightarrow> nat \<Rightarrow> nat \<Rightarrow> 'd Hash \<Rightarrow> string \<Rightarrow> 'd option \<Rightarrow> 'd Hash option" where
  "add_element room a h H key data =
     (let H = H\<lparr>heap := (heap H)(a \<mapsto> \<lparr>enext = None, eprev = None, edata = data, pKey = key\<rparr>),
                hcount := hcount H + 1\<rparr>
      in
      Option.bind
        (if hcount H \<ge> 10 \<and> hcount H > 2 * htsize H then
           map_option (\<lambda>(H, resized). (H, if resized then bucket_of key (htsize H) else h)) (rehash room H (hcount H * 2))
         else Some (H, h)) (\<lambda>(H, h).
      insertElement H (if ht H \<noteq> None then Some h else None) a))"

definition sqlite3HashInsert ::
    "(nat \<Rightarrow> nat option) \<Rightarrow> nat option \<Rightarrow> 'd Hash \<Rightarrow> string \<Rightarrow> 'd option \<Rightarrow> ('d Hash \<times> 'd option) option" where
  "sqlite3HashInsert room new_elem H key data =
     Option.bind (findElementWithHash H key) (\<lambda>(h, elem).
     Option.bind (elem_data H elem) (\<lambda>old_data.
     if old_data \<noteq> None then
       map_option (\<lambda>H. (H, old_data))
         (if data = None then removeElementGivenHash H (the elem) h
          else set_elem (the elem) (\<lambda>e. e\<lparr>edata := data, pKey := key\<rparr>) H)
     else if data = None then Some (H, None)
     else
     case new_elem of
       None \<Rightarrow> Some (H, data)
     | Some a \<Rightarrow> map_option (\<lambda>H. (H, None)) (add_element room a h H key data)))"

subsection \<open>Lists in the heap\<close>

definition head_or :: "nat list \<Rightarrow> nat option \<Rightarrow> nat option" where
  "head_or xs n = (case xs of [] \<Rightarrow> n | a # _ \<Rightarrow> Some a)"

definition last_or :: "nat list \<Rightarrow> nat option \<Rightarrow> nat option" where
  "last_or xs p = (if xs = [] then p else Some (last xs))"

lemma head_or_simps [simp]: "head_or [] n = n" "head_or (a # xs) n = Some a"
  "head_or (xs @ ys) n = head_or xs (head_or ys n)"
  by (simp_all add: head_or_def split: list.split)

lemma last_or_simps [simp]: "last_or [] p = p" "last_or (xs @ [a]) p = Some a" "last_or (a # xs) p = last_or xs (Some a)"
  by (simp_all add: last_or_def)

fun linked :: "(nat \<Rightarrow> 'd HashElem option) \<Rightarrow> nat option \<Rightarrow> nat list \<Rightarrow> nat option \<Rightarrow> bool" where
  "linked hp p [] n = True"
| "linked hp p (a # xs) n =
     (\<exists>e. hp a = Some e \<and> eprev e = p \<and> enext e = head_or xs n \<and> linked hp (Some a) xs n)"

lemma linked_append [simp]:
  "linked hp p (xs @ ys) n \<longleftrightarrow> linked hp p xs (head_or ys n) \<and> linked hp (last_or xs p) ys n"
  by (induction xs arbitrary: p) auto

lemma linked_frame: "(\<And>a. a \<in> set xs \<Longrightarrow> hp' a = hp a) \<Longrightarrow> linked hp p xs n \<Longrightarrow> linked hp' p xs n"
  by (induction xs arbitrary: p) auto

lemma linked_upd [simp]: "a \<notin> set xs \<Longrightarrow> linked (hp(a := v)) p xs n \<longleftrightarrow> linked hp p xs n"
  by (metis linked_frame fun_upd_apply)

text \<open>The keys and data of a heap, which relinking leaves alone.\<close>

definition contents :: "(nat \<Rightarrow> 'd HashElem option) \<Rightarrow> nat \<Rightarrow> (string \<times> 'd option) option" where
  "contents hp a = map_option (\<lambda>e. (pKey e, edata e)) (hp a)"

definition list_ok :: "'d Hash \<Rightarrow> nat list \<Rightarrow> bool" where
  "list_ok H xs \<longleftrightarrow> linked (heap H) None xs None \<and> distinct xs \<and> first H = head_or xs None"

text \<open>What an operation on links leaves alone.\<close>

definition relinked :: "nat set \<Rightarrow> 'd Hash \<Rightarrow> 'd Hash \<Rightarrow> bool" where
  "relinked A H H' \<longleftrightarrow> contents (heap H') = contents (heap H) \<and> (\<forall>x. x \<notin> A \<longrightarrow> heap H' x = heap H x) \<and>
     htsize H' = htsize H \<and> hcount H' = hcount H"

definition counted_in :: "nat option \<Rightarrow> nat \<Rightarrow> ht_entry list option \<Rightarrow> ht_entry list option" where
  "counted_in pEntry a t = (case pEntry of
       None \<Rightarrow> t
     | Some h \<Rightarrow> map_option (\<lambda>bs. bs[h := \<lparr>bcount = bcount (bs ! h) + 1, chain = Some a\<rparr>]) t)"

lemma insert_middle:
  assumes "list_ok H (xs @ b # ys)" "a \<notin> set (xs @ b # ys)" "heap H a = Some e"
    and "ht H = Some bs" "bcount (bs ! h) \<noteq> 0" "chain (bs ! h) = Some b"
  shows "\<exists>H'. insertElement H (Some h) a = Some H' \<and> list_ok H' (xs @ a # b # ys) \<and>
    relinked (set (xs @ a # b # ys)) H H' \<and> ht H' = counted_in (Some h) a (ht H)"
proof (cases xs rule: rev_cases)
  case Nil
  then obtain eb where eb: "heap H b = Some eb" "eprev eb = None" "enext eb = head_or ys None"
      "linked (heap H) (Some b) ys None" "b \<notin> set ys" "distinct ys" "first H = Some b"
    using assms(1) by (auto simp: list_ok_def)
  have ab: "a \<noteq> b" "a \<notin> set ys" using assms(2) Nil by auto
  show ?thesis using assms(3-6) eb ab Nil
    by (auto simp: insertElement_def set_elem_def list_ok_def relinked_def counted_in_def contents_def fun_eq_iff)
next
  case (snoc xs' q)
  then obtain eb eq where eb: "heap H b = Some eb" "eprev eb = Some q" "enext eb = head_or ys None"
      "linked (heap H) (Some b) ys None" "b \<notin> set ys" "distinct ys" "first H = head_or (xs' @ [q]) None"
    and eq: "heap H q = Some eq" "enext eq = Some b" "eprev eq = last_or xs' None" "linked (heap H) None xs' (Some q)"
      "distinct (xs' @ q # b # ys)"
    using assms(1) by (auto simp: list_ok_def)
  have ab: "a \<noteq> b" "a \<notin> set ys" "a \<noteq> q" "a \<notin> set xs'" using assms(2) snoc by auto
  show ?thesis using assms(3-6) eb eq ab snoc
    by (auto simp: insertElement_def set_elem_def list_ok_def relinked_def counted_in_def contents_def fun_eq_iff)
qed

lemma insert_front:
  assumes "list_ok H xs" "a \<notin> set xs" "heap H a = Some e"
    and "\<And>h bs. pEntry = Some h \<Longrightarrow> ht H = Some bs \<Longrightarrow> bcount (bs ! h) = 0"
  shows "\<exists>H'. insertElement H pEntry a = Some H' \<and> list_ok H' (a # xs) \<and>
    relinked (set (a # xs)) H H' \<and> ht H' = counted_in pEntry a (ht H)"
proof -
  have none: "(case (pEntry, ht H) of (Some h, Some bs) \<Rightarrow> if bcount (bs ! h) \<noteq> 0 then chain (bs ! h) else None
      | _ \<Rightarrow> None) = None"
    using assms(4) by (auto split: option.split)
  have unfold: "insertElement H pEntry a =
      (let H = H\<lparr>ht := counted_in pEntry a (ht H)\<rparr> in
       Option.bind (set_elem a (\<lambda>e. e\<lparr>enext := first H\<rparr>) H) (\<lambda>H.
       Option.bind (case first H of Some f \<Rightarrow> set_elem f (\<lambda>e. e\<lparr>eprev := Some a\<rparr>) H | None \<Rightarrow> Some H) (\<lambda>H.
       map_option (\<lambda>H. H\<lparr>first := Some a\<rparr>) (set_elem a (\<lambda>e. e\<lparr>eprev := None\<rparr>) H))))"
    unfolding insertElement_def none by (simp add: counted_in_def Let_def split: option.split)
  show ?thesis
  proof (cases xs)
    case Nil
    then show ?thesis using assms(1,3)
      by (auto simp: unfold Let_def set_elem_def list_ok_def relinked_def contents_def fun_eq_iff)
  next
    case (Cons b ys)
    then obtain eb where eb: "heap H b = Some eb" "eprev eb = None" "enext eb = head_or ys None"
        "linked (heap H) (Some b) ys None" "b \<notin> set ys" "distinct ys" "first H = Some b"
      using assms(1) by (auto simp: list_ok_def)
    have "a \<noteq> b" "a \<notin> set ys" using assms(2) Cons by auto
    then show ?thesis using assms(3) eb Cons
      by (auto simp: unfold Let_def set_elem_def list_ok_def relinked_def contents_def fun_eq_iff)
  qed
qed

subsection \<open>Buckets\<close>

definition key_at :: "'d Hash \<Rightarrow> nat \<Rightarrow> string" where
  "key_at H a = pKey (the (heap H a))"

text \<open>
  The list is the concatenation of the buckets in use, in some order; each bucket knows its
  first element and its length.
\<close>

definition grouped :: "(nat \<Rightarrow> nat) \<Rightarrow> nat list \<Rightarrow> nat list \<Rightarrow> (nat \<Rightarrow> nat list) \<Rightarrow> ht_entry list \<Rightarrow> bool" where
  "grouped f xs order G bs \<longleftrightarrow> xs = concat (map G order) \<and> distinct order \<and>
     (\<forall>b \<in> set order. b < length bs \<and> G b \<noteq> [] \<and> (\<forall>a \<in> set (G b). f a = b) \<and>
        bcount (bs ! b) = length (G b) \<and> chain (bs ! b) = Some (hd (G b))) \<and>
     (\<forall>b < length bs. b \<notin> set order \<longrightarrow> bcount (bs ! b) = 0)"

lemma grouped_cong:
  "(\<And>a. a \<in> set xs \<Longrightarrow> f a = g a) \<Longrightarrow> grouped f xs order G bs \<Longrightarrow> grouped g xs order G bs"
  unfolding grouped_def by fastforce

lemma concat_map_upd: "h \<notin> set order \<Longrightarrow> concat (map (G(h := v)) order) = concat (map G order)"
  by (metis (mono_tags, lifting) fun_upd_other map_cong)

lemma grouped_insert_old:
  assumes "grouped f xs order G bs" "h \<in> set order" "f a = h"
  shows "\<exists>ys zs. xs = ys @ G h @ zs \<and>
    grouped f (ys @ a # G h @ zs) order (G(h := a # G h)) (bs[h := \<lparr>bcount = bcount (bs ! h) + 1, chain = Some a\<rparr>])"
proof -
  obtain o1 o2 where o: "order = o1 @ h # o2" using assms(2) by (metis split_list)
  then have "h \<notin> set o1" "h \<notin> set o2" using assms(1) by (auto simp: grouped_def)
  then have "grouped f (concat (map G o1) @ a # G h @ concat (map G o2)) order (G(h := a # G h))
      (bs[h := \<lparr>bcount = bcount (bs ! h) + 1, chain = Some a\<rparr>])"
    using assms by (auto simp: grouped_def o concat_map_upd nth_list_update)
  moreover have "xs = concat (map G o1) @ G h @ concat (map G o2)" using assms(1) by (simp add: grouped_def o)
  ultimately show ?thesis by blast
qed

lemma grouped_insert_new:
  assumes "grouped f xs order G bs" "h \<notin> set order" "h < length bs" "f a = h"
  shows "grouped f (a # xs) (h # order) (G(h := [a])) (bs[h := \<lparr>bcount = bcount (bs ! h) + 1, chain = Some a\<rparr>])"
  using assms by (auto simp: grouped_def concat_map_upd nth_list_update)

text \<open>The state of a table: its list, and its buckets if it has them.\<close>

definition buckets_ok :: "'d Hash \<Rightarrow> nat list \<Rightarrow> bool" where
  "buckets_ok H xs \<longleftrightarrow> (case ht H of
       None \<Rightarrow> htsize H = 0
     | Some bs \<Rightarrow> htsize H = length bs \<and> bs \<noteq> [] \<and>
         (\<exists>order G. grouped (\<lambda>a. bucket_of (key_at H a) (length bs)) xs order G bs))"

lemma key_at_relinked: "contents (heap H') = contents (heap H) \<Longrightarrow> heap H a \<noteq> None \<Longrightarrow> key_at H' a = key_at H a"
  by (metis (mono_tags, lifting) contents_def key_at_def option.collapse option.map_sel option.map_disc_iff prod.inject)

lemma linked_alive: "linked hp p xs n \<Longrightarrow> a \<in> set xs \<Longrightarrow> hp a \<noteq> None"
  by (induction xs arbitrary: p) auto

lemma insertElement_ok:
  assumes "list_ok H xs" "buckets_ok H xs" "a \<notin> set xs" "heap H a = Some e"
    and "pEntry = (if ht H = None then None else Some (bucket_of (pKey e) (htsize H)))"
  shows "\<exists>H' xs'. insertElement H pEntry a = Some H' \<and> list_ok H' xs' \<and> buckets_ok H' xs' \<and>
    set xs' = insert a (set xs) \<and> length xs' = Suc (length xs) \<and> relinked (insert a (set xs)) H H' \<and>
    (ht H' = None \<longleftrightarrow> ht H = None)"
proof (cases "ht H")
  case None
  then show ?thesis
    using insert_front [OF assms(1,3,4), of pEntry] assms(2,5)
    by (fastforce simp: buckets_ok_def counted_in_def relinked_def)
next
  case (Some bs)
  let ?n = "length bs" and ?h = "bucket_of (pKey e) (length bs)"
  let ?f = "\<lambda>a. bucket_of (key_at H a) ?n"
  have n: "htsize H = ?n" "bs \<noteq> []" using assms(2) Some by (auto simp: buckets_ok_def)
  obtain order G where g: "grouped ?f xs order G bs" using assms(2) Some by (auto simp: buckets_ok_def)
  have h: "?h < ?n" using n(2) by (simp add: bucket_of_def)
  have fa: "?f a = ?h" using assms(4) by (simp add: key_at_def)
  have pE: "pEntry = Some ?h" using assms(5) Some n(1) by simp
  have alive: "heap H x \<noteq> None" if "x \<in> insert a (set xs)" for x
    using that linked_alive [of "heap H" None xs None x] assms(1,4) by (auto simp: list_ok_def)
  have finish: ?thesis
    if "insertElement H pEntry a = Some H'" "list_ok H' xs'" "relinked (set xs') H H'" "ht H' = counted_in (Some ?h) a (ht H)"
      "set xs' = insert a (set xs)" "length xs' = Suc (length xs)"
      "grouped ?f xs' order' G' (bs[?h := \<lparr>bcount = bcount (bs ! ?h) + 1, chain = Some a\<rparr>])"
    for H' xs' order' G'
  proof -
    have "key_at H' x = key_at H x" if "x \<in> set xs'" for x
      using that alive \<open>set xs' = _\<close> \<open>relinked (set xs') H H'\<close> by (intro key_at_relinked) (auto simp: relinked_def)
    then have "grouped (\<lambda>a. bucket_of (key_at H' a) ?n) xs' order' G' (bs[?h := \<lparr>bcount = bcount (bs ! ?h) + 1, chain = Some a\<rparr>])"
      by (intro grouped_cong [OF _ that(7)]) simp
    then have "buckets_ok H' xs'"
      using that(3,4) Some n by (auto simp: buckets_ok_def counted_in_def relinked_def)
    then show ?thesis using that Some by (auto simp: counted_in_def)
  qed
  show ?thesis
  proof (cases "?h \<in> set order")
    case True
    then have b: "G ?h \<noteq> []" "bcount (bs ! ?h) \<noteq> 0" "chain (bs ! ?h) = Some (hd (G ?h))"
      using g by (auto simp: grouped_def)
    obtain ys zs where xs: "xs = ys @ G ?h @ zs" and g': "grouped ?f (ys @ a # G ?h @ zs) order (G(?h := a # G ?h))
        (bs[?h := \<lparr>bcount = bcount (bs ! ?h) + 1, chain = Some a\<rparr>])"
      using grouped_insert_old [OF g True fa] by blast
    obtain c cs where c: "G ?h = c # cs" using b(1) by (cases "G ?h") auto
    from insert_middle [of H ys c "cs @ zs" a e bs ?h] assms(1,3,4) Some b xs c
    obtain H' where "insertElement H (Some ?h) a = Some H'" "list_ok H' (ys @ a # G ?h @ zs)"
        "relinked (set (ys @ a # G ?h @ zs)) H H'" "ht H' = counted_in (Some ?h) a (ht H)"
      by auto
    then show ?thesis using g' xs pE by (intro finish [of H' "ys @ a # G ?h @ zs" order "G(?h := a # G ?h)"]) auto
  next
    case False
    then have "bcount (bs ! ?h) = 0" using g h by (simp add: grouped_def)
    then have "\<exists>H'. insertElement H (Some ?h) a = Some H' \<and> list_ok H' (a # xs) \<and>
        relinked (set (a # xs)) H H' \<and> ht H' = counted_in (Some ?h) a (ht H)"
      by (intro insert_front [OF assms(1,3,4)]) (use Some in auto)
    then obtain H' where "insertElement H (Some ?h) a = Some H'" "list_ok H' (a # xs)"
        "relinked (set (a # xs)) H H'" "ht H' = counted_in (Some ?h) a (ht H)"
      by blast
    then show ?thesis using grouped_insert_new [OF g False h fa] pE
      by (intro finish [of H' "a # xs" "?h # order" "G(?h := [a])"]) auto
  qed
qed

lemma relinked_trans: "relinked A H H1 \<Longrightarrow> relinked B H1 H2 \<Longrightarrow> A \<subseteq> C \<Longrightarrow> B \<subseteq> C \<Longrightarrow> relinked C H H2"
  unfolding relinked_def by (metis subsetD)

subsection \<open>Rehashing\<close>

fun nexts :: "(nat \<Rightarrow> 'd HashElem option) \<Rightarrow> nat list \<Rightarrow> bool" where
  "nexts hp [] = True"
| "nexts hp (a # xs) = (\<exists>e. hp a = Some e \<and> enext e = head_or xs None \<and> nexts hp xs)"

lemma linked_nexts: "linked hp p xs None \<Longrightarrow> nexts hp xs"
  by (induction xs arbitrary: p) auto

lemma nexts_frame: "(\<And>a. a \<in> set xs \<Longrightarrow> hp' a = hp a) \<Longrightarrow> nexts hp xs \<Longrightarrow> nexts hp' xs"
  by (induction xs) auto

lemma rehash_loop_ok:
  assumes "list_ok H xs" "buckets_ok H xs" "ht H \<noteq> None" "nexts (heap H) rest" "distinct (xs @ rest)"
  shows "\<exists>H' xs'. rehash_loop H (head_or rest None) = Some H' \<and> list_ok H' xs' \<and> buckets_ok H' xs' \<and>
    set xs' = set xs \<union> set rest \<and> length xs' = length xs + length rest \<and> relinked (set xs \<union> set rest) H H' \<and> ht H' \<noteq> None"
  using assms
proof (induction rest arbitrary: H xs)
  case Nil
  then show ?case by (auto simp: rehash_loop.simps relinked_def intro: exI [of _ xs])
next
  case (Cons a rest)
  obtain e where e: "heap H a = Some e" "enext e = head_or rest None" "nexts (heap H) rest" using Cons.prems(4) by auto
  have a: "a \<notin> set xs" "a \<notin> set rest" using Cons.prems(5) by auto
  obtain H1 xs1 where 1: "insertElement H (Some (bucket_of (pKey e) (htsize H))) a = Some H1" "list_ok H1 xs1"
      "buckets_ok H1 xs1" "set xs1 = insert a (set xs)" "length xs1 = Suc (length xs)" "relinked (insert a (set xs)) H H1"
      "ht H1 \<noteq> None"
    using insertElement_ok [OF Cons.prems(1,2) a(1) e(1) refl] Cons.prems(3) by auto
  have "nexts (heap H1) rest"
    by (rule nexts_frame [OF _ e(3)]) (use 1(6) a Cons.prems(5) in \<open>auto simp: relinked_def\<close>)
  moreover have "distinct (xs1 @ rest)" using 1(2,4) Cons.prems(5) a by (auto simp: list_ok_def)
  ultimately obtain H' xs' where 2: "rehash_loop H1 (head_or rest None) = Some H'" "list_ok H' xs'" "buckets_ok H' xs'"
      "set xs' = set xs1 \<union> set rest" "length xs' = length xs1 + length rest" "relinked (set xs1 \<union> set rest) H1 H'" "ht H' \<noteq> None"
    using Cons.IH [OF 1(2,3,7)] by blast
  have "rehash_loop H (head_or (a # rest) None) = Some H'"
    using e 1(1) 2(1) by (subst rehash_loop.simps) simp
  moreover have "relinked (set xs \<union> set (a # rest)) H H'"
    using relinked_trans [OF 1(6) 2(6), of "set xs \<union> set (a # rest)"] 1(4) by auto
  ultimately show ?case using 2 1(4,5) by (intro exI [of _ H'] exI [of _ xs']) auto
qed

lemma rehash_ok:
  assumes "list_ok H xs" "buckets_ok H xs" "\<forall>n m. room n = Some m \<longrightarrow> 0 < m"
  shows "\<exists>H' xs' r. rehash room H sz = Some (H', r) \<and> list_ok H' xs' \<and> buckets_ok H' xs' \<and> set xs' = set xs \<and>
    length xs' = length xs \<and> contents (heap H') = contents (heap H) \<and> (\<forall>x. x \<notin> set xs \<longrightarrow> heap H' x = heap H x) \<and>
    hcount H' = hcount H \<and> (if r then ht H' \<noteq> None else H' = H)"
proof -
  define sz' where "sz' = (if sz * 16 > SQLITE_MALLOC_SOFT_LIMIT then SQLITE_MALLOC_SOFT_LIMIT div 16 else sz)"
  show ?thesis
  proof (cases "sz' = htsize H \<or> room sz' = None")
    case True
    then have "rehash room H sz = Some (H, False)" by (auto simp: rehash_def sz'_def [symmetric] Let_def)
    then show ?thesis using assms by auto
  next
    case False
    then obtain n where n: "room sz' = Some n" "0 < n" using assms(3) by auto
    let ?H = "H\<lparr>ht := Some (replicate n \<lparr>bcount = 0, chain = None\<rparr>), htsize := n, first := None\<rparr>"
    have "list_ok ?H []" by (simp add: list_ok_def)
    moreover have "buckets_ok ?H []"
      using n(2) by (auto simp: buckets_ok_def grouped_def intro!: exI [of _ "[]"])
    moreover have "nexts (heap ?H) xs" "distinct ([] @ xs)" using assms(1) linked_nexts by (auto simp: list_ok_def)
    ultimately obtain H' xs' where "rehash_loop ?H (head_or xs None) = Some H'" "list_ok H' xs'" "buckets_ok H' xs'"
        "set xs' = set xs" "length xs' = length xs" "relinked (set xs) ?H H'" "ht H' \<noteq> None"
      using rehash_loop_ok [of ?H "[]" xs] by auto
    moreover then have "rehash room H sz = Some (H', True)"
      using False n(1) assms(1) by (simp add: rehash_def sz'_def [symmetric] Let_def list_ok_def)
    ultimately show ?thesis by (auto simp: relinked_def intro!: exI [of _ H'] exI [of _ xs'] exI [of _ True])
  qed
qed

subsection \<open>Finding\<close>

lemma find_loop_linked:
  "linked (heap H) p xs n \<Longrightarrow>
    find_loop H key (length xs) (head_or xs m) = Some (List.find (\<lambda>a. sqlite3StrICmp (key_at H a) key = 0) xs)"
proof (induction xs arbitrary: p m)
  case (Cons a xs)
  then obtain e where "heap H a = Some e" "enext e = head_or xs n" "linked (heap H) (Some a) xs n" by auto
  then show ?case using Cons.IH [of "Some a" n] by (simp add: key_at_def)
qed simp

lemma StrICmp_same_bucket: "sqlite3StrICmp a b = 0 \<Longrightarrow> bucket_of a n = bucket_of b n"
  by (simp add: bucket_of_def strHash_def strhash_fold StrICmp_fold_case compare_lists_zero fold_case_nonzero)

lemma findElement_ok:
  assumes "list_ok H xs" "buckets_ok H xs" "hcount H = length xs"
  shows "\<exists>h r. findElementWithHash H key = Some (h, r) \<and> (ht H \<noteq> None \<longrightarrow> h = bucket_of key (htsize H)) \<and>
    (case r of None \<Rightarrow> \<forall>a \<in> set xs. sqlite3StrICmp (key_at H a) key \<noteq> 0
     | Some a \<Rightarrow> a \<in> set xs \<and> sqlite3StrICmp (key_at H a) key = 0)"
proof -
  let ?P = "\<lambda>a. sqlite3StrICmp (key_at H a) key = 0"
  have found: "case List.find ?P ys of None \<Rightarrow> \<forall>a \<in> set ys. \<not> ?P a | Some a \<Rightarrow> a \<in> set ys \<and> ?P a" for ys
    by (induction ys) (auto split: option.splits)
  show ?thesis
  proof (cases "ht H")
    case None
    have "find_loop H key (hcount H) (first H) = Some (List.find ?P xs)"
      using find_loop_linked [of H None xs None key None] assms by (simp add: list_ok_def)
    then show ?thesis using None found [of xs] by (simp add: findElementWithHash_def)
  next
    case (Some bs)
    let ?h = "bucket_of key (htsize H)"
    obtain order G where g: "grouped (\<lambda>a. bucket_of (key_at H a) (length bs)) xs order G bs" and n: "htsize H = length bs" "bs \<noteq> []"
      using assms(2) Some by (auto simp: buckets_ok_def)
    have find: "findElementWithHash H key = map_option (\<lambda>r. (?h, r)) (find_loop H key (bcount (bs ! ?h)) (chain (bs ! ?h)))"
      using Some by (simp add: findElementWithHash_def Let_def)
    have bucket: "a \<in> set (G ?h) \<and> ?h \<in> set order" if "a \<in> set xs" "?P a" for a
      using g that StrICmp_same_bucket [of "key_at H a" key "length bs"] n(1) by (fastforce simp: grouped_def)
    show ?thesis
    proof (cases "?h \<in> set order")
      case True
      then obtain o1 o2 where "order = o1 @ ?h # o2" by (metis split_list)
      then have xs: "xs = concat (map G o1) @ G ?h @ concat (map G o2)" using g by (simp add: grouped_def)
      have b: "G ?h \<noteq> []" "bcount (bs ! ?h) = length (G ?h)" "chain (bs ! ?h) = head_or (G ?h) None"
        using g True by (auto simp: grouped_def head_or_def hd_conv_nth split: list.split)
      have "linked (heap H) (last_or (concat (map G o1)) None) (G ?h) (head_or (concat (map G o2)) None)"
        using assms(1) by (simp add: list_ok_def xs)
      from find_loop_linked [OF this, of key None] b find
      have "findElementWithHash H key = Some (?h, List.find ?P (G ?h))" by simp
      then show ?thesis using found [of "G ?h"] bucket xs by (auto split: option.splits)
    next
      case False
      then have "bcount (bs ! ?h) = 0" using g n by (simp add: grouped_def bucket_of_def)
      then show ?thesis using find bucket False by auto
    qed
  qed
qed

subsection \<open>Removing\<close>

lemma unlink_ok:
  assumes "list_ok H (xs @ a # ys)"
  shows "\<exists>e H1 H2. heap H a = Some e \<and> enext e = head_or ys None \<and> eprev e = last_or xs None \<and>
    (case eprev e of Some q \<Rightarrow> set_elem q (\<lambda>x. x\<lparr>enext := enext e\<rparr>) H | None \<Rightarrow> Some (H\<lparr>first := enext e\<rparr>)) = Some H1 \<and>
    (case enext e of Some q \<Rightarrow> set_elem q (\<lambda>x. x\<lparr>eprev := eprev e\<rparr>) H1 | None \<Rightarrow> Some H1) = Some H2 \<and>
    list_ok (H2\<lparr>heap := (heap H2)(a := None)\<rparr>) (xs @ ys) \<and> contents (heap H2) = contents (heap H) \<and>
    htsize H2 = htsize H \<and> hcount H2 = hcount H \<and> ht H2 = ht H"
proof -
  obtain e where e: "heap H a = Some e" "enext e = head_or ys None" "eprev e = last_or xs None"
      "linked (heap H) (Some a) ys None" "a \<notin> set xs" "a \<notin> set ys" "distinct (xs @ ys)" "set xs \<inter> set ys = {}"
      "linked (heap H) None xs (Some a)" "first H = head_or (xs @ a # ys) None"
    using assms by (auto simp: list_ok_def)
  show ?thesis
  proof (cases xs rule: rev_cases; cases ys)
    fix b ys'
    assume xs: "xs = []" and ys: "ys = b # ys'"
    then show ?thesis using e by (auto simp: set_elem_def list_ok_def contents_def fun_eq_iff)
  next
    fix xs' q
    assume xs: "xs = xs' @ [q]" and ys: "ys = []"
    then show ?thesis using e by (auto simp: set_elem_def list_ok_def contents_def fun_eq_iff)
  next
    fix xs' q b ys'
    assume xs: "xs = xs' @ [q]" and ys: "ys = b # ys'"
    then show ?thesis using e by (auto simp: set_elem_def list_ok_def contents_def fun_eq_iff)
  qed (use e in \<open>auto simp: set_elem_def list_ok_def contents_def fun_eq_iff\<close>)
qed

lemma grouped_remove:
  assumes "grouped f (xs @ a # ys) order G bs" "distinct (xs @ a # ys)"
  shows "f a < length bs \<and> (\<exists>order' G'. grouped f (xs @ ys) order' G' (bs[f a := \<lparr>bcount = bcount (bs ! f a) - 1,
     chain = (if chain (bs ! f a) = Some a then head_or ys None else chain (bs ! f a))\<rparr>]))"
proof -
  have "concat (map G order) = xs @ a # ys" using assms(1) by (simp add: grouped_def)
  then have "a \<in> set (concat (map G order))" by simp
  then obtain h where h: "h \<in> set order" "a \<in> set (G h)" by auto
  then have fa: "f a = h" and hl: "h < length bs" using assms(1) by (auto simp: grouped_def)
  obtain o1 o2 where o: "order = o1 @ h # o2" using h(1) by (metis split_list)
  obtain cs ds where c: "G h = cs @ a # ds" using h(2) by (metis split_list)
  have nin: "h \<notin> set o1" "h \<notin> set o2" "distinct (o1 @ o2)" using assms(1) by (auto simp: grouped_def o)
  have "xs @ a # ys = (concat (map G o1) @ cs) @ a # (ds @ concat (map G o2))"
    using assms(1) by (simp add: grouped_def o c)
  moreover have "a \<notin> set xs" "a \<notin> set ys" using assms(2) by auto
  ultimately have xs: "xs = concat (map G o1) @ cs" and ys: "ys = ds @ concat (map G o2)"
    by (metis append_Cons_eq_iff [of a xs ys])+
  have others: "\<forall>b \<in> set o1 \<union> set o2. b < length bs \<and> b \<noteq> h \<and> G b \<noteq> [] \<and> (\<forall>a \<in> set (G b). f a = b) \<and>
        bcount (bs ! b) = length (G b) \<and> chain (bs ! b) = Some (hd (G b))"
      "\<forall>b < length bs. b \<notin> set order \<longrightarrow> bcount (bs ! b) = 0"
      "bcount (bs ! h) = Suc (length (cs @ ds))" "chain (bs ! h) = Some (hd (G h))" "\<forall>x \<in> set (cs @ ds). f x = h"
    using assms(1) nin by (auto simp: grouped_def o c)
  define bs' where "bs' = bs[f a := \<lparr>bcount = bcount (bs ! f a) - 1,
     chain = (if chain (bs ! f a) = Some a then head_or ys None else chain (bs ! f a))\<rparr>]"
  have len: "length bs' = length bs" by (simp add: bs'_def)
  have at_h: "bs' ! h = \<lparr>bcount = length (cs @ ds), chain = (if cs = [] then head_or ys None else Some (hd cs))\<rparr>"
  proof -
    have "cs \<noteq> [] \<Longrightarrow> hd cs \<noteq> a" using assms(2) xs by (cases cs) auto
    then show ?thesis using others(3,4) hl fa c unfolding bs'_def by (cases cs) auto
  qed
  have at_b: "bs' ! b = bs ! b" if "b \<noteq> h" for b using that fa by (simp add: bs'_def)
  have "f a < length bs \<and> (\<exists>order' G'. grouped f (xs @ ys) order' G' bs')"
  proof (cases "cs @ ds = []")
    case True
    have "bcount (bs' ! b) = 0" if "b < length bs" "b \<notin> set (o1 @ o2)" for b
      using that others(2) at_h at_b [of b] True o by (cases "b = h") auto
    moreover have "xs @ ys = concat (map G (o1 @ o2))" using True xs ys by simp
    moreover have "\<forall>b \<in> set (o1 @ o2). bs' ! b = bs ! b" using nin(1,2) at_b by (metis Un_iff set_append)
    ultimately have "grouped f (xs @ ys) (o1 @ o2) G bs'"
      unfolding grouped_def len using others(1) nin(3) by auto
    then show ?thesis using hl fa by blast
  next
    case False
    have m: "map (G(h := cs @ ds)) o1 = map G o1" "map (G(h := cs @ ds)) o2 = map G o2" using nin by auto
    let ?G = "G(h := cs @ ds)"
    have hd_h: "chain (bs' ! h) = Some (hd (cs @ ds))" "bcount (bs' ! h) = length (cs @ ds)"
      using False by (cases cs; cases ds; auto simp: at_h ys)+
    have "bcount (bs' ! b) = 0" if "b < length bs" "b \<notin> set order" for b
      using that others(2) at_b [of b] o by auto
    moreover have "xs @ ys = concat (map ?G order)" using xs ys by (simp add: o m fun_upd_same del: fun_upd_apply)
    moreover have "b < length bs \<and> ?G b \<noteq> [] \<and> (\<forall>a \<in> set (?G b). f a = b) \<and>
        bcount (bs' ! b) = length (?G b) \<and> chain (bs' ! b) = Some (hd (?G b))" if "b \<in> set order" for b
    proof (cases "b = h")
      case True
      then show ?thesis using False hd_h hl others(5) by simp
    next
      case False
      then have "b \<in> set o1 \<union> set o2" using that o by auto
      then show ?thesis using others(1) at_b [OF False] False by simp
    qed
    ultimately have "grouped f (xs @ ys) order ?G bs'"
      unfolding grouped_def len using nin by (simp add: o)
    then show ?thesis using hl fa by blast
  qed
  then show ?thesis unfolding bs'_def .
qed

subsection \<open>The table is a map\<close>

text \<open>Names that differ only in case are one key; no element has null data.\<close>

definition contents_ok :: "(nat \<Rightarrow> (string \<times> 'd option) option) \<Rightarrow> bool" where
  "contents_ok c \<longleftrightarrow> (\<forall>a k d. c a = Some (k, d) \<longrightarrow> d \<noteq> None) \<and>
     (\<forall>a b k l d d'. c a = Some (k, d) \<longrightarrow> c b = Some (l, d') \<longrightarrow> fold_case k = fold_case l \<longrightarrow> a = b)"

definition table_ok :: "'d Hash \<Rightarrow> nat list \<Rightarrow> bool" where
  "table_ok H xs \<longleftrightarrow> list_ok H xs \<and> buckets_ok H xs \<and> hcount H = length xs \<and>
     {a. heap H a \<noteq> None} = set xs \<and> contents_ok (contents (heap H))"

definition map_in :: "(nat \<Rightarrow> (string \<times> 'd option) option) \<Rightarrow> (int list \<Rightarrow> 'd option) \<Rightarrow> bool" where
  "map_in c m \<longleftrightarrow> (\<forall>k d. m k = Some d \<longleftrightarrow> (\<exists>a key. c a = Some (key, Some d) \<and> fold_case key = k))"

text \<open>A well-formed table in a heap of its own that holds the map \<open>m\<close> from folded names.\<close>

definition represents :: "'d Hash \<Rightarrow> (int list \<Rightarrow> 'd option) \<Rightarrow> bool" where
  "represents H m \<longleftrightarrow> (\<exists>xs. table_ok H xs) \<and> map_in (contents (heap H)) m"

lemma StrICmp_iff: "sqlite3StrICmp a b = 0 \<longleftrightarrow> fold_case a = fold_case b"
  by (simp add: StrICmp_fold_case compare_lists_zero fold_case_nonzero)

lemma contents_key: "contents (heap H) a = Some (k, d) \<Longrightarrow> key_at H a = k"
  by (auto simp: contents_def key_at_def)

text \<open>What looking a name up gives, in terms of the contents.\<close>

lemma find_contents:
  assumes "table_ok H xs" "map_in (contents (heap H)) m"
  shows "\<exists>h r. findElementWithHash H key = Some (h, r) \<and> (ht H \<noteq> None \<longrightarrow> h = bucket_of key (htsize H)) \<and>
    elem_data H r = Some (m (fold_case key)) \<and>
    (case r of None \<Rightarrow> m (fold_case key) = None
     | Some a \<Rightarrow> a \<in> set xs \<and> (\<exists>k d. contents (heap H) a = Some (k, Some d) \<and> fold_case k = fold_case key \<and> m (fold_case key) = Some d))"
proof -
  obtain h r where f: "findElementWithHash H key = Some (h, r)" "ht H \<noteq> None \<longrightarrow> h = bucket_of key (htsize H)"
    "case r of None \<Rightarrow> \<forall>a \<in> set xs. sqlite3StrICmp (key_at H a) key \<noteq> 0 | Some a \<Rightarrow> a \<in> set xs \<and> sqlite3StrICmp (key_at H a) key = 0"
    using findElement_ok [of H xs key] assms(1) by (auto simp: table_ok_def)
  have alive: "a \<in> set xs \<longleftrightarrow> contents (heap H) a \<noteq> None" for a
    using assms(1) by (auto simp: table_ok_def contents_def)
  show ?thesis
  proof (cases r)
    case None
    have "m (fold_case key) = None"
    proof (rule ccontr)
      assume "m (fold_case key) \<noteq> None"
      then obtain a k d where "contents (heap H) a = Some (k, Some d)" "fold_case k = fold_case key"
        using assms(2) unfolding map_in_def by blast
      then show False using f(3) None alive [of a] contents_key [of H a] by (auto simp: StrICmp_iff)
    qed
    then show ?thesis using f(1,2) None by (auto simp: elem_data_def)
  next
    case (Some a)
    then have a: "a \<in> set xs" "fold_case (key_at H a) = fold_case key" using f(3) by (simp_all add: StrICmp_iff)
    then obtain k d where c: "contents (heap H) a = Some (k, Some d)"
      using alive [of a] assms(1) unfolding table_ok_def contents_ok_def by (metis option.exhaust surj_pair)
    then have k: "fold_case k = fold_case key" using a(2) contents_key by metis
    then have "m (fold_case key) = Some d" using assms(2) c unfolding map_in_def by blast
    moreover have "elem_data H (Some a) = Some (Some d)" using c by (auto simp: elem_data_def contents_def)
    ultimately show ?thesis using f(1,2) Some a(1) c k by auto
  qed
qed

lemma contents_unique:
  "contents_ok c \<Longrightarrow> c a = Some (k, d) \<Longrightarrow> c b = Some (l, d') \<Longrightarrow> fold_case k = fold_case l \<Longrightarrow> a = b"
  unfolding contents_ok_def by blast

lemma map_in_update:
  assumes "map_in c m" "contents_ok c" "fold_case key = k" "\<And>l d'. c a = Some (l, d') \<Longrightarrow> fold_case l = k"
    and "c a = None \<Longrightarrow> m k = None"
  shows "map_in (c(a \<mapsto> (key, Some d))) (m(k \<mapsto> d)) \<and> contents_ok (c(a \<mapsto> (key, Some d)))"
proof -
  have unique: "b = a" if "c b = Some (l, d')" "fold_case l = k" for b l d'
  proof (cases "c a")
    case None
    have "d' \<noteq> None" using that(1) assms(2) unfolding contents_ok_def by blast
    then obtain d1 where "d' = Some d1" by auto
    then have "m k = Some d1" using that assms(1) unfolding map_in_def by blast
    then show ?thesis using assms(5) [OF None] by simp
  next
    case (Some p)
    then obtain l' d'' where "c a = Some (l', d'')" by (cases p) auto
    then show ?thesis using contents_unique [OF assms(2) that(1)] that(2) assms(4) by simp
  qed
  have "map_in (c(a \<mapsto> (key, Some d))) (m(k \<mapsto> d))"
    unfolding map_in_def
  proof (intro allI)
    fix k' d'
    show "(m(k \<mapsto> d)) k' = Some d' \<longleftrightarrow> (\<exists>b l. (c(a \<mapsto> (key, Some d))) b = Some (l, Some d') \<and> fold_case l = k')"
    proof (cases "k' = k")
      case True
      then show ?thesis using assms(3) unique by (auto split: if_splits)
    next
      case False
      then have "fold_case key \<noteq> k'" "\<And>l d''. c a = Some (l, d'') \<Longrightarrow> fold_case l \<noteq> k'" using assms(3,4) by auto
      then have "(\<exists>b l. (c(a \<mapsto> (key, Some d))) b = Some (l, Some d') \<and> fold_case l = k') \<longleftrightarrow>
          (\<exists>b l. c b = Some (l, Some d') \<and> fold_case l = k')"
        by (metis fun_upd_apply option.inject prod.inject)
      then show ?thesis using False assms(1) unfolding map_in_def by simp
    qed
  qed
  moreover have "contents_ok (c(a \<mapsto> (key, Some d)))"
    unfolding contents_ok_def
  proof (intro conjI allI impI)
    fix b l d' assume "(c(a \<mapsto> (key, Some d))) b = Some (l, d')"
    then show "d' \<noteq> None" using assms(2) unfolding contents_ok_def by (cases "b = a") auto
  next
    fix b b' l l' d1 d2
    assume u: "(c(a \<mapsto> (key, Some d))) b = Some (l, d1)" "(c(a \<mapsto> (key, Some d))) b' = Some (l', d2)"
      and f: "fold_case l = fold_case l'"
    show "b = b'"
    proof (cases "b = a")
      case True
      then have "fold_case l' = k" using u(1) f assms(3) by auto
      then show ?thesis using True unique [of b' l' d2] u(2) by (cases "b' = a") auto
    next
      case False
      then have c: "c b = Some (l, d1)" using u(1) by simp
      show ?thesis
      proof (cases "b' = a")
        case True
        then have "fold_case l = k" using u(2) f assms(3) by auto
        then show ?thesis using unique [OF c] True by simp
      next
        case False
        then have "c b' = Some (l', d2)" using u(2) by simp
        then show ?thesis by (rule contents_unique [OF assms(2) c _ f])
      qed
    qed
  qed
  ultimately show ?thesis by blast
qed

lemma map_in_remove:
  assumes "map_in c m" "contents_ok c" "c a = Some (l, d)" "fold_case l = k"
  shows "map_in (c(a := None)) (m(k := None)) \<and> contents_ok (c(a := None))"
proof -
  have "map_in (c(a := None)) (m(k := None))"
    unfolding map_in_def
  proof (intro allI)
    fix k' d'
    show "(m(k := None)) k' = Some d' \<longleftrightarrow> (\<exists>b l. (c(a := None)) b = Some (l, Some d') \<and> fold_case l = k')"
    proof (cases "k' = k")
      case True
      have "b = a" if "c b = Some (l', d'')" "fold_case l' = k" for b l' d''
        using contents_unique [OF assms(2) that(1) assms(3)] that(2) assms(4) by simp
      then have "\<not> (\<exists>b l. (c(a := None)) b = Some (l, Some d') \<and> fold_case l = k)"
        by (metis fun_upd_apply option.distinct(1))
      then show ?thesis using True by simp
    next
      case False
      then have "fold_case l' \<noteq> k'" if "c a = Some (l', d'')" for l' d'' using that assms(3,4) by simp
      then have "(\<exists>b l. (c(a := None)) b = Some (l, Some d') \<and> fold_case l = k') \<longleftrightarrow>
          (\<exists>b l. c b = Some (l, Some d') \<and> fold_case l = k')"
        by (metis fun_upd_apply option.distinct(1))
      then show ?thesis using False assms(1) unfolding map_in_def by simp
    qed
  qed
  moreover have "contents_ok (c(a := None))"
    using assms(2) unfolding contents_ok_def by simp
  ultimately show ?thesis by blast
qed

lemma contents_alive: "contents hp a = None \<longleftrightarrow> hp a = None"
  by (simp add: contents_def)

lemma free_all_ok:
  assumes "nexts (heap H) xs" "distinct xs"
  shows "free_all H (head_or xs None) = Some (H\<lparr>heap := (\<lambda>x. if x \<in> set xs then None else heap H x)\<rparr>)"
  using assms
proof (induction xs arbitrary: H)
  case Nil
  then show ?case by (simp add: free_all.simps)
next
  case (Cons a xs)
  then obtain e where e: "heap H a = Some e" "enext e = head_or xs None" "nexts (heap H) xs" "a \<notin> set xs" "distinct xs"
    by auto
  let ?H = "H\<lparr>heap := (heap H)(a := None)\<rparr>"
  have "nexts (heap ?H) xs" by (rule nexts_frame [OF _ e(3)]) (use e(4) in auto)
  from Cons.IH [OF this e(5)] have "free_all H (head_or (a # xs) None) =
      Some (?H\<lparr>heap := (\<lambda>x. if x \<in> set xs then None else heap ?H x)\<rparr>)"
    using e(1,2) by (subst free_all.simps) simp
  moreover have "(\<lambda>x. if x \<in> set xs then None else heap ?H x) = (\<lambda>x. if x \<in> set (a # xs) then None else heap H x)"
    by (auto simp: fun_eq_iff)
  ultimately show ?case by simp
qed

lemma clear_ok:
  assumes "list_ok H xs" "{a. heap H a \<noteq> None} = set xs"
  shows "\<exists>H'. sqlite3HashClear H = Some H' \<and> represents H' Map.empty"
proof -
  let ?H = "H\<lparr>first := None, ht := None, htsize := 0\<rparr>"
  have "nexts (heap ?H) xs" "distinct xs" "first H = head_or xs None"
    using assms(1) linked_nexts by (auto simp: list_ok_def)
  from free_all_ok [OF this(1,2)] this(3)
  have c: "sqlite3HashClear H = Some (?H\<lparr>heap := (\<lambda>x. if x \<in> set xs then None else heap H x), hcount := 0\<rparr>)"
    by (simp add: sqlite3HashClear_def cong: if_cong)
  have "(if x \<in> set xs then None else heap H x) = None" for x using assms(2) by auto
  then have "represents (?H\<lparr>heap := (\<lambda>x. if x \<in> set xs then None else heap H x), hcount := 0\<rparr>) Map.empty"
    by (auto simp: represents_def table_ok_def list_ok_def buckets_ok_def contents_ok_def map_in_def contents_def
        intro!: exI [of _ "[]"])
  then show ?thesis using c by blast
qed

lemma remove_ok:
  assumes "table_ok H xs" "a \<in> set xs" "ht H \<noteq> None \<longrightarrow> h = bucket_of (key_at H a) (htsize H)"
  shows "\<exists>H' xs'. removeElementGivenHash H a h = Some H' \<and> list_ok H' xs' \<and> buckets_ok H' xs' \<and> hcount H' = length xs' \<and>
    contents (heap H') = (contents (heap H))(a := None) \<and> {x. heap H' x \<noteq> None} = set xs'"
proof -
  obtain ys zs where xs: "xs = ys @ a # zs" using assms(2) by (metis split_list)
  have ok: "list_ok H (ys @ a # zs)" "buckets_ok H (ys @ a # zs)" "hcount H = Suc (length (ys @ zs))"
      "{a. heap H a \<noteq> None} = set (ys @ a # zs)"
    using assms(1) by (simp_all add: table_ok_def xs)
  obtain e H1 H2 where u: "heap H a = Some e" "enext e = head_or zs None"
      "(case eprev e of Some q \<Rightarrow> set_elem q (\<lambda>x. x\<lparr>enext := enext e\<rparr>) H | None \<Rightarrow> Some (H\<lparr>first := enext e\<rparr>)) = Some H1"
      "(case enext e of Some q \<Rightarrow> set_elem q (\<lambda>x. x\<lparr>eprev := eprev e\<rparr>) H1 | None \<Rightarrow> Some H1) = Some H2"
      "list_ok (H2\<lparr>heap := (heap H2)(a := None)\<rparr>) (ys @ zs)" "contents (heap H2) = contents (heap H)"
      "htsize H2 = htsize H" "hcount H2 = hcount H" "ht H2 = ht H"
    using unlink_ok [OF ok(1)] by blast
  define H3 where "H3 = H2\<lparr>ht := map_option (\<lambda>bs.
           bs[h := \<lparr>bcount = bcount (bs ! h) - 1,
                    chain = (if chain (bs ! h) = Some a then enext e else chain (bs ! h))\<rparr>]) (ht H2),
         heap := (heap H2)(a := None), hcount := hcount H2 - 1\<rparr>"
  have r: "removeElementGivenHash H a h = (if hcount H3 = 0 then sqlite3HashClear H3 else Some H3)"
    unfolding removeElementGivenHash_def u(1) Option.bind.bind_lunit u(3,4) Let_def H3_def by simp
  have l3: "list_ok H3 (ys @ zs)" using u(5) by (simp add: list_ok_def H3_def)
  have c3: "contents (heap H3) = (contents (heap H))(a := None)" "hcount H3 = length (ys @ zs)"
    using u(6,8) ok(3) by (auto simp: H3_def contents_def fun_eq_iff)
  have key: "key_at H3 x = key_at H x" if "x \<in> set (ys @ zs)" for x
  proof -
    have "x \<noteq> a" using that ok(1) by (auto simp: list_ok_def)
    then have "contents (heap H3) x = contents (heap H) x" using c3(1) by simp
    moreover have "heap H x \<noteq> None" using that ok(4) by auto
    ultimately show ?thesis by (auto simp: contents_def key_at_def)
  qed
  have b3: "buckets_ok H3 (ys @ zs)"
  proof (cases "ht H")
    case None
    then show ?thesis using ok(2) u(7,9) by (simp add: buckets_ok_def H3_def)
  next
    case (Some bs)
    let ?f = "\<lambda>a. bucket_of (key_at H a) (length bs)"
    obtain order G where g: "grouped ?f (ys @ a # zs) order G bs" and n: "htsize H = length bs" "bs \<noteq> []"
      using ok(2) Some by (auto simp: buckets_ok_def)
    have dist: "distinct (ys @ a # zs)" using ok(1) by (simp add: list_ok_def)
    define bs' where "bs' = bs[h := \<lparr>bcount = bcount (bs ! h) - 1,
          chain = (if chain (bs ! h) = Some a then head_or zs None else chain (bs ! h))\<rparr>]"
    from grouped_remove [OF g dist] assms(3) Some n obtain order' G' where
      g': "grouped ?f (ys @ zs) order' G' bs'" by (auto simp: bs'_def)
    have "grouped (\<lambda>a. bucket_of (key_at H3 a) (length bs)) (ys @ zs) order' G' bs'"
      by (rule grouped_cong [OF _ g']) (simp add: key)
    moreover have "ht H3 = Some bs'" using Some u(2,9) by (simp add: H3_def bs'_def)
    moreover have "htsize H3 = length bs" "length bs' = length bs" using n u(7) by (simp_all add: H3_def bs'_def)
    ultimately show ?thesis using n(2) by (auto simp: buckets_ok_def)
  qed
  show ?thesis
  proof (cases "ys @ zs = []")
    case True
    have "{x. heap H3 x \<noteq> None} = {}"
    proof -
      have "contents (heap H3) x = None" for x
        using c3(1) ok(4) True by (cases "x = a") (auto simp: contents_alive)
      then show ?thesis by (simp add: contents_alive)
    qed
    then obtain H' where H': "sqlite3HashClear H3 = Some H'" "represents H' Map.empty"
      using clear_ok [OF l3] True by auto
    then obtain xs' where xs': "table_ok H' xs'" "map_in (contents (heap H')) Map.empty" by (auto simp: represents_def)
    have "contents (heap H') x = None" for x
    proof (rule ccontr)
      assume "contents (heap H') x \<noteq> None"
      then obtain k d where kd: "contents (heap H') x = Some (k, d)" by auto
      then have "d \<noteq> None" using xs'(1) unfolding table_ok_def contents_ok_def by blast
      then obtain d' where "d = Some d'" by blast
      then show False using xs'(2) kd by (auto simp: map_in_def)
    qed
    moreover have "contents (heap H3) x = None" for x
      using c3(1) ok(4) True by (cases "x = a") (auto simp: contents_alive)
    ultimately have "contents (heap H') = (contents (heap H))(a := None)" using c3(1) by (metis ext)
    then show ?thesis using H'(1) xs'(1) r c3(2) True by (auto simp: table_ok_def)
  next
    case False
    have "heap H3 x \<noteq> None \<longleftrightarrow> x \<in> set (ys @ zs)" for x
    proof -
      have "heap H3 x = None \<longleftrightarrow> x = a \<or> heap H x = None" using c3(1) by (metis contents_alive fun_upd_apply)
      moreover have "heap H x \<noteq> None \<longleftrightarrow> x \<in> set (ys @ a # zs)" using ok(4) by blast
      moreover have "a \<notin> set (ys @ zs)" using ok(1) by (simp add: list_ok_def)
      ultimately show ?thesis by auto
    qed
    then have "{x. heap H3 x \<noteq> None} = set (ys @ zs)" by blast
    moreover have "removeElementGivenHash H a h = Some H3" using False r c3(2) by auto
    ultimately show ?thesis using l3 b3 c3 by blast
  qed
qed

lemma represents_from:
  assumes "list_ok H xs" "buckets_ok H xs" "hcount H = length xs" "{a. heap H a \<noteq> None} = set xs"
    "map_in (contents (heap H)) m" "contents_ok (contents (heap H))"
  shows "represents H m"
  using assms by (auto simp: represents_def table_ok_def)

lemma replace_ok:
  assumes "table_ok H xs" "a \<in> set xs" "fold_case key = fold_case (key_at H a)" "heap H a = Some e"
  shows "let H' = H\<lparr>heap := (heap H)(a \<mapsto> e\<lparr>edata := data, pKey := key\<rparr>)\<rparr>
    in list_ok H' xs \<and> buckets_ok H' xs \<and> hcount H' = length xs \<and> {a. heap H' a \<noteq> None} = set xs \<and>
      contents (heap H') = (contents (heap H))(a \<mapsto> (key, data))"
proof -
  let ?H = "H\<lparr>heap := (heap H)(a \<mapsto> e\<lparr>edata := data, pKey := key\<rparr>)\<rparr>"
  have ok: "list_ok H xs" "buckets_ok H xs" "hcount H = length xs" "{a. heap H a \<noteq> None} = set xs"
    using assms(1) by (simp_all add: table_ok_def)
  have linked: "linked hp p ys n \<Longrightarrow> hp a = Some e \<Longrightarrow> linked (hp(a \<mapsto> e\<lparr>edata := data, pKey := key\<rparr>)) p ys n" for hp p ys n
    by (induction ys arbitrary: p) auto
  have "list_ok ?H xs" using ok(1) linked assms(4) by (simp add: list_ok_def)
  moreover have "bucket_of (key_at ?H x) n = bucket_of (key_at H x) n" for x n
    using StrICmp_same_bucket [of key "key_at H a"] assms(3) by (cases "x = a") (simp_all add: StrICmp_iff key_at_def)
  then have "buckets_ok ?H xs" using ok(2) by (simp add: buckets_ok_def cong: option.case_cong)
  moreover have "{x. heap ?H x \<noteq> None} = set xs" using ok(4) assms(2) by auto
  moreover have "contents (heap ?H) = (contents (heap H))(a \<mapsto> (key, data))" by (auto simp: contents_def fun_eq_iff)
  ultimately show ?thesis using ok(3) by (simp add: Let_def)
qed

lemma add_ok:
  fixes H :: "'d Hash" and data :: "'d option"
  assumes "table_ok H xs" "heap H a = None" "\<forall>n m. room n = Some m \<longrightarrow> 0 < m"
    and "ht H \<noteq> None \<longrightarrow> h = bucket_of key (htsize H)"
  shows "\<exists>H2 ys. add_element room a h H key data = Some H2 \<and>
    list_ok H2 ys \<and> buckets_ok H2 ys \<and> hcount H2 = length ys \<and> {a. heap H2 a \<noteq> None} = set ys \<and>
    contents (heap H2) = (contents (heap H))(a \<mapsto> (key, data))"
proof -
  define H0 where "H0 = H\<lparr>heap := (heap H)(a \<mapsto> \<lparr>enext = None, eprev = None, edata = data, pKey = key\<rparr>), hcount := hcount H + 1\<rparr>"
  have ok: "list_ok H xs" "buckets_ok H xs" "hcount H = length xs" "{a. heap H a \<noteq> None} = set xs"
    using assms(1) by (simp_all add: table_ok_def)
  have a: "a \<notin> set xs" using ok(4) assms(2) by blast
  have "list_ok H0 xs" using ok(1) a by (simp add: list_ok_def H0_def)
  moreover have "key_at H0 x = key_at H x" if "x \<in> set xs" for x using that a by (auto simp: key_at_def H0_def)
  then have "buckets_ok H0 xs"
    using ok(2) by (auto simp: buckets_ok_def H0_def intro: grouped_cong [rotated] split: option.splits) (fastforce intro: grouped_cong [rotated])
  moreover have c0: "contents (heap H0) = (contents (heap H))(a \<mapsto> (key, data))" "hcount H0 = Suc (length xs)"
    using ok(3) by (auto simp: contents_def fun_eq_iff H0_def)
  moreover have same: "ht H0 = ht H" "htsize H0 = htsize H" by (simp_all add: H0_def)
  ultimately obtain H1 h1 xs1 where 1: "(if hcount H0 \<ge> 10 \<and> hcount H0 > 2 * htsize H0 then
        map_option (\<lambda>(H, resized). (H, if resized then bucket_of key (htsize H) else h)) (rehash room H0 (hcount H0 * 2))
      else Some (H0, h)) = Some (H1, h1)" "list_ok H1 xs1" "buckets_ok H1 xs1" "set xs1 = set xs" "length xs1 = length xs"
      "contents (heap H1) = contents (heap H0)" "hcount H1 = hcount H0" "heap H1 a = heap H0 a"
      "ht H1 \<noteq> None \<longrightarrow> h1 = bucket_of key (htsize H1)"
  proof -
    assume st: "list_ok H0 xs" "buckets_ok H0 xs"
    obtain H1 xs1 r where r: "rehash room H0 (hcount H0 * 2) = Some (H1, r)" "list_ok H1 xs1" "buckets_ok H1 xs1"
        "set xs1 = set xs" "length xs1 = length xs" "contents (heap H1) = contents (heap H0)"
        "\<forall>x. x \<notin> set xs \<longrightarrow> heap H1 x = heap H0 x" "hcount H1 = hcount H0" "if r then ht H1 \<noteq> None else H1 = H0"
      using rehash_ok [OF st assms(3), of "hcount H0 * 2"] by blast
    show ?thesis
    proof (cases "hcount H0 \<ge> 10 \<and> hcount H0 > 2 * htsize H0")
      case True
      then show ?thesis
        using that [of H1 "if r then bucket_of key (htsize H1) else h" xs1] r a assms(4) same by (cases r) auto
    next
      case False
      then show ?thesis using that [of H0 h xs] st assms(4) same by auto
    qed
  qed
  have e: "heap H1 a = Some \<lparr>enext = None, eprev = None, edata = data, pKey = key\<rparr>" using 1(8) by (simp add: H0_def)
  have pE: "(if ht H1 \<noteq> None then Some h1 else None) = (if ht H1 = None then None else
      Some (bucket_of (pKey \<lparr>enext = None, eprev = None, edata = data, pKey = key\<rparr>) (htsize H1)))"
    using 1(9) by simp
  obtain H2 ys where 2: "insertElement H1 (if ht H1 \<noteq> None then Some h1 else None) a = Some H2" "list_ok H2 ys" "buckets_ok H2 ys"
      "set ys = insert a (set xs1)" "length ys = Suc (length xs1)" "relinked (insert a (set xs1)) H1 H2"
    using insertElement_ok [OF 1(2,3) _ e pE] a 1(4) by auto
  have c2: "contents (heap H2) = (contents (heap H))(a \<mapsto> (key, data))" using 2(6) 1(6) c0(1) by (simp add: relinked_def)
  have "{x. heap H2 x \<noteq> None} = set ys"
  proof -
    have "heap H2 x \<noteq> None \<longleftrightarrow> x = a \<or> heap H x \<noteq> None" for x
      using c2 by (metis contents_alive fun_upd_apply option.distinct(1))
    then show ?thesis using ok(4) 2(4) 1(4) by auto
  qed
  moreover have "hcount H2 = length ys" using 2(5,6) 1(5,7) c0(2) by (simp add: relinked_def)
  moreover have "add_element room a h H key data = Some H2"
    unfolding add_element_def H0_def [symmetric] Let_def 1(1) using 2(1) by simp
  ultimately show ?thesis using 2(2,3) c2 by blast
qed

text \<open>What looking a name up finds before an insertion: its bucket, and the element that
  carries the name, if any.\<close>

definition located :: "'d Hash \<Rightarrow> nat list \<Rightarrow> (int list \<Rightarrow> 'd option) \<Rightarrow> string \<Rightarrow> nat \<Rightarrow> nat option \<Rightarrow> bool" where
  "located H xs m key h r \<longleftrightarrow> findElementWithHash H key = Some (h, r)
    \<and> (ht H \<noteq> None \<longrightarrow> h = bucket_of key (htsize H)) \<and> elem_data H r = Some (m (fold_case key))
    \<and> (case r of None \<Rightarrow> m (fold_case key) = None
       | Some a \<Rightarrow> a \<in> set xs \<and> (\<exists>k d. contents (heap H) a = Some (k, Some d) \<and> fold_case k = fold_case key
           \<and> m (fold_case key) = Some d))"

lemma insert_located:
  assumes "located H xs m key h r"
  shows "sqlite3HashInsert room new_elem H key data =
     (if m (fold_case key) \<noteq> None then
       map_option (\<lambda>H. (H, m (fold_case key)))
         (if data = None then removeElementGivenHash H (the r) h
          else set_elem (the r) (\<lambda>e. e\<lparr>edata := data, pKey := key\<rparr>) H)
     else if data = None then Some (H, None)
     else
     case new_elem of
       None \<Rightarrow> Some (H, data)
     | Some a \<Rightarrow> map_option (\<lambda>H. (H, None)) (add_element room a h H key data))"
proof -
  have f: "findElementWithHash H key = Some (h, r)" "elem_data H r = Some (m (fold_case key))"
    using assms by (simp_all add: located_def)
  show ?thesis unfolding sqlite3HashInsert_def f(1) Option.bind.bind_lunit prod.case f(2) by simp
qed

lemma table_ok_parts:
  assumes "table_ok H xs"
  shows "list_ok H xs" "buckets_ok H xs" "hcount H = length xs" "{a. heap H a \<noteq> None} = set xs"
    "contents_ok (contents (heap H))"
  using assms by (simp_all add: table_ok_def)

lemma insert_adds:
  assumes "table_ok H xs" "map_in (contents (heap H)) m" "located H xs m key h r" "m (fold_case key) = None"
    and room: "\<forall>n k. room n = Some k \<longrightarrow> 0 < k" and a: "heap H a = None"
  shows "\<exists>H'. sqlite3HashInsert room (Some a) H key (Some d) = Some (H', None) \<and> represents H' (m(fold_case key \<mapsto> d))"
proof -
  have h: "ht H \<noteq> None \<longrightarrow> h = bucket_of key (htsize H)" using assms(3) by (simp add: located_def)
  from add_ok [OF assms(1) a room h, where data = "Some d"] obtain H2 ys where
    2: "add_element room a h H key (Some d) = Some H2"
      "list_ok H2 ys" "buckets_ok H2 ys" "hcount H2 = length ys" "{a. heap H2 a \<noteq> None} = set ys"
      "contents (heap H2) = (contents (heap H))(a \<mapsto> (key, Some d))"
    by blast
  have "contents (heap H) a = None" using a by (simp add: contents_alive)
  then have "map_in (contents (heap H2)) (m(fold_case key \<mapsto> d)) \<and> contents_ok (contents (heap H2))"
    using map_in_update [OF assms(2) table_ok_parts(5) [OF assms(1)], of key "fold_case key" a d] assms(4) 2(6) by simp
  then have "represents H2 (m(fold_case key \<mapsto> d))" using represents_from 2(2-5) by blast
  then show ?thesis unfolding insert_located [OF assms(3)] using assms(4) 2(1) by simp
qed

lemma insert_removes:
  assumes "table_ok H xs" "map_in (contents (heap H)) m" "located H xs m key h (Some a)"
  shows "\<exists>H'. sqlite3HashInsert room new_elem H key None = Some (H', m (fold_case key))
    \<and> represents H' (m(fold_case key := None))"
proof -
  obtain k d where a: "a \<in> set xs" "contents (heap H) a = Some (k, Some d)" "fold_case k = fold_case key"
      "m (fold_case key) = Some d" and h: "ht H \<noteq> None \<longrightarrow> h = bucket_of key (htsize H)"
    using assms(3) by (auto simp: located_def)
  have "ht H \<noteq> None \<longrightarrow> h = bucket_of (key_at H a) (htsize H)"
    using h StrICmp_same_bucket [of k key] a(3) contents_key [OF a(2)] by (simp add: StrICmp_iff)
  then obtain H' xs' where r: "removeElementGivenHash H a h = Some H'" "list_ok H' xs'" "buckets_ok H' xs'"
      "hcount H' = length xs'" "contents (heap H') = (contents (heap H))(a := None)" "{x. heap H' x \<noteq> None} = set xs'"
    using remove_ok [OF assms(1) a(1)] by blast
  have "map_in (contents (heap H')) (m(fold_case key := None)) \<and> contents_ok (contents (heap H'))"
    using map_in_remove [OF assms(2) table_ok_parts(5) [OF assms(1)] a(2,3)] r(5) by simp
  then have "represents H' (m(fold_case key := None))" using represents_from r(2-4,6) by blast
  then show ?thesis using insert_located [OF assms(3)] a(4) r(1) by simp
qed

lemma insert_replaces:
  assumes "table_ok H xs" "map_in (contents (heap H)) m" "located H xs m key h (Some a)"
  shows "\<exists>H'. sqlite3HashInsert room new_elem H key (Some d') = Some (H', m (fold_case key))
    \<and> represents H' (m(fold_case key \<mapsto> d'))"
proof -
  obtain k d where a: "a \<in> set xs" "contents (heap H) a = Some (k, Some d)" "fold_case k = fold_case key"
      "m (fold_case key) = Some d"
    using assms(3) by (auto simp: located_def)
  obtain e where e: "heap H a = Some e" using a(2) by (auto simp: contents_def)
  note rep = replace_ok [OF assms(1) a(1) _ e, of key "Some d'", unfolded contents_key [OF a(2)] a(3), OF refl, unfolded Let_def]
  have "map_in ((contents (heap H))(a \<mapsto> (key, Some d'))) (m(fold_case key \<mapsto> d'))
      \<and> contents_ok ((contents (heap H))(a \<mapsto> (key, Some d')))"
    using map_in_update [OF assms(2) table_ok_parts(5) [OF assms(1)], of key "fold_case key" a d'] a by auto
  then have "represents (H\<lparr>heap := (heap H)(a \<mapsto> e\<lparr>edata := Some d', pKey := key\<rparr>)\<rparr>) (m(fold_case key \<mapsto> d'))"
    using rep by (intro represents_from [of _ xs]) auto
  then show ?thesis using insert_located [OF assms(3)] a(4) e by (simp add: set_elem_def)
qed

lemma init_represents: "represents (sqlite3HashInit Map.empty :: 'd Hash) Map.empty"
  by (rule represents_from [of _ "[]"])
    (simp_all add: sqlite3HashInit_def list_ok_def buckets_ok_def contents_ok_def map_in_def contents_def)

text \<open>C31: a hash table represents a finite map from names, up to the case of their ASCII
  letters, to data: looking a name up gives what the map has there; inserting data adds or
  replaces and returns what was there, with null data removes, and if no memory is left for
  a new element returns the data and changes nothing. No pointer that is not there is followed,
  every element stays reachable through its bucket, through growing and whatever number of
  buckets an allocation gives, and removed elements are freed. A new table is empty, and
  clearing one frees every element.\<close>

theorem hash_table_is_map:
  assumes "represents H m" "\<forall>n k. room n = Some k \<longrightarrow> 0 < k" "\<forall>a. new_elem = Some a \<longrightarrow> heap H a = None"
  shows "sqlite3HashFind H key = Some (m (fold_case key)) \<and>
    (\<exists>H' r. sqlite3HashInsert room new_elem H key data = Some (H', r) \<and>
      (if data \<noteq> None \<and> m (fold_case key) = None \<and> new_elem = None then H' = H \<and> r = data
       else r = m (fold_case key) \<and> represents H' (m(fold_case key := data)))) \<and>
    (\<exists>H'. sqlite3HashClear H = Some H' \<and> represents H' Map.empty) \<and>
    represents (sqlite3HashInit Map.empty :: 'd Hash) Map.empty"
proof -
  obtain xs where ok: "table_ok H xs" and mi: "map_in (contents (heap H)) m" using assms(1) by (auto simp: represents_def)
  let ?k = "fold_case key"
  obtain h r where f: "located H xs m key h r" unfolding located_def using find_contents [OF ok mi, of key] by blast
  then have find: "sqlite3HashFind H key = Some (m ?k)" by (simp add: sqlite3HashFind_def located_def)
  have insert: "\<exists>H' r. sqlite3HashInsert room new_elem H key data = Some (H', r) \<and>
      (if data \<noteq> None \<and> m ?k = None \<and> new_elem = None then H' = H \<and> r = data
       else r = m ?k \<and> represents H' (m(?k := data)))"
  proof (cases r)
    case None
    then have m: "m ?k = None" using f by (simp add: located_def)
    then have "m(?k := None) = m" by auto
    show ?thesis
    proof (cases "data = None \<or> new_elem = None")
      case True
      with m \<open>m(?k := None) = m\<close> assms(1) show ?thesis
        unfolding insert_located [OF f] by (cases data) auto
    next
      case False
      then obtain d a where "data = Some d" "new_elem = Some a" by auto
      with m assms(3) insert_adds [OF ok mi f m assms(2), of a d] show ?thesis by simp
    qed
  next
    case (Some a)
    with f have "m ?k \<noteq> None" by (auto simp: located_def)
    then show ?thesis using insert_removes [OF ok mi f [unfolded Some]] insert_replaces [OF ok mi f [unfolded Some]]
      by (cases data) auto
  qed
  have clear: "\<exists>H'. sqlite3HashClear H = Some H' \<and> represents H' Map.empty"
    using clear_ok table_ok_parts(1,4) [OF ok] by blast
  show ?thesis using find insert clear init_represents by blast
qed

theorem hash_table_is_map_witness:
  "\<exists>H. sqlite3HashInsert (\<lambda>n. Some (Suc n)) (Some 1) (sqlite3HashInit Map.empty) ''Main'' (Some (7 :: nat)) = Some (H, None) \<and>
    sqlite3HashFind H ''MAIN'' = Some (Some 7)"
proof -
  let ?H = "sqlite3HashInit Map.empty :: nat Hash" and ?room = "\<lambda>n. Some (Suc n)"
  have "represents ?H Map.empty"
    by (rule represents_from [of _ "[]"])
      (simp_all add: sqlite3HashInit_def list_ok_def buckets_ok_def contents_ok_def map_in_def contents_def)
  moreover have room: "\<forall>n k. ?room n = Some k \<longrightarrow> 0 < k" by simp
  moreover have "\<forall>a. Some 1 = Some a \<longrightarrow> heap ?H a = None" by (simp add: sqlite3HashInit_def)
  ultimately obtain H where H: "sqlite3HashInsert ?room (Some 1) ?H ''Main'' (Some 7) = Some (H, None)"
      "represents H (Map.empty(fold_case ''Main'' \<mapsto> 7))"
    using hash_table_is_map [of ?H Map.empty ?room "Some 1" "''Main''" "Some 7"] by auto
  have fold: "fold_case ''MAIN'' = fold_case ''Main''" by (simp add: Tolower_eq)
  have "sqlite3HashFind H ''MAIN'' = Some ((Map.empty(fold_case ''Main'' \<mapsto> 7)) (fold_case ''MAIN''))"
    by (rule hash_table_is_map [OF H(2) room, of None, THEN conjunct1]) simp
  then have "sqlite3HashFind H ''MAIN'' = Some (Some 7)" unfolding fold by (simp only: fun_upd_same)
  with H(1) show ?thesis by blast
qed

end
