(* ===== verification/Sq_Random.thy ===== *)
theory Sq_Random
  imports Sq_Base "HOL-Library.Multiset"
begin

text \<open>
  \<^verbatim>\<open>src/sqlite3.c\<close>, random.c (lines 30178-30306): the pseudo-random number
  generator all threads share, its key schedule, the drawing of bytes, and the routines
  that save and restore its state. The seed comes from the operating system: the 256
  bytes \<open>sqlite3OsRandomness\<close> writes and the return value of
  \<open>sqlite3_initialize\<close> are arguments. The mutex the code holds from entry to return
  makes a call atomic, and is not part of the state.
\<close>

subsection \<open>State and operations\<close>

record prng =
  isInit :: bool
  iv :: u8
  jv :: u8
  sv :: "u8 list"

text \<open>Both copies are static data, so they start as zeroes.\<close>

definition zero_prng :: prng where
  "zero_prng = \<lparr>isInit = False, iv = 0, jv = 0, sv = replicate 256 0\<rparr>"

record prng_data =
  sqlite3Prng :: prng
  sqlite3SavedPrng :: prng

definition static_prng :: prng_data where
  "static_prng = \<lparr>sqlite3Prng = zero_prng, sqlite3SavedPrng = zero_prng\<rparr>"

definition seed_step :: "u8 list \<Rightarrow> nat \<Rightarrow> prng \<Rightarrow> prng" where
  "seed_step k i p =
     (let j = jv p + (sv p ! i + k ! i);
          t = sv p ! unat j
      in p\<lparr>jv := j, sv := ((sv p)[unat j := sv p ! i])[i := t]\<rparr>)"

definition seed_prng :: "u8 list \<Rightarrow> prng \<Rightarrow> prng" where
  "seed_prng k p =
     (let p = p\<lparr>jv := 0, iv := 0\<rparr>;
          p = p\<lparr>sv := map of_nat [0..<256]\<rparr>
      in (fold (seed_step k) [0..<256] p)\<lparr>isInit := True\<rparr>)"

definition draw_byte :: "prng \<Rightarrow> u8 \<times> prng" where
  "draw_byte p =
     (let i = iv p + 1;
          t = sv p ! unat i;
          j = jv p + t;
          s = (sv p)[unat i := sv p ! unat j];
          s = s[unat j := t];
          t = t + s ! unat i
      in (s ! unat t, p\<lparr>iv := i, jv := j, sv := s\<rparr>))"

fun draw_bytes :: "nat \<Rightarrow> prng \<Rightarrow> u8 list \<times> prng" where
  "draw_bytes 0 p = ([], p)"
| "draw_bytes (Suc n) p =
     (let (b, p) = draw_byte p; (bs, p) = draw_bytes n p in (b # bs, p))"

text \<open>The bytes written to \<open>pBuf\<close>, which is null when \<open>pBuf\<close> is false, and
  the state afterwards. \<open>rc\<close> is what \<open>sqlite3_initialize\<close> returns.\<close>

definition sqlite3_randomness :: "int \<Rightarrow> u8 list \<Rightarrow> int \<Rightarrow> bool \<Rightarrow> prng_data \<Rightarrow> u8 list \<times> prng_data" where
  "sqlite3_randomness rc k N pBuf d =
     (if rc \<noteq> 0 then ([], d)
      else if N \<le> 0 \<or> \<not> pBuf then ([], d\<lparr>sqlite3Prng := (sqlite3Prng d)\<lparr>isInit := False\<rparr>\<rparr>)
      else let p = sqlite3Prng d;
               p = (if \<not> isInit p then seed_prng k p else p);
               (bs, p) = draw_bytes (nat N) p
           in (bs, d\<lparr>sqlite3Prng := p\<rparr>))"

definition sqlite3PrngSaveState :: "prng_data \<Rightarrow> prng_data" where
  "sqlite3PrngSaveState d = d\<lparr>sqlite3SavedPrng := sqlite3Prng d\<rparr>"

definition sqlite3PrngRestoreState :: "prng_data \<Rightarrow> prng_data" where
  "sqlite3PrngRestoreState d = d\<lparr>sqlite3Prng := sqlite3SavedPrng d\<rparr>"

text \<open>Every way the state of the generator changes, from any thread. Each call that
  seeds gets 256 bytes of its own from the system.\<close>

inductive prng_reachable :: "prng_data \<Rightarrow> bool" where
  start: "prng_reachable static_prng"
| randomness: "prng_reachable d \<Longrightarrow> length k = 256
     \<Longrightarrow> prng_reachable (snd (sqlite3_randomness rc k N pBuf d))"
| save: "prng_reachable d \<Longrightarrow> prng_reachable (sqlite3PrngSaveState d)"
| restore: "prng_reachable d \<Longrightarrow> prng_reachable (sqlite3PrngRestoreState d)"

subsection \<open>The table is a permutation of the bytes\<close>

definition byte_table :: "u8 list \<Rightarrow> bool" where
  "byte_table s \<longleftrightarrow> length s = 256 \<and> distinct s"

lemma unat_u8 [simp]: "unat (b :: u8) < 256"
proof -
  have "(unsigned b :: nat) < 2 ^ LENGTH(8)" by (rule unsigned_less)
  then show ?thesis by simp
qed

lemma byte_table_all: assumes "byte_table s" shows "set s = UNIV"
proof (rule card_subset_eq)
  show "card (set s) = card (UNIV :: u8 set)"
    using assms distinct_card [of s] by (simp add: byte_table_def card_word)
qed auto

lemma byte_table_swap:
  "byte_table s \<Longrightarrow> a < 256 \<Longrightarrow> b < 256 \<Longrightarrow> byte_table (s[a := s ! b, b := s ! a])"
  by (simp add: byte_table_def distinct_swap)

lemma byte_table_identity: "byte_table (map of_nat [0..<256])"
proof -
  have "inj_on (of_nat :: nat \<Rightarrow> u8) {0..<256}"
    by (rule inj_on_inverseI [of _ unat]) (simp add: unat_of_nat take_bit_nat_eq_self)
  then show ?thesis by (simp add: byte_table_def distinct_map)
qed

lemma seed_step_table:
  "byte_table (sv p) \<Longrightarrow> i < 256 \<Longrightarrow> byte_table (sv (seed_step k i p))"
  using byte_table_swap [of "sv p" "unat (jv p + (sv p ! i + k ! i))" i]
  by (simp add: seed_step_def Let_def)

lemma fold_seed_table:
  "byte_table (sv p) \<Longrightarrow> n \<le> 256 \<Longrightarrow> byte_table (sv (fold (seed_step k) [0..<n] p))"
  by (induction n) (simp_all add: seed_step_table)

lemma seed_prng_table: "isInit (seed_prng k p) \<and> byte_table (sv (seed_prng k p))"
  by (simp add: seed_prng_def Let_def fold_seed_table byte_table_identity)

lemma draw_byte_table:
  "byte_table (sv p) \<Longrightarrow> byte_table (sv (snd (draw_byte p)))"
  using byte_table_swap [of "sv p" "unat (iv p + 1)" "unat (jv p + sv p ! unat (iv p + 1))"]
  by (simp add: draw_byte_def Let_def)

lemma draw_byte_init [simp]: "isInit (snd (draw_byte p)) = isInit p"
  by (simp add: draw_byte_def Let_def)

lemma draw_bytes_state:
  "isInit (snd (draw_bytes n p)) = isInit p
   \<and> (byte_table (sv p) \<longrightarrow> byte_table (sv (snd (draw_bytes n p))))
   \<and> length (fst (draw_bytes n p)) = n"
proof (induction n arbitrary: p)
  case (Suc n)
  obtain b p' where b: "draw_byte p = (b, p')" by (cases "draw_byte p") auto
  obtain bs p'' where bs: "draw_bytes n p' = (bs, p'')" by (cases "draw_bytes n p'") auto
  show ?case using Suc [of p'] draw_byte_table [of p] draw_byte_init [of p] by (auto simp: b bs)
qed simp

definition prng_ok :: "prng \<Rightarrow> bool" where
  "prng_ok p \<longleftrightarrow> (isInit p \<longrightarrow> byte_table (sv p))"



lemma randomness_prng_ok:
  "prng_ok (sqlite3Prng d) \<Longrightarrow> prng_ok (sqlite3Prng (snd (sqlite3_randomness rc k N pBuf d)))
   \<and> sqlite3SavedPrng (snd (sqlite3_randomness rc k N pBuf d)) = sqlite3SavedPrng d"
  using draw_bytes_state [of "nat N"] seed_prng_table [of k]
  by (auto simp: sqlite3_randomness_def prng_ok_def Let_def split: prod.splits) (metis snd_conv)+

subsection \<open>The bytes are an RC4 key stream of the seed\<close>

text \<open>RC4 over numbers: the table is a function, addition is modulo 256.\<close>

fun rc4_schedule :: "(nat \<Rightarrow> nat) \<Rightarrow> nat \<Rightarrow> nat \<times> (nat \<Rightarrow> nat)" where
  "rc4_schedule K 0 = (0, id)"
| "rc4_schedule K (Suc i) =
     (let (j, S) = rc4_schedule K i; j = (j + S i + K i) mod 256
      in (j, S(i := S j, j := S i)))"

fun rc4_stream :: "nat \<Rightarrow> nat \<Rightarrow> nat \<Rightarrow> (nat \<Rightarrow> nat) \<Rightarrow> nat list" where
  "rc4_stream 0 i j S = []"
| "rc4_stream (Suc n) i j S =
     (let i = (i + 1) mod 256; j = (j + S i) mod 256; S = S(i := S j, j := S i)
      in S ((S i + S j) mod 256) # rc4_stream n i j S)"

text \<open>RC4 itself starts the stream with both indexes at 0; the generator goes on with
  the \<open>j\<close> the schedule ended with.\<close>

definition rc4_keystream :: "u8 list \<Rightarrow> nat \<Rightarrow> nat list" where
  "rc4_keystream k n = rc4_stream n 0 0 (snd (rc4_schedule (\<lambda>i. unat (k ! i)) 256))"

definition prng_keystream :: "u8 list \<Rightarrow> nat \<Rightarrow> nat list" where
  "prng_keystream k n = (let (j, S) = rc4_schedule (\<lambda>i. unat (k ! i)) 256 in rc4_stream n 0 j S)"

definition table_fun :: "u8 list \<Rightarrow> nat \<Rightarrow> nat" where
  "table_fun s n = (if n < 256 then unat (s ! n) else n)"

lemma unat_plus_u8: "unat ((a :: u8) + b) = (unat a + unat b) mod 256"
  by (simp add: unat_word_ariths)

lemma table_fun_update:
  "length s = 256 \<Longrightarrow> a < 256 \<Longrightarrow> table_fun (s[a := b]) = (table_fun s)(a := unat b)"
  by (rule ext) (simp add: table_fun_def nth_list_update)

lemma table_fun_nth: "a < 256 \<Longrightarrow> unat (s ! a) = table_fun s a"
  by (simp add: table_fun_def)

lemma table_fun_swap:
  assumes "length s = 256"
  shows "table_fun (s[unat (a :: u8) := s ! unat b, unat (b :: u8) := s ! unat a])
    = (table_fun s)(unat a := table_fun s (unat b), unat b := table_fun s (unat a))"
  using assms by (simp add: table_fun_update table_fun_nth)

lemma swap_order: "f(a := f b, b := f a) = (f(b := f a, a := f b))"
  by (cases "a = b") (simp_all add: fun_upd_twist)

lemma seed_step_is_rc4:
  assumes "length (sv p) = 256" "i < 256"
  shows "length (sv (seed_step k i p)) = 256"
    and "unat (jv (seed_step k i p)) = (unat (jv p) + table_fun (sv p) i + unat (k ! i)) mod 256"
    and "table_fun (sv (seed_step k i p)) = (let j = unat (jv (seed_step k i p)) in
      (table_fun (sv p))(i := table_fun (sv p) j, j := table_fun (sv p) i))"
proof -
  have i: "i = unat (of_nat i :: u8)" using assms(2) by (simp add: unat_of_nat take_bit_nat_eq_self)
  show "length (sv (seed_step k i p)) = 256" using assms(1) by (simp add: seed_step_def Let_def)
  show "unat (jv (seed_step k i p)) = (unat (jv p) + table_fun (sv p) i + unat (k ! i)) mod 256"
    by (simp add: seed_step_def Let_def unat_plus_u8 table_fun_def assms(2) mod_simps add.assoc)
  show "table_fun (sv (seed_step k i p)) = (let j = unat (jv (seed_step k i p)) in
      (table_fun (sv p))(i := table_fun (sv p) j, j := table_fun (sv p) i))"
  proof -
    have "jv (seed_step k i p) = jv p + (sv p ! i + k ! i)"
      "sv (seed_step k i p) = (sv p)[unat (jv p + (sv p ! i + k ! i)) := sv p ! i,
         i := sv p ! unat (jv p + (sv p ! i + k ! i))]"
      by (simp_all add: seed_step_def Let_def)
    then show ?thesis
      using table_fun_swap [OF assms(1), of "jv p + (sv p ! i + k ! i)" "of_nat i"]
      by (simp only: i [symmetric] Let_def swap_order)
  qed
qed

lemma schedule_is_rc4:
  "n \<le> 256 \<Longrightarrow> length (sv p) = 256 \<Longrightarrow> jv p = 0 \<Longrightarrow> table_fun (sv p) = id \<Longrightarrow>
   (let q = fold (seed_step k) [0..<n] p in
      length (sv q) = 256 \<and> rc4_schedule (\<lambda>i. unat (k ! i)) n = (unat (jv q), table_fun (sv q)))"
proof (induction n)
  case (Suc n)
  let ?q = "fold (seed_step k) [0..<n] p"
  from Suc have "length (sv ?q) = 256" "n < 256"
    and "rc4_schedule (\<lambda>i. unat (k ! i)) n = (unat (jv ?q), table_fun (sv ?q))"
    by (simp_all add: Let_def)
  then show ?case by (simp add: Let_def seed_step_is_rc4)
qed (simp add: Let_def)

lemma draw_byte_is_rc4:
  assumes "length (sv p) = 256" "draw_byte p = (b, q)"
  shows "length (sv q) = 256"
    and "rc4_stream (Suc n) (unat (iv p)) (unat (jv p)) (table_fun (sv p))
      = unat b # rc4_stream n (unat (iv q)) (unat (jv q)) (table_fun (sv q))"
proof -
  let ?i = "iv p + 1" and ?j = "jv p + sv p ! unat (iv p + 1)"
  let ?s = "(sv p)[unat ?i := sv p ! unat ?j, unat ?j := sv p ! unat ?i]"
  have q: "iv q = ?i" "jv q = ?j" "sv q = ?s" "b = ?s ! unat (sv p ! unat ?i + ?s ! unat ?i)"
    using assms(2) by (auto simp: draw_byte_def Let_def)
  show l: "length (sv q) = 256" using assms(1) q by simp
  have i: "unat ?i = (unat (iv p) + 1) mod 256" by (simp add: unat_plus_u8)
  have j: "unat ?j = (unat (jv p) + table_fun (sv p) (unat ?i)) mod 256"
    by (simp add: unat_plus_u8 table_fun_nth)
  have s: "table_fun (sv q) = (table_fun (sv p))(unat ?i := table_fun (sv p) (unat ?j), unat ?j := table_fun (sv p) (unat ?i))"
    using table_fun_swap [OF assms(1), of ?i ?j] q(3) by simp
  have "sv p ! unat ?i = ?s ! unat ?j" using assms(1) by simp
  then have "b = sv q ! unat (sv q ! unat ?j + sv q ! unat ?i)" using q(3,4) by metis
  then have "unat b = table_fun (sv q) (unat (sv q ! unat ?j + sv q ! unat ?i))"
    by (simp only: table_fun_nth [OF unat_u8])
  then have b: "unat b = table_fun (sv q) ((table_fun (sv q) (unat ?i) + table_fun (sv q) (unat ?j)) mod 256)"
    by (simp only: unat_plus_u8 [of "sv q ! unat ?j"] table_fun_nth [OF unat_u8]
        add.commute [of "table_fun (sv q) (unat ?i)" "table_fun (sv q) (unat ?j)"])
  show "rc4_stream (Suc n) (unat (iv p)) (unat (jv p)) (table_fun (sv p))
      = unat b # rc4_stream n (unat (iv q)) (unat (jv q)) (table_fun (sv q))"
    by (simp only: rc4_stream.simps Let_def i [symmetric] j [symmetric] s [symmetric] b q(1,2))
qed

lemma draw_bytes_rc4:
  "length (sv p) = 256 \<Longrightarrow>
   map unat (fst (draw_bytes n p)) = rc4_stream n (unat (iv p)) (unat (jv p)) (table_fun (sv p))"
proof (induction n arbitrary: p)
  case (Suc n)
  obtain b q where b: "draw_byte p = (b, q)" by (cases "draw_byte p") auto
  show ?case using Suc.IH [of q] draw_byte_is_rc4 [OF Suc.prems b]
    by (simp add: b case_prod_beta del: rc4_stream.simps)
qed simp

lemma seed_step_iv [simp]: "iv (seed_step k i p) = iv p"
  by (simp add: seed_step_def Let_def)

lemma fold_seed_iv [simp]: "iv (fold (seed_step k) is p) = iv p"
  by (induction "is" arbitrary: p) simp_all

lemma table_fun_identity: "table_fun (map of_nat [0..<256]) = id"
  by (rule ext) (simp add: table_fun_def unat_of_nat take_bit_nat_eq_self)

lemma seed_prng_rc4:
  "iv (seed_prng k p) = 0"
  "unat (jv (seed_prng k p)) = fst (rc4_schedule (\<lambda>i. unat (k ! i)) 256)"
  "length (sv (seed_prng k p)) = 256"
  "table_fun (sv (seed_prng k p)) = snd (rc4_schedule (\<lambda>i. unat (k ! i)) 256)"
  using schedule_is_rc4 [of 256 "p\<lparr>jv := 0, iv := 0, sv := map of_nat [0..<256]\<rparr>" k]
  by (simp_all add: seed_prng_def Let_def table_fun_identity del: rc4_schedule.simps)

lemma seeded_stream:
  "map unat (fst (draw_bytes n (seed_prng k p))) = prng_keystream k n"
  by (simp add: draw_bytes_rc4 seed_prng_rc4 prng_keystream_def case_prod_beta
      del: rc4_schedule.simps)

text \<open>Drawing in two calls gives what one call would.\<close>

lemma draw_bytes_add:
  "draw_bytes (m + n) p =
     (let (bs, p) = draw_bytes m p; (cs, p) = draw_bytes n p in (bs @ cs, p))"
  by (induction m arbitrary: p) (simp_all add: case_prod_beta Let_def)

text \<open>A sequence of calls, each with the seed the system would give it.\<close>

fun randomness_calls :: "(u8 list \<times> int) list \<Rightarrow> prng_data \<Rightarrow> u8 list \<times> prng_data" where
  "randomness_calls [] d = ([], d)"
| "randomness_calls ((k, N) # cs) d =
     (let (bs, d) = sqlite3_randomness 0 k N True d; (cs, d) = randomness_calls cs d in (bs @ cs, d))"

lemma randomness_calls_initialised:
  assumes "isInit (sqlite3Prng d)" "\<forall>c \<in> set cs. 0 < snd c"
  shows "fst (randomness_calls cs d)
    = fst (draw_bytes (\<Sum>c \<leftarrow> cs. nat (snd c)) (sqlite3Prng d))"
  using assms
proof (induction cs arbitrary: d)
  case (Cons c cs)
  obtain k N where c: "c = (k, N)" by (cases c) auto
  obtain bs q where q: "draw_bytes (nat N) (sqlite3Prng d) = (bs, q)"
    by (cases "draw_bytes (nat N) (sqlite3Prng d)") auto
  have "isInit q" using draw_bytes_state [of "nat N" "sqlite3Prng d"] q Cons.prems by simp
  moreover have "sqlite3_randomness 0 k N True d = (bs, d\<lparr>sqlite3Prng := q\<rparr>)"
    using Cons.prems q c by (simp add: sqlite3_randomness_def)
  ultimately show ?case using Cons.IH [of "d\<lparr>sqlite3Prng := q\<rparr>"] Cons.prems q c
    by (simp add: draw_bytes_add case_prod_beta)
qed simp

lemma randomness_calls_seeded:
  assumes "\<not> isInit (sqlite3Prng d)" "0 < N" "\<forall>c \<in> set cs. 0 < snd c"
  shows "fst (randomness_calls ((k, N) # cs) d)
    = fst (draw_bytes (\<Sum>c \<leftarrow> (k, N) # cs. nat (snd c)) (seed_prng k (sqlite3Prng d)))"
proof -
  let ?d = "d\<lparr>sqlite3Prng := seed_prng k (sqlite3Prng d)\<rparr>"
  have "sqlite3_randomness 0 k N True d = sqlite3_randomness 0 k N True ?d"
    using assms seed_prng_table [of k "sqlite3Prng d"]
    by (simp add: sqlite3_randomness_def Let_def case_prod_beta)
  then have "fst (randomness_calls ((k, N) # cs) d) = fst (randomness_calls ((k, N) # cs) ?d)"
    by simp
  then show ?thesis using randomness_calls_initialised [of ?d "(k, N) # cs"] assms
      seed_prng_table [of k "sqlite3Prng d"]
    by (simp del: randomness_calls.simps)
qed

subsection \<open>Drawing a byte can be undone\<close>

definition undraw :: "prng \<Rightarrow> prng" where
  "undraw p =
     p\<lparr>iv := iv p - 1, jv := jv p - sv p ! unat (jv p),
       sv := (sv p)[unat (iv p) := sv p ! unat (jv p), unat (jv p) := sv p ! unat (iv p)]\<rparr>"

lemma list_swap_twice:
  "a < length xs \<Longrightarrow> b < length xs \<Longrightarrow>
   (let ys = xs[a := xs ! b, b := xs ! a] in ys[a := ys ! b, b := ys ! a]) = xs"
  by (rule nth_equalityI) (auto simp: Let_def nth_list_update)

lemma undraw_draw: "length (sv p) = 256 \<Longrightarrow> undraw (snd (draw_byte p)) = p"
  using list_swap_twice [of "unat (iv p + 1)" "sv p" "unat (jv p + sv p ! unat (iv p + 1))"]
  by (simp add: draw_byte_def undraw_def Let_def)

lemma prng_reachable_ok:
  "prng_reachable d \<Longrightarrow> prng_ok (sqlite3Prng d) \<and> prng_ok (sqlite3SavedPrng d)"
proof (induction rule: prng_reachable.induct)
  case start
  show ?case by (simp add: static_prng_def zero_prng_def prng_ok_def)
next
  case (randomness d k rc N pBuf)
  then show ?case by (simp add: randomness_prng_ok)
qed (simp_all add: sqlite3PrngSaveState_def sqlite3PrngRestoreState_def)

subsection \<open>Properties\<close>

text \<open>C32: Whatever calls, saves and restores came before, an initialised generator's
  table holds every byte exactly once, in the live state and in the saved one; and the
  step that draws a byte loses nothing: from the state after it the state before it can be
  computed, so two different states never run into the same sequence.\<close>

theorem randomness_permutation:
  assumes "prng_reachable d" and "p = sqlite3Prng d \<or> p = sqlite3SavedPrng d" and "isInit p"
  shows "length (sv p) = 256 \<and> distinct (sv p) \<and> set (sv p) = UNIV
    \<and> undraw (snd (draw_byte p)) = p"
proof -
  have "byte_table (sv p)" using prng_reachable_ok [OF assms(1)] assms(2,3) by (auto simp: prng_ok_def)
  then show ?thesis using byte_table_all undraw_draw by (auto simp: byte_table_def)
qed

lemma randomness_permutation_witness:
  "set (sv (sqlite3Prng (snd (sqlite3_randomness 0 (replicate 256 7) 3 True static_prng)))) = UNIV"
proof -
  let ?d = "snd (sqlite3_randomness 0 (replicate 256 7) 3 True static_prng)"
  have r: "prng_reachable ?d" by (intro prng_reachable.intros) simp
  have "isInit (sqlite3Prng ?d)"
    using draw_bytes_state [of 3 "seed_prng (replicate 256 7) zero_prng"]
      seed_prng_table [of "replicate 256 7" zero_prng]
    by (simp add: sqlite3_randomness_def static_prng_def Let_def case_prod_beta) (simp add: zero_prng_def)
  then show ?thesis using randomness_permutation [OF r disjI1 [OF refl]] by blast
qed

text \<open>C33: From a generator that is not initialised, any sequence of calls that ask for
  bytes writes, one after the other, the key stream of the first call's seed: how the bytes
  are divided into calls makes no difference, later seeds are not read, and the stream is
  that of RC4 written over numbers, except that its index \<open>j\<close> starts where the
  key schedule left it.\<close>

theorem randomness_is_keystream:
  assumes "\<not> isInit (sqlite3Prng d)" and "0 < N" and "\<forall>c \<in> set cs. 0 < snd c"
  shows "map unat (fst (randomness_calls ((k, N) # cs) d))
    = prng_keystream k (\<Sum>c \<leftarrow> (k, N) # cs. nat (snd c))"
  by (simp only: randomness_calls_seeded [OF assms] seeded_stream)

text \<open>A seed whose schedule leaves the table in order, and \<open>j\<close> at 255: RC4's
  first byte is 2, the generator's 0.\<close>

definition tame_seed :: "u8 list" where
  "tame_seed = map (\<lambda>i. if i = 0 then 0 else of_nat (257 - i)) [0..<256]"

lemma tame_step:
  assumes "0 < n" "n < 256"
  shows "(n - 1 + n + unat (tame_seed ! n)) mod 256 = n"
proof (cases "n = 1")
  case False
  with assms have "unat (tame_seed ! n) = 257 - n" unfolding tame_seed_def
    by (subst nth_map) (simp_all add: unat_of_nat take_bit_nat_eq_self del: of_nat_diff)
  with assms show ?thesis by (simp add: mod_if)
qed (simp add: tame_seed_def)

lemma tame_schedule:
  "0 < n \<Longrightarrow> n \<le> 256 \<Longrightarrow> rc4_schedule (\<lambda>i. unat (tame_seed ! i)) n = (n - 1, id)"
proof (induction n)
  case (Suc n)
  show ?case
  proof (cases n)
    case (Suc m)
    then show ?thesis using Suc.IH Suc.prems tame_step [of n] by (simp add: fun_eq_iff)
  qed (simp add: tame_seed_def fun_eq_iff)
qed simp

lemma hd_stream:
  "hd (rc4_stream (Suc n) i j S) =
     (let i = (i + 1) mod 256; j = (j + S i) mod 256; S = S(i := S j, j := S i)
      in S ((S i + S j) mod 256))"
  by (simp add: Let_def)

lemma randomness_is_keystream_witness:
  "map unat (fst (randomness_calls [(tame_seed, 1), ([], 2)] static_prng)) = prng_keystream tame_seed 3
   \<and> hd (prng_keystream tame_seed 3) = 0 \<and> hd (rc4_keystream tame_seed 3) = 2"
proof -
  have "\<not> isInit (sqlite3Prng static_prng)" by (simp add: static_prng_def zero_prng_def)
  from randomness_is_keystream [OF this, of 1 "[([], 2)]" tame_seed]
  have "map unat (fst (randomness_calls [(tame_seed, 1), ([], 2)] static_prng)) = prng_keystream tame_seed 3"
    by (simp add: numeral_3_eq_3 del: randomness_calls.simps)
  moreover have "hd (prng_keystream tame_seed 3) = 0" "hd (rc4_keystream tame_seed 3) = 2"
    by (simp_all add: prng_keystream_def rc4_keystream_def tame_schedule numeral_3_eq_3
        hd_stream Let_def del: rc4_schedule.simps rc4_stream.simps)
  ultimately show ?thesis by simp
qed

end
