(* ===== verification/Sq_Utf.thy ===== *)
theory Sq_Utf
  imports Sq_Base
begin

text \<open>
  \<^verbatim>\<open>src/sqlite3.c\<close>, utf.c (lines 30592-31122): reading and writing characters
  in UTF-8 and UTF-16, the translation of a text value between the encodings, the byte
  order mark, and the character counts; with the routines of vdbemem.c (lines 75811-76005)
  that give a value its own writable buffer. Bytes, code units and code points are
  numbers; where the code keeps a byte or a 32-bit sum, the model takes it modulo
  \<open>2 ^ 8\<close> or \<open>2 ^ 32\<close>. A buffer is the list of its bytes. The build does not
  define \<open>SQLITE_REPLACE_INVALID_UTF\<close>.
\<close>

subsection \<open>Characters\<close>

definition sqlite3Utf8Trans1 :: "nat list" where
  "sqlite3Utf8Trans1 =
    [0x00, 0x01, 0x02, 0x03, 0x04, 0x05, 0x06, 0x07,
     0x08, 0x09, 0x0a, 0x0b, 0x0c, 0x0d, 0x0e, 0x0f,
     0x10, 0x11, 0x12, 0x13, 0x14, 0x15, 0x16, 0x17,
     0x18, 0x19, 0x1a, 0x1b, 0x1c, 0x1d, 0x1e, 0x1f,
     0x00, 0x01, 0x02, 0x03, 0x04, 0x05, 0x06, 0x07,
     0x08, 0x09, 0x0a, 0x0b, 0x0c, 0x0d, 0x0e, 0x0f,
     0x00, 0x01, 0x02, 0x03, 0x04, 0x05, 0x06, 0x07,
     0x00, 0x01, 0x02, 0x03, 0x00, 0x01, 0x00, 0x00]"

text \<open>The conversion \<open>(u8)\<close>.\<close>

definition to_u8 :: "nat \<Rightarrow> nat" where
  "to_u8 n = n mod 256"

definition WRITE_UTF8 :: "nat \<Rightarrow> nat list" where
  "WRITE_UTF8 c =
    (if c < 0x00080 then [to_u8 (c AND 0xFF)]
     else if c < 0x00800 then
       [to_u8 (0xC0 + to_u8 (drop_bit 6 c AND 0x1F)), to_u8 (0x80 + to_u8 (c AND 0x3F))]
     else if c < 0x10000 then
       [to_u8 (0xE0 + to_u8 (drop_bit 12 c AND 0x0F)), to_u8 (0x80 + to_u8 (drop_bit 6 c AND 0x3F)),
        to_u8 (0x80 + to_u8 (c AND 0x3F))]
     else
       [to_u8 (0xF0 + to_u8 (drop_bit 18 c AND 0x07)), to_u8 (0x80 + to_u8 (drop_bit 12 c AND 0x3F)),
        to_u8 (0x80 + to_u8 (drop_bit 6 c AND 0x3F)), to_u8 (0x80 + to_u8 (c AND 0x3F))])"

definition WRITE_UTF16LE :: "nat \<Rightarrow> nat list" where
  "WRITE_UTF16LE c =
    (if c \<le> 0xFFFF then [to_u8 (c AND 0x00FF), to_u8 (drop_bit 8 c AND 0x00FF)]
     else
       [to_u8 ((drop_bit 10 c AND 0x003F) + (drop_bit 10 (c - 0x10000) AND 0x00C0)),
        to_u8 (0x00D8 + (drop_bit 18 (c - 0x10000) AND 0x03)),
        to_u8 (c AND 0x00FF), to_u8 (0x00DC + (drop_bit 8 c AND 0x03))])"

definition WRITE_UTF16BE :: "nat \<Rightarrow> nat list" where
  "WRITE_UTF16BE c =
    (if c \<le> 0xFFFF then [to_u8 (drop_bit 8 c AND 0x00FF), to_u8 (c AND 0x00FF)]
     else
       [to_u8 (0x00D8 + (drop_bit 18 (c - 0x10000) AND 0x03)),
        to_u8 ((drop_bit 10 c AND 0x003F) + (drop_bit 10 (c - 0x10000) AND 0x00C0)),
        to_u8 (0x00DC + (drop_bit 8 c AND 0x03)), to_u8 (c AND 0x00FF)])"

text \<open>The continuation bytes, up to the end of the input.\<close>

fun read_more :: "nat \<Rightarrow> nat list \<Rightarrow> nat \<times> nat list" where
  "read_more c [] = (c, [])"
| "read_more c (b # zIn) =
    (if b AND 0xc0 = 0x80 then read_more ((push_bit 6 c + (0x3f AND b)) mod 2 ^ 32) zIn
     else (c, b # zIn))"

text \<open>The bytes from \<open>zIn\<close> to \<open>zTerm\<close> are the list; the macro is used on a
  list that is not empty.\<close>

fun READ_UTF8 :: "nat list \<Rightarrow> nat \<times> nat list" where
  "READ_UTF8 [] = (0, [])"
| "READ_UTF8 (c # zIn) =
    (if c \<ge> 0xc0 then
       let (c, zIn) = read_more (sqlite3Utf8Trans1 ! (c - 0xc0)) zIn
       in (if c < 0x80 \<or> c AND 0xFFFFF800 = 0xD800 \<or> c AND 0xFFFFFFFE = 0xFFFE then 0xFFFD else c, zIn)
     else (c, zIn))"

lemma read_more_shorter: "length (snd (read_more c zs)) \<le> length zs"
  by (induction c zs rule: read_more.induct) auto

lemma READ_UTF8_shorter: "zs \<noteq> [] \<Longrightarrow> length (snd (READ_UTF8 zs)) < length zs"
  by (cases zs) (auto simp: case_prod_beta less_Suc_eq_le intro: read_more_shorter)

subsection \<open>The loops of the translation\<close>

function utf8_to_utf16 :: "(nat \<Rightarrow> nat list) \<Rightarrow> nat list \<Rightarrow> nat list" where
  "utf8_to_utf16 put zIn =
    (if zIn = [] then [] else let (c, zIn') = READ_UTF8 zIn in put c @ utf8_to_utf16 put zIn')"
  by pat_completeness auto
termination
  by (relation "measure (\<lambda>(w, zs). length zs)") (auto dest: READ_UTF8_shorter, metis READ_UTF8_shorter snd_conv)

declare utf8_to_utf16.simps [simp del]

text \<open>The two bytes of a code unit, little-endian and big-endian.\<close>

definition unit_le :: "nat \<Rightarrow> nat \<Rightarrow> nat" where
  "unit_le b0 b1 = b0 + push_bit 8 b1"

definition unit_be :: "nat \<Rightarrow> nat \<Rightarrow> nat" where
  "unit_be b0 b1 = push_bit 8 b0 + b1"

text \<open>The input has an even number of bytes.\<close>

fun utf16_to_utf8 :: "(nat \<Rightarrow> nat \<Rightarrow> nat) \<Rightarrow> nat list \<Rightarrow> nat list" where
  "utf16_to_utf8 u (b0 # b1 # b2 # b3 # zIn) =
    (let c = u b0 b1
     in if c \<ge> 0xd800 \<and> c < 0xe000 then
          let c2 = u b2 b3;
              c = (c2 AND 0x03FF) + push_bit 10 (c AND 0x003F) + push_bit 10 ((c AND 0x03C0) + 0x0040)
          in WRITE_UTF8 c @ utf16_to_utf8 u zIn
        else WRITE_UTF8 c @ utf16_to_utf8 u (b2 # b3 # zIn))"
| "utf16_to_utf8 u (b0 # b1 # zIn) = WRITE_UTF8 (u b0 b1) @ utf16_to_utf8 u zIn"
| "utf16_to_utf8 u zIn = []"

fun swap_bytes :: "nat list \<Rightarrow> nat list" where
  "swap_bytes (b0 # b1 # zIn) = b1 # b0 # swap_bytes zIn"
| "swap_bytes zIn = zIn"

subsection \<open>Masks as division\<close>

named_theorems mask_arith \<open>masks and shifts of numbers as remainders and quotients\<close>

lemma and_field: "(n :: nat) AND push_bit k (mask m) = n div 2 ^ k mod 2 ^ m * 2 ^ k"
proof -
  have "n AND push_bit k (mask m) = push_bit k (take_bit m (drop_bit k n))"
    by (rule bit_eqI) (auto simp: bit_simps)
  then show ?thesis by (simp add: push_bit_eq_mult take_bit_eq_mod drop_bit_eq_div)
qed

lemma and_low: "(n :: nat) AND mask m = n mod 2 ^ m"
  by (simp add: take_bit_eq_mask [symmetric] take_bit_eq_mod)

lemma low_masks [mask_arith]:
  "(n :: nat) AND 0xFF = n mod 256" "n AND 0x3F = n mod 64" "n AND 0x1F = n mod 32"
  "n AND 0x0F = n mod 16" "n AND 0x07 = n mod 8" "n AND 0x03 = n mod 4" "n AND 0x3FF = n mod 1024"
  "0x3F AND n = n mod 64"
  using and_low [of n 8] and_low [of n 6] and_low [of n 5] and_low [of n 4] and_low [of n 3]
    and_low [of n 2] and_low [of n 10]
  by (simp_all add: mask_eq_exp_minus_1 and.commute)

lemma field_masks [mask_arith]:
  "(n :: nat) AND 0xC0 = n div 64 mod 4 * 64" "n AND 0x3C0 = n div 64 mod 16 * 64"
  "n AND 0xFFFFF800 = n div 2048 mod 2097152 * 2048" "n AND 0xFFFFFFFE = n div 2 mod 2147483648 * 2"
  using and_field [of n 6 2] and_field [of n 6 4] and_field [of n 11 21] and_field [of n 1 31]
  by (simp_all add: mask_eq_exp_minus_1 push_bit_eq_mult)

lemma shifts [mask_arith]:
  "drop_bit 6 (n :: nat) = n div 64" "drop_bit 8 n = n div 256" "drop_bit 10 n = n div 1024"
  "drop_bit 12 n = n div 4096" "drop_bit 18 n = n div 262144"
  "push_bit 6 n = n * 64" "push_bit 8 n = n * 256" "push_bit 10 n = n * 1024"
  by (simp_all add: drop_bit_eq_div push_bit_eq_mult)

lemmas [mask_arith] = to_u8_def

subsection \<open>The encodings, stated with division\<close>

text \<open>The code points the reader keeps: no surrogates, and neither FFFE nor FFFF.\<close>

definition code_point :: "nat \<Rightarrow> bool" where
  "code_point c \<longleftrightarrow> c < 0x110000 \<and> \<not> (0xD800 \<le> c \<and> c < 0xE000) \<and> c \<noteq> 0xFFFE \<and> c \<noteq> 0xFFFF"

definition utf8_bytes :: "nat \<Rightarrow> nat list" where
  "utf8_bytes c =
    (if c < 0x80 then [c]
     else if c < 0x800 then [0xC0 + c div 64, 0x80 + c mod 64]
     else if c < 0x10000 then [0xE0 + c div 4096, 0x80 + c div 64 mod 64, 0x80 + c mod 64]
     else [0xF0 + c div 262144, 0x80 + c div 4096 mod 64, 0x80 + c div 64 mod 64, 0x80 + c mod 64])"

definition utf16_units :: "nat \<Rightarrow> nat list" where
  "utf16_units c =
    (if c < 0x10000 then [c]
     else [0xD800 + (c - 0x10000) div 1024, 0xDC00 + (c - 0x10000) mod 1024])"

definition bytes_le :: "nat \<Rightarrow> nat list" where
  "bytes_le u = [u mod 256, u div 256]"

definition bytes_be :: "nat \<Rightarrow> nat list" where
  "bytes_be u = [u div 256, u mod 256]"

lemma WRITE_UTF8_bytes: "c < 0x110000 \<Longrightarrow> WRITE_UTF8 c = utf8_bytes c"
  by (auto simp: WRITE_UTF8_def utf8_bytes_def mask_arith div_mult2_eq [symmetric])

lemma pair_split:
  assumes "0x10000 \<le> c" "c < 0x110000"
  shows "\<exists>h l. c = 0x10000 + h * 1024 + l \<and> h < 1024 \<and> l < (1024 :: nat)"
proof (intro exI conjI)
  show "c = 0x10000 + (c - 0x10000) div 1024 * 1024 + (c - 0x10000) mod 1024"
    using assms(1) by simp
  show "(c - 0x10000) div 1024 < 1024" using assms by (simp add: less_mult_imp_div_less)
qed simp

text \<open>The bytes of the two surrogates.\<close>

lemma surrogate_bytes:
  assumes "h < 1024"
  shows "(h mod 64 + h div 64 mod 4 * 64) = (0xD800 + h) mod (256 :: nat)"
    "0xD8 + h div 256 mod 4 = (0xD800 + h) div (256 :: nat)"
    "0xDC + h div 256 mod 4 = (0xDC00 + h) div (256 :: nat)"
    "(0xDC00 + h) mod 256 = h mod (256 :: nat)"
    "h div 256 mod 4 < (4 :: nat)"
proof -
  have "h div 256 < 4" using assms by (simp add: less_mult_imp_div_less)
  then show "0xD8 + h div 256 mod 4 = (0xD800 + h) div (256 :: nat)"
    "0xDC + h div 256 mod 4 = (0xDC00 + h) div (256 :: nat)"
    using div_mult_self2 [of 256 h 216] div_mult_self2 [of 256 h 220] by (simp_all add: add.commute)
  show "(h mod 64 + h div 64 mod 4 * 64) = (0xD800 + h) mod (256 :: nat)"
    using mod_mult_self2 [of h 256 216] mod_mult2_eq [of h 64 4] by (simp add: add.commute)
  show "(0xDC00 + h) mod 256 = h mod (256 :: nat)"
    using mod_mult_self2 [of h 256 220] by (simp add: add.commute)
qed simp

lemma pair_arith:
  assumes "c = 0x10000 + h * 1024 + l" "h < 1024" "l < (1024 :: nat)"
  shows "c div 1024 mod 64 = h mod 64" "(c - 0x10000) div 1024 = h" "(c - 0x10000) mod 1024 = l"
    "(c - 0x10000) div 262144 = h div 256" "c div 256 mod 4 = l div 256 mod 4" "c mod 256 = l mod 256"
proof -
  have c: "c = l + 256 * (4 * (64 + h))" using assms(1) by simp
  show "c mod 256 = l mod 256" unfolding c by (rule mod_mult_self2)
  have "c div 256 = l div 256 + 4 * (64 + h)" unfolding c
    by (subst div_mult_self2) (simp_all add: add.commute)
  then show "c div 256 mod 4 = l div 256 mod 4" by (simp only: mod_mult_self2)
  have "c div 1024 = h + 64 * 1" using assms by simp
  then show "c div 1024 mod 64 = h mod 64" by (simp only: mod_mult_self2)
  show "(c - 0x10000) div 1024 = h" "(c - 0x10000) mod 1024 = l" using assms by simp_all
  then show "(c - 0x10000) div 262144 = h div 256"
    using div_mult2_eq [of "c - 0x10000" 1024 256] by simp
qed

lemma WRITE_UTF16_bytes:
  assumes "c < 0x110000"
  shows "WRITE_UTF16LE c = concat (map bytes_le (utf16_units c))"
    and "WRITE_UTF16BE c = concat (map bytes_be (utf16_units c))"
proof -
  have "WRITE_UTF16LE c = concat (map bytes_le (utf16_units c))
    \<and> WRITE_UTF16BE c = concat (map bytes_be (utf16_units c))"
  proof (cases "c < 0x10000")
    case True
    then have "c div 256 mod 256 = c div 256" by (simp add: less_mult_imp_div_less)
    with True show ?thesis
      by (simp add: WRITE_UTF16LE_def WRITE_UTF16BE_def utf16_units_def bytes_le_def bytes_be_def mask_arith)
  next
    case False
    then obtain h l where c: "c = 0x10000 + h * 1024 + l" "h < 1024" "l < 1024"
      using pair_split [of c] assms by auto
    have n: "(c \<le> 0xFFFF) = False" "(c < 0x10000) = False" using False by simp_all
    have small: "(0xD800 + h) div 256 mod 256 = (0xD800 + h) div 256"
      "(0xDC00 + l) div 256 mod 256 = (0xDC00 + l) div 256"
      by (rule mod_less, rule less_mult_imp_div_less, use c in simp)+
    show ?thesis
      by (simp only: WRITE_UTF16LE_def WRITE_UTF16BE_def utf16_units_def bytes_le_def bytes_be_def n
          mask_arith pair_arith [OF c] small surrogate_bytes(1,2) [OF c(2)] surrogate_bytes(3,4) [OF c(3)]
          if_False list.map concat.simps append.simps mod_mod_trivial simp_thms)
  qed
  then show "WRITE_UTF16LE c = concat (map bytes_le (utf16_units c))"
    "WRITE_UTF16BE c = concat (map bytes_be (utf16_units c))" by blast+
qed

subsection \<open>Reading what was written\<close>

lemma trans1_lead:
  "i < 32 \<Longrightarrow> sqlite3Utf8Trans1 ! i = i"
  "i < 16 \<Longrightarrow> sqlite3Utf8Trans1 ! (32 + i) = i"
  "i < 8 \<Longrightarrow> sqlite3Utf8Trans1 ! (48 + i) = i"
proof -
  have "list_all (\<lambda>i. sqlite3Utf8Trans1 ! i = i) [0..<32]"
    "list_all (\<lambda>i. sqlite3Utf8Trans1 ! (32 + i) = i) [0..<16]"
    "list_all (\<lambda>i. sqlite3Utf8Trans1 ! (48 + i) = i) [0..<8]" by code_simp+
  then show "i < 32 \<Longrightarrow> sqlite3Utf8Trans1 ! i = i"
    "i < 16 \<Longrightarrow> sqlite3Utf8Trans1 ! (32 + i) = i"
    "i < 8 \<Longrightarrow> sqlite3Utf8Trans1 ! (48 + i) = i" by (simp_all add: list_all_iff)
qed

definition no_continuation :: "nat list \<Rightarrow> bool" where
  "no_continuation zs \<longleftrightarrow> (case zs of [] \<Rightarrow> True | b # _ \<Rightarrow> b AND 0xc0 \<noteq> 0x80)"

lemma read_more_stop [simp]: "no_continuation zs \<Longrightarrow> read_more c zs = (c, zs)"
  by (cases zs) (simp_all add: no_continuation_def)

lemma read_more_byte:
  assumes "x < 64" "c * 64 + x < 2 ^ 32"
  shows "read_more c ((0x80 + x) # zs) = read_more (c * 64 + x) zs"
proof -
  have "(0x80 + x) div 64 = 2" "(0x80 + x) mod 64 = x"
    using assms(1) mod_mult_self3 [of 2 64 x] by simp_all
  then show ?thesis using assms(2) by (simp add: mask_arith)
qed

lemma no_continuation_lead:
  "no_continuation (b # zs) \<longleftrightarrow> b div 64 mod 4 \<noteq> 2"
  by (simp add: no_continuation_def mask_arith)

lemma utf8_bytes_lead: "c < 0x110000 \<Longrightarrow> no_continuation (utf8_bytes c @ zs)"
proof -
  assume c: "c < 0x110000"
  have "(0xC0 + x) div 64 = 3" if "x < 64" for x :: nat using that by auto
  moreover have "c < 0x800 \<Longrightarrow> c div 64 < 64" "c < 0x10000 \<Longrightarrow> 0x20 + c div 4096 < 64" "0x30 + c div 262144 < 64"
    using c by auto
  ultimately have "c < 0x800 \<Longrightarrow> (0xC0 + c div 64) div 64 = 3" "c < 0x10000 \<Longrightarrow> (0xC0 + (0x20 + c div 4096)) div 64 = 3"
    "(0xC0 + (0x30 + c div 262144)) div 64 = 3" by blast+
  then show "no_continuation (utf8_bytes c @ zs)"
    by (auto simp: utf8_bytes_def no_continuation_lead)
qed

definition kept :: "nat \<Rightarrow> nat" where
  "kept c = (if (0xD800 \<le> c \<and> c \<le> 0xDFFF) \<or> c AND 0xFFFFFFFE = 0xFFFE then 0xFFFD else c)"

lemma surrogate_mask: "c < 0x110000 \<Longrightarrow> c AND 0xFFFFF800 = 0xD800 \<longleftrightarrow> 0xD800 \<le> c \<and> c \<le> (0xDFFF :: nat)"
  by (auto simp: mask_arith)

lemma READ_lead:
  assumes "i < 64" "read_more (sqlite3Utf8Trans1 ! i) zs = (c, rest)" "0x80 \<le> c" "c < 0x110000"
  shows "READ_UTF8 ((0xC0 + i) # zs) = (kept c, rest)"
  using assms by (simp add: kept_def surrogate_mask)


lemma read_digit:
  assumes "n < 2 ^ 32"
  shows "read_more (n div 64) ((0x80 + n mod 64) # zs) = read_more n zs"
  using read_more_byte [of "n mod 64" "n div 64" zs] assms by simp

lemma READ_lead_table:
  assumes "sqlite3Utf8Trans1 ! i = t" "i < 64" "read_more t zs = (c, rest)" "0x80 \<le> c" "c < 0x110000"
  shows "READ_UTF8 ((0xC0 + i) # zs) = (kept c, rest)"
  using READ_lead [of i zs c rest] assms by (simp only:)

text \<open>The self-test of the source: what the writer writes, the reader reads, and stops
  where the writer did.\<close>

lemma utf8_self_test:
  assumes c: "c < 0x110000" and rest: "no_continuation rest"
  shows "READ_UTF8 (utf8_bytes c @ rest) = (if c < 0x80 then c else kept c, rest)"
proof -
  have d: "c div 64 div 64 = c div 4096" "c div 4096 div 64 = c div 262144" "c < 2 ^ 32"
    "c div 64 < 2 ^ 32" "c div 4096 < 2 ^ 32"
    using c by (simp_all add: div_mult2_eq [symmetric] less_mult_imp_div_less)
  note digit = read_digit [OF d(3)] read_digit [OF d(4), unfolded d(1)] read_digit [OF d(5), unfolded d(2)]
    read_more_stop [OF rest]
  consider "c < 0x80" | "0x80 \<le> c" "c < 0x800" | "0x800 \<le> c" "c < 0x10000" | "0x10000 \<le> c" by linarith
  then show ?thesis
  proof cases
    case 2
    then have i: "c div 64 < 32" by (simp add: less_mult_imp_div_less)
    have "READ_UTF8 ((0xC0 + c div 64) # (0x80 + c mod 64) # rest) = (kept c, rest)"
      by (rule READ_lead_table [OF trans1_lead(1) [OF i] _ _ _ c]) (use i 2 in \<open>simp, simp only: digit, simp\<close>)
    with 2 show ?thesis by (simp add: utf8_bytes_def del: READ_UTF8.simps)
  next
    case 3
    then have i: "c div 4096 < 16" by (simp add: less_mult_imp_div_less)
    have "READ_UTF8 ((0xC0 + (32 + c div 4096)) # (0x80 + c div 64 mod 64) # (0x80 + c mod 64) # rest) = (kept c, rest)"
      by (rule READ_lead_table [OF trans1_lead(2) [OF i] _ _ _ c]) (use i 3 in \<open>simp, simp only: digit, simp\<close>)
    with 3 show ?thesis by (simp add: utf8_bytes_def del: READ_UTF8.simps)
  next
    case 4
    then have i: "c div 262144 < 8" using c by (simp add: less_mult_imp_div_less)
    have "READ_UTF8 ((0xC0 + (48 + c div 262144)) # (0x80 + c div 4096 mod 64) # (0x80 + c div 64 mod 64) # (0x80 + c mod 64) # rest) = (kept c, rest)"
      by (rule READ_lead_table [OF trans1_lead(3) [OF i] _ _ _ c]) (use i 4 in \<open>simp, simp only: digit, simp\<close>)
    with 4 show ?thesis by (simp add: utf8_bytes_def del: READ_UTF8.simps)
  qed (simp add: utf8_bytes_def)
qed

text \<open>\<open>sqlite3Utf8Read\<close> on a text with its zero terminator, which stops the loop:
  the list never runs out inside a character. \<open>sqlite3UtfSelfTest\<close> runs the check of
  the lemma on every code point.\<close>

definition sqlite3Utf8Read :: "nat list \<Rightarrow> nat \<times> nat list" where
  "sqlite3Utf8Read pz = READ_UTF8 pz"

lemma sqlite3UtfSelfTest:
  assumes "i < 0x00110000"
  shows "length (WRITE_UTF8 i) \<le> 4 \<and> WRITE_UTF8 i \<noteq> []
    \<and> sqlite3Utf8Read (WRITE_UTF8 i @ 0 # rest)
      = (if 0xD800 \<le> i \<and> i \<le> 0xDFFF \<or> i AND 0xFFFFFFFE = 0xFFFE then 0xFFFD else i, 0 # rest)"
proof -
  have "no_continuation (0 # rest)" by (simp add: no_continuation_def)
  then have "READ_UTF8 (utf8_bytes i @ 0 # rest) = (if i < 0x80 then i else kept i, 0 # rest)"
    using utf8_self_test [OF assms] by blast
  moreover have "kept i = i" if "i < 0x80" using that by (auto simp: kept_def mask_arith)
  ultimately show ?thesis using assms
    by (auto simp: sqlite3Utf8Read_def WRITE_UTF8_bytes kept_def simp del: READ_UTF8.simps)
      (auto simp: utf8_bytes_def)
qed

subsection \<open>Whole texts\<close>

text \<open>A text in one of the three encodings: 1 is UTF-8, 2 UTF-16 little-endian, 3
  UTF-16 big-endian.\<close>

lemmas encodings = SQLITE_UTF8_def SQLITE_UTF16LE_def SQLITE_UTF16BE_def

definition encode_char :: "nat \<Rightarrow> nat \<Rightarrow> nat list" where
  "encode_char enc c =
    (if enc = SQLITE_UTF8 then utf8_bytes c
     else if enc = SQLITE_UTF16LE then concat (map bytes_le (utf16_units c))
     else concat (map bytes_be (utf16_units c)))"

lemma encode_char_utf:
  "encode_char SQLITE_UTF8 c = utf8_bytes c"
  "encode_char SQLITE_UTF16LE c = concat (map bytes_le (utf16_units c))"
  "encode_char SQLITE_UTF16BE c = concat (map bytes_be (utf16_units c))"
  by (simp_all add: encode_char_def encodings)

definition encode :: "nat \<Rightarrow> nat list \<Rightarrow> nat list" where
  "encode enc cs = concat (map (encode_char enc) cs)"

lemma encode_simps [simp]: "encode enc [] = []" "encode enc (c # cs) = encode_char enc c @ encode enc cs"
  by (simp_all add: encode_def)

lemma code_point_kept: "code_point c \<Longrightarrow> kept c = c"
  by (auto simp: code_point_def kept_def mask_arith)

lemma utf8_text_lead: "list_all code_point cs \<Longrightarrow> no_continuation (encode SQLITE_UTF8 cs)"
  by (cases cs) (simp_all add: no_continuation_def [of "[]"] encode_char_def utf8_bytes_lead code_point_def)

lemma utf8_to_utf16_encode:
  assumes "\<And>c. c < 0x110000 \<Longrightarrow> put c = encode_char enc c"
  shows "list_all code_point cs \<Longrightarrow> utf8_to_utf16 put (encode SQLITE_UTF8 cs) = encode enc cs"
proof (induction cs)
  case Nil
  show ?case by (simp add: utf8_to_utf16.simps)
next
  case (Cons c cs)
  then have c: "code_point c" "c < 0x110000" by (simp_all add: code_point_def)
  have "READ_UTF8 (utf8_bytes c @ encode SQLITE_UTF8 cs) = (c, encode SQLITE_UTF8 cs)"
    using utf8_self_test [OF c(2) utf8_text_lead [of cs]] Cons.prems c by (simp add: code_point_kept)
  moreover have "utf8_bytes c \<noteq> []" by (simp add: utf8_bytes_def)
  ultimately show ?case using Cons c assms
    by (subst utf8_to_utf16.simps) (simp add: encode_char_def [of SQLITE_UTF8] del: READ_UTF8.simps)
qed

lemma utf16_unit_step:
  "\<not> (0xd800 \<le> u b0 b1 \<and> u b0 b1 < 0xe000) \<Longrightarrow>
   utf16_to_utf8 u (b0 # b1 # zs) = WRITE_UTF8 (u b0 b1) @ utf16_to_utf8 u zs"
  by (cases zs; cases "tl zs") auto

lemma surrogate_pair:
  assumes "c = 0x10000 + h * 1024 + l" "h < 1024" "l < (1024 :: nat)"
  shows "((0xDC00 + l) AND 0x03FF) + push_bit 10 ((0xD800 + h) AND 0x003F)
    + push_bit 10 (((0xD800 + h) AND 0x03C0) + 0x0040) = c"
proof -
  have "(0xDC00 + l) mod 1024 = l" using mod_mult_self3 [of 55 1024 l] assms by simp
  moreover have "(0xD800 + h) mod 64 = h mod 64" using mod_mult_self3 [of 864 64 h] by simp
  moreover have "(0xD800 + h) div 64 mod 16 = h div 64"
  proof -
    have "(0xD800 + h) div 64 = h div 64 + 16 * 54" using div_mult_self3 [of 64 864 h] by simp
    then have "(0xD800 + h) div 64 mod 16 = h div 64 mod 16" by (simp only: mod_mult_self2)
    also have "\<dots> = h div 64" using assms by (simp add: less_mult_imp_div_less)
    finally show ?thesis .
  qed
  ultimately have "((0xDC00 + l) AND 0x03FF) + push_bit 10 ((0xD800 + h) AND 0x003F)
    + push_bit 10 (((0xD800 + h) AND 0x03C0) + 0x0040) = l + h mod 64 * 1024 + (h div 64 * 64 + 64) * 1024"
    by (simp only: mask_arith)
  also have "\<dots> = c"
  proof -
    have "l + r * 1024 + (q * 64 + 64) * 1024 = c" if "q * 64 + r = h" for q r :: nat
      using that assms(1) by auto
    then show ?thesis using div_mult_mod_eq [of h 64] by blast
  qed
  finally show ?thesis .
qed


lemma unit_bytes:
  "unit_le (u mod 256) (u div 256) = u" "unit_be (u div 256) (u mod 256) = u"
  using div_mult_mod_eq [of u 256] by (simp_all add: unit_le_def unit_be_def mask_arith)

lemma utf16_to_utf8_encode_char:
  assumes c: "code_point c" and enc: "enc = SQLITE_UTF16LE \<and> u = unit_le \<or> enc = SQLITE_UTF16BE \<and> u = unit_be"
  shows "utf16_to_utf8 u (encode_char enc c @ zs) = utf8_bytes c @ utf16_to_utf8 u zs"
proof (cases "c < 0x10000")
  case True
  with c have u: "utf16_units c = [c]" "\<not> (0xd800 \<le> c \<and> c < 0xe000)" "WRITE_UTF8 c = utf8_bytes c"
    by (simp_all add: utf16_units_def code_point_def WRITE_UTF8_bytes)
  then show ?thesis using enc utf16_unit_step [of u "c mod 256" "c div 256" zs]
      utf16_unit_step [of u "c div 256" "c mod 256" zs]
    by (auto simp: encode_char_def encodings bytes_le_def bytes_be_def unit_bytes
        simp del: utf16_to_utf8.simps)
next
  case False
  then obtain h l where hl: "c = 0x10000 + h * 1024 + l" "h < 1024" "l < 1024"
    using pair_split [of c] c by (auto simp: code_point_def)
  have u: "utf16_units c = [0xD800 + h, 0xDC00 + l]" "WRITE_UTF8 c = utf8_bytes c"
    using pair_arith [OF hl] False c by (simp_all only: utf16_units_def WRITE_UTF8_bytes code_point_def if_False)
  have pair: "utf16_to_utf8 u (a # b # a' # b' # zs) = WRITE_UTF8 c @ utf16_to_utf8 u zs"
    if "u a b = 0xD800 + h" "u a' b' = 0xDC00 + l" for a b a' b'
    using that hl(2) by (simp only: utf16_to_utf8.simps Let_def surrogate_pair [OF hl]) simp
  show ?thesis using enc pair unit_bytes [of "0xD800 + h"] unit_bytes [of "0xDC00 + l"]
    by (auto simp only: encode_char_utf u bytes_le_def bytes_be_def list.map concat.simps append.simps)
qed

lemma utf16_to_utf8_encode:
  assumes "enc = SQLITE_UTF16LE \<and> u = unit_le \<or> enc = SQLITE_UTF16BE \<and> u = unit_be"
  shows "list_all code_point cs \<Longrightarrow> utf16_to_utf8 u (encode enc cs) = encode SQLITE_UTF8 cs"
  using utf16_to_utf8_encode_char [OF _ assms]
  by (induction cs) (simp_all add: encode_char_def [of SQLITE_UTF8])

lemma swap_bytes_append: "even (length xs) \<Longrightarrow> swap_bytes (xs @ ys) = swap_bytes xs @ swap_bytes ys"
  by (induction xs rule: swap_bytes.induct) auto

lemma swap_bytes_encode:
  "swap_bytes (encode SQLITE_UTF16LE cs) = encode SQLITE_UTF16BE cs"
  "swap_bytes (encode SQLITE_UTF16BE cs) = encode SQLITE_UTF16LE cs"
  by (induction cs)
    (simp_all add: encode_char_def encodings utf16_units_def bytes_le_def bytes_be_def swap_bytes_append)

lemma encode_utf16_even: "enc \<noteq> SQLITE_UTF8 \<Longrightarrow> even (length (encode enc cs))"
  by (induction cs) (auto simp: encode_char_def encodings utf16_units_def bytes_le_def bytes_be_def)

subsection \<open>Text values\<close>

definition MEM_Null :: u16 where "MEM_Null = 0x0001"
definition MEM_Str :: u16 where "MEM_Str = 0x0002"
definition MEM_Blob :: u16 where "MEM_Blob = 0x0010"
definition MEM_AffMask :: u16 where "MEM_AffMask = 0x003f"
definition MEM_Term :: u16 where "MEM_Term = 0x0200"
definition MEM_Dyn :: u16 where "MEM_Dyn = 0x0400"
definition MEM_Static :: u16 where "MEM_Static = 0x0800"
definition MEM_Ephem :: u16 where "MEM_Ephem = 0x1000"
definition MEM_Zero :: u16 where "MEM_Zero = 0x4000"
definition MEM_Subtype :: u16 where "MEM_Subtype = 0x8000"

definition SQLITE_OK :: nat where "SQLITE_OK = 0"

lemmas mem_flags = MEM_Null_def MEM_Str_def MEM_Blob_def MEM_AffMask_def MEM_Term_def MEM_Dyn_def
  MEM_Static_def MEM_Ephem_def MEM_Zero_def MEM_Subtype_def

text \<open>A value: \<open>mz\<close> is the buffer \<open>z\<close> points to, \<open>None\<close> for a null pointer,
  and \<open>owned\<close> tells that it is the value's own allocation
  (\<open>szMalloc > 0\<close> and \<open>z == zMalloc\<close>). The length \<open>n\<close> is never negative,
  and at most \<open>SQLITE_MAX_LENGTH\<close>, a thousand million, so that the sizes computed from it
  are in range. The number and the destructor of a value play no part here.\<close>

record Mem =
  mflags :: u16
  menc :: nat
  mn :: nat
  nZero :: nat
  mz :: "nat list option"
  owned :: bool

definition sqlite3VdbeMemSetNull :: "Mem \<Rightarrow> Mem" where
  "sqlite3VdbeMemSetNull pMem = pMem\<lparr>mflags := MEM_Null\<rparr>"

text \<open>Of a new buffer only the bytes copied into it are known. \<open>ok\<close> is whether the
  allocation succeeds.\<close>

definition sqlite3VdbeMemGrow :: "bool \<Rightarrow> bool \<Rightarrow> Mem \<Rightarrow> nat \<times> Mem" where
  "sqlite3VdbeMemGrow ok bPreserve pMem =
    (if \<not> ok then (SQLITE_NOMEM, (sqlite3VdbeMemSetNull pMem)\<lparr>mz := None, owned := False\<rparr>)
     else
       let known = (case mz pMem of None \<Rightarrow> [] | Some z \<Rightarrow> if bPreserve then take (mn pMem) z else [])
       in (SQLITE_OK, pMem\<lparr>mz := Some known, owned := True,
             mflags := mflags pMem AND NOT (MEM_Dyn OR MEM_Ephem OR MEM_Static)\<rparr>))"

definition vdbeMemAddTerminator :: "bool \<Rightarrow> Mem \<Rightarrow> nat \<times> Mem" where
  "vdbeMemAddTerminator ok pMem =
    (let (rc, pMem) = sqlite3VdbeMemGrow ok True pMem
     in if rc \<noteq> 0 then (SQLITE_NOMEM, pMem)
        else (SQLITE_OK, pMem\<lparr>mz := map_option (\<lambda>z. z @ [0, 0, 0]) (mz pMem),
                mflags := mflags pMem OR MEM_Term\<rparr>))"

definition sqlite3VdbeMemExpandBlob :: "bool \<Rightarrow> Mem \<Rightarrow> nat \<times> Mem" where
  "sqlite3VdbeMemExpandBlob ok pMem =
    (if mn pMem + nZero pMem = 0 \<and> mflags pMem AND MEM_Blob = 0 then (SQLITE_OK, pMem)
     else
       let (rc, pMem) = sqlite3VdbeMemGrow ok True pMem
       in if rc \<noteq> 0 then (SQLITE_NOMEM, pMem)
          else (SQLITE_OK, pMem\<lparr>mz := map_option (\<lambda>z. z @ replicate (nZero pMem) 0) (mz pMem),
                  mn := mn pMem + nZero pMem, mflags := mflags pMem AND NOT (MEM_Zero OR MEM_Term)\<rparr>))"

definition ExpandBlob :: "bool \<Rightarrow> Mem \<Rightarrow> nat \<times> Mem" where
  "ExpandBlob ok P =
    (if mflags P AND MEM_Zero \<noteq> 0 then sqlite3VdbeMemExpandBlob ok P else (SQLITE_OK, P))"

definition sqlite3VdbeMemMakeWriteable :: "bool \<Rightarrow> Mem \<Rightarrow> nat \<times> Mem" where
  "sqlite3VdbeMemMakeWriteable ok pMem =
    (let (rc, pMem) =
       (if mflags pMem AND (MEM_Str OR MEM_Blob) \<noteq> 0 then
          let (rc, pMem) = ExpandBlob ok pMem
          in if rc \<noteq> 0 then (SQLITE_NOMEM, pMem)
             else if \<not> owned pMem then vdbeMemAddTerminator ok pMem
             else (SQLITE_OK, pMem)
        else (SQLITE_OK, pMem))
     in if rc \<noteq> 0 then (rc, pMem)
        else (SQLITE_OK, pMem\<lparr>mflags := mflags pMem AND NOT MEM_Ephem\<rparr>))"

definition sqlite3VdbeMemNulTerminate :: "bool \<Rightarrow> Mem \<Rightarrow> nat \<times> Mem" where
  "sqlite3VdbeMemNulTerminate ok pMem =
    (if mflags pMem AND (MEM_Term OR MEM_Str) \<noteq> MEM_Str then (SQLITE_OK, pMem)
     else vdbeMemAddTerminator ok pMem)"

text \<open>\<open>n & ~1\<close>.\<close>

definition even_part :: "nat \<Rightarrow> nat" where
  "even_part n = push_bit 1 (drop_bit 1 n)"

text \<open>The size of the output buffer.\<close>

definition output_len :: "nat \<Rightarrow> nat \<Rightarrow> nat" where
  "output_len desiredEnc n =
    (if desiredEnc = SQLITE_UTF8 then 2 * even_part n + 1 else 2 * n + 2)"

definition translated :: "nat \<Rightarrow> nat \<Rightarrow> nat list \<Rightarrow> nat list" where
  "translated enc desiredEnc zIn =
    (if enc = SQLITE_UTF8 then
       (if desiredEnc = SQLITE_UTF16LE then utf8_to_utf16 WRITE_UTF16LE zIn
        else utf8_to_utf16 WRITE_UTF16BE zIn)
     else if enc = SQLITE_UTF16LE then utf16_to_utf8 unit_le zIn
     else utf16_to_utf8 unit_be zIn)"

definition sqlite3VdbeMemTranslate :: "bool \<Rightarrow> Mem \<Rightarrow> nat \<Rightarrow> nat \<times> Mem" where
  "sqlite3VdbeMemTranslate ok pMem desiredEnc =
    (if menc pMem \<noteq> SQLITE_UTF8 \<and> desiredEnc \<noteq> SQLITE_UTF8 then
       let (rc, pMem) = sqlite3VdbeMemMakeWriteable ok pMem
       in if rc \<noteq> SQLITE_OK then (SQLITE_NOMEM, pMem)
          else
            let k = even_part (mn pMem)
            in (SQLITE_OK, pMem\<lparr>mz := map_option (\<lambda>z. swap_bytes (take k z) @ drop k z) (mz pMem),
                  menc := desiredEnc\<rparr>)
     else
       let pMem = (if desiredEnc = SQLITE_UTF8 then pMem\<lparr>mn := even_part (mn pMem)\<rparr> else pMem);
           zIn = (case mz pMem of None \<Rightarrow> [] | Some z \<Rightarrow> take (mn pMem) z)
       in if \<not> ok then (SQLITE_NOMEM, pMem)
          else
            let zOut = translated (menc pMem) desiredEnc zIn;
                zero = (if desiredEnc = SQLITE_UTF8 then [0] else [0, 0])
            in (SQLITE_OK, pMem\<lparr>mn := length zOut,
                  mflags := MEM_Str OR MEM_Term OR (mflags pMem AND (MEM_AffMask OR MEM_Subtype)),
                  menc := desiredEnc, mz := Some (zOut @ zero), owned := True\<rparr>))"

definition sqlite3VdbeChangeEncoding :: "bool \<Rightarrow> Mem \<Rightarrow> nat \<Rightarrow> nat \<times> Mem" where
  "sqlite3VdbeChangeEncoding ok pMem desiredEnc =
    (if mflags pMem AND MEM_Str = 0 \<or> menc pMem = desiredEnc then (SQLITE_OK, pMem)
     else sqlite3VdbeMemTranslate ok pMem desiredEnc)"

definition sqlite3VdbeMemHandleBom :: "bool \<Rightarrow> Mem \<Rightarrow> nat \<times> Mem" where
  "sqlite3VdbeMemHandleBom ok pMem =
    (let z = (case mz pMem of None \<Rightarrow> [] | Some z \<Rightarrow> z);
         b1 = z ! 0; b2 = z ! 1;
         bom = (if mn pMem > 1 then
                  (if b1 = 0xFF \<and> b2 = 0xFE then SQLITE_UTF16LE
                   else if b1 = 0xFE \<and> b2 = 0xFF then SQLITE_UTF16BE else 0)
                else 0)
     in if bom \<noteq> 0 then
          let (rc, pMem) = sqlite3VdbeMemMakeWriteable ok pMem
          in if rc = SQLITE_OK then
               let n = mn pMem - 2
               in (rc, pMem\<lparr>mn := n, mz := map_option (\<lambda>z. take n (drop 2 z) @ [0, 0]) (mz pMem),
                     mflags := mflags pMem OR MEM_Term, menc := bom\<rparr>)
             else (rc, pMem)
        else (SQLITE_OK, pMem))"

text \<open>A value that holds a text: a string without a zero-filled tail whose first
  \<open>n\<close> bytes encode the code points.\<close>

definition holds_text :: "Mem \<Rightarrow> nat \<Rightarrow> nat list \<Rightarrow> bool" where
  "holds_text m enc cs \<longleftrightarrow>
    mflags m AND MEM_Str \<noteq> 0 \<and> mflags m AND MEM_Zero = 0 \<and> menc m = enc
    \<and> (\<exists>rest. mz m = Some (encode enc cs @ rest)) \<and> mn m = length (encode enc cs)"

lemma str_flag [simp]: "w AND MEM_Str \<noteq> 0 \<longleftrightarrow> bit w (Suc 0)" "w AND MEM_Zero = 0 \<longleftrightarrow> \<not> bit w 14"
  using and_exp_eq_0_iff_not_bit [of w "Suc 0"] and_exp_eq_0_iff_not_bit [of w 14]
  by (simp_all add: mem_flags)

lemma str_or_blob: "bit (w :: u16) (Suc 0) \<Longrightarrow> w AND (MEM_Str OR MEM_Blob) \<noteq> 0"
proof
  assume "bit w (Suc 0)" "w AND (MEM_Str OR MEM_Blob) = 0"
  then have "\<not> bit (w AND (MEM_Str OR MEM_Blob)) (Suc 0)" by simp
  with \<open>bit w (Suc 0)\<close> show False by (simp add: mem_flags bit_simps)
qed

lemma flag_bits:
  "\<not> bit MEM_Dyn (Suc 0)" "\<not> bit MEM_Dyn 14" "\<not> bit MEM_Ephem (Suc 0)" "\<not> bit MEM_Ephem 14"
  "\<not> bit MEM_Static (Suc 0)" "\<not> bit MEM_Static 14" "\<not> bit MEM_Term (Suc 0)" "\<not> bit MEM_Term 14"
  "bit MEM_Str (Suc 0)" "\<not> bit MEM_Str 14" "\<not> bit MEM_AffMask 14" "\<not> bit MEM_Subtype 14"
  by (simp_all add: mem_flags bit_simps)

lemmas cleared_flags = flag_bits bit_and_iff bit_or_iff bit_not_iff

lemma MakeWriteable_string:
  assumes "bit (mflags m) (Suc 0)" "\<not> bit (mflags m) 14" "mz m = Some z" and ok: "ok \<or> owned m"
  shows "\<exists>m' t. sqlite3VdbeMemMakeWriteable ok m = (SQLITE_OK, m') \<and> mz m' = Some (take (mn m) z @ t)
    \<and> mn m' = mn m \<and> menc m' = menc m \<and> bit (mflags m') (Suc 0) \<and> \<not> bit (mflags m') 14"
proof (cases "owned m")
  case True
  with assms show ?thesis
    by (auto simp: sqlite3VdbeMemMakeWriteable_def ExpandBlob_def str_or_blob SQLITE_OK_def cleared_flags
        intro!: exI [of _ "drop (mn m) z"])
next
  case False
  with assms show ?thesis
    by (auto simp: sqlite3VdbeMemMakeWriteable_def ExpandBlob_def str_or_blob SQLITE_OK_def
        vdbeMemAddTerminator_def sqlite3VdbeMemGrow_def cleared_flags)
qed

lemma MakeWriteable_text:
  assumes "holds_text m enc cs" and ok: "ok \<or> owned m"
  shows "\<exists>m'. sqlite3VdbeMemMakeWriteable ok m = (SQLITE_OK, m') \<and> holds_text m' enc cs"
  using assms(1) MakeWriteable_string [OF _ _ _ ok] by (fastforce simp: holds_text_def)

lemma MakeWriteable_enc:
  "menc (snd (sqlite3VdbeMemMakeWriteable ok m)) = menc m"
  by (simp add: sqlite3VdbeMemMakeWriteable_def ExpandBlob_def sqlite3VdbeMemExpandBlob_def
      vdbeMemAddTerminator_def sqlite3VdbeMemGrow_def sqlite3VdbeMemSetNull_def SQLITE_OK_def
      SQLITE_NOMEM_def Let_def)

text \<open>The assertions \<open>sqlite3VdbeChangeEncoding\<close> makes on what the translation
  returns, for a string: the call succeeds or runs out of memory, and the value has the
  encoding asked for exactly when it succeeds.\<close>

lemma change_encoding_asserts:
  assumes "sqlite3VdbeChangeEncoding ok m enc' = (rc, m')" "mflags m AND MEM_Str \<noteq> 0"
  shows "(rc = SQLITE_OK \<or> rc = SQLITE_NOMEM) \<and> (rc = SQLITE_OK \<longleftrightarrow> menc m' = enc')"
proof (cases "menc m = enc'")
  case True
  with assms show ?thesis by (auto simp: sqlite3VdbeChangeEncoding_def simp del: str_flag)
next
  case False
  obtain rc' n where n: "sqlite3VdbeMemMakeWriteable ok m = (rc', n)"
    by (cases "sqlite3VdbeMemMakeWriteable ok m") auto
  with False MakeWriteable_enc [of ok m] assms show ?thesis
    by (auto simp: sqlite3VdbeChangeEncoding_def sqlite3VdbeMemTranslate_def Let_def SQLITE_OK_def
        SQLITE_NOMEM_def simp del: str_flag split: if_splits)
qed

lemma even_part_even: "even n \<Longrightarrow> even_part n = n"
  by (simp add: even_part_def push_bit_eq_mult drop_bit_eq_div)

definition encoding :: "nat \<Rightarrow> bool" where
  "encoding enc \<longleftrightarrow> enc = SQLITE_UTF8 \<or> enc = SQLITE_UTF16LE \<or> enc = SQLITE_UTF16BE"

lemma translated_encode:
  assumes "list_all code_point cs" "encoding enc" "encoding enc'" "enc \<noteq> enc'" "enc = SQLITE_UTF8 \<or> enc' = SQLITE_UTF8"
  shows "translated enc enc' (encode enc cs) = encode enc' cs"
proof -
  have "utf8_to_utf16 WRITE_UTF16LE (encode SQLITE_UTF8 cs) = encode SQLITE_UTF16LE cs"
    "utf8_to_utf16 WRITE_UTF16BE (encode SQLITE_UTF8 cs) = encode SQLITE_UTF16BE cs"
    using assms(1) by (simp_all add: utf8_to_utf16_encode encode_char_utf WRITE_UTF16_bytes)
  moreover have "utf16_to_utf8 unit_le (encode SQLITE_UTF16LE cs) = encode SQLITE_UTF8 cs"
    "utf16_to_utf8 unit_be (encode SQLITE_UTF16BE cs) = encode SQLITE_UTF8 cs"
    using assms(1) by (simp_all add: utf16_to_utf8_encode)
  ultimately show ?thesis using assms(2-) unfolding encoding_def translated_def
    by (auto simp: encodings)
qed

lemma translate_swap:
  assumes "holds_text m enc cs" "encoding enc" "encoding enc'" "enc \<noteq> enc'" "enc \<noteq> SQLITE_UTF8" "enc' \<noteq> SQLITE_UTF8"
    and "ok \<or> owned m"
  shows "\<exists>m'. sqlite3VdbeMemTranslate ok m enc' = (SQLITE_OK, m') \<and> holds_text m' enc' cs"
proof -
  obtain m' where m': "sqlite3VdbeMemMakeWriteable ok m = (SQLITE_OK, m')" "holds_text m' enc cs"
    using MakeWriteable_text [OF assms(1,7)] by blast
  have sw: "swap_bytes (encode enc cs) = encode enc' cs"
    using assms(2-6) swap_bytes_encode [of cs] unfolding encoding_def by metis
  have l: "length (swap_bytes xs) = length xs" for xs by (induction xs rule: swap_bytes.induct) auto
  have e: "even_part (length (encode enc cs)) = length (encode enc cs)"
    using encode_utf16_even [OF assms(5)] by (simp add: even_part_even)
  have "menc m \<noteq> SQLITE_UTF8" using assms(1,5) by (simp add: holds_text_def)
  with assms(6) m' e sw l [of "encode enc cs"] show ?thesis
    by (auto simp: sqlite3VdbeMemTranslate_def holds_text_def)
qed

lemma translate_copy:
  assumes "holds_text m enc cs" "list_all code_point cs" "encoding enc" "encoding enc'" "enc \<noteq> enc'"
    "enc = SQLITE_UTF8 \<or> enc' = SQLITE_UTF8" "ok"
  shows "\<exists>m'. sqlite3VdbeMemTranslate ok m enc' = (SQLITE_OK, m') \<and> holds_text m' enc' cs"
proof -
  have e: "enc' = SQLITE_UTF8 \<Longrightarrow> even_part (mn m) = mn m"
    using encode_utf16_even [of enc cs] assms(1,5) by (simp add: even_part_even holds_text_def)
  have "menc m = enc" "(case mz m of None \<Rightarrow> [] | Some z \<Rightarrow> take (mn m) z) = encode enc cs"
    using assms(1) by (auto simp: holds_text_def)
  with assms e translated_encode [OF assms(2-6)] show ?thesis
    by (auto simp: sqlite3VdbeMemTranslate_def holds_text_def cleared_flags Let_def)
qed

subsection \<open>The output fits the buffer\<close>

lemma trans1_small: "i < 64 \<Longrightarrow> sqlite3Utf8Trans1 ! i < 0x80"
proof -
  have "list_all (\<lambda>i. sqlite3Utf8Trans1 ! i < 0x80) [0..<64]" by code_simp
  then show "i < 64 \<Longrightarrow> sqlite3Utf8Trans1 ! i < 0x80" by (simp add: list_all_iff)
qed

lemma read_more_nothing:
  "length (snd (read_more c zs)) = length zs \<Longrightarrow> fst (read_more c zs) = c"
proof (cases zs)
  case (Cons b zs')
  assume "length (snd (read_more c zs)) = length zs"
  with Cons show ?thesis using read_more_shorter [of "(push_bit 6 c + (0x3f AND b)) mod 2 ^ 32" zs']
    by (auto split: if_splits)
qed simp

text \<open>A character read from one byte is below 64 K.\<close>

lemma READ_UTF8_one_byte:
  assumes "READ_UTF8 (b # zs) = (c, zs')" "b < 256" "length zs' = length zs"
  shows "c \<le> 0xFFFF"
proof (cases "b \<ge> 0xc0")
  case True
  then have "sqlite3Utf8Trans1 ! (b - 0xc0) < 0x80" using assms(2) by (simp add: trans1_small)
  then show ?thesis
    using True assms(1,3) read_more_nothing [of "sqlite3Utf8Trans1 ! (b - 0xc0)" zs]
    by (auto simp: Let_def case_prod_beta split: if_splits)
qed (use assms in auto)

lemma READ_UTF8_room:
  assumes "READ_UTF8 (b # zs) = (c, zs')" "b < 256"
    and put: "\<And>c. length (put c) \<le> 4" "\<And>c. c \<le> 0xFFFF \<Longrightarrow> length (put c) \<le> (2 :: nat)"
  shows "length (put c :: nat list) + 2 * length zs' \<le> 2 * length (b # zs)"
proof (cases "length zs' = length zs")
  case True
  then show ?thesis using put(2) [OF READ_UTF8_one_byte [OF assms(1,2) True]] by simp
next
  case False
  then have "length zs' < length zs" using READ_UTF8_shorter [of "b # zs"] assms(1) by simp
  then show ?thesis using put(1) [of c] by simp
qed

lemma read_more_suffix: "\<exists>us. zs = us @ snd (read_more c zs)"
proof (induction c zs rule: read_more.induct)
  case (2 c b zs)
  then show ?case by (cases "b AND 0xc0 = 0x80") (auto intro: exI [of _ "b # us" for us])
qed simp

lemma READ_UTF8_suffix: "\<exists>us. zs = us @ snd (READ_UTF8 zs)"
proof (cases zs)
  case (Cons b zs')
  with read_more_suffix [of zs' "sqlite3Utf8Trans1 ! (b - 0xc0)"] show ?thesis
    by (auto simp: case_prod_beta Let_def) (metis append_Cons)+
qed simp

lemma utf8_to_utf16_room:
  assumes "\<And>c. length (put c :: nat list) \<le> 4" "\<And>c. c \<le> 0xFFFF \<Longrightarrow> length (put c) \<le> 2"
  shows "list_all (\<lambda>b. b < 256) zs \<Longrightarrow> length (utf8_to_utf16 put zs) \<le> 2 * length zs"
proof (induction zs rule: measure_induct_rule [of length])
  case (less zs)
  show ?case
  proof (cases zs)
    case (Cons b ys)
    obtain c zs' where r: "READ_UTF8 zs = (c, zs')" by (cases "READ_UTF8 zs") auto
    then obtain us where "zs = us @ zs'" using READ_UTF8_suffix [of zs] by auto
    then have "list_all (\<lambda>b. b < 256) zs'" using less.prems by simp
    moreover have "length zs' < length zs" using READ_UTF8_shorter [of zs] r Cons by simp
    ultimately have "length (utf8_to_utf16 put zs') \<le> 2 * length zs'" by (rule less.IH [rotated])
    moreover have "length (put c) + 2 * length zs' \<le> 2 * length zs"
      using READ_UTF8_room [of b ys c zs' put] r less.prems assms Cons by (simp del: READ_UTF8.simps)
    ultimately show ?thesis using r Cons
      by (subst utf8_to_utf16.simps) (simp del: READ_UTF8.simps)
  qed (simp add: utf8_to_utf16.simps)
qed

lemma WRITE_UTF8_room: "length (WRITE_UTF8 c) \<le> 4"
  by (simp add: WRITE_UTF8_def)

lemma utf16_to_utf8_room: "length (utf16_to_utf8 u zs) \<le> 2 * length zs"
proof (induction u zs rule: utf16_to_utf8.induct)
  case (1 u b0 b1 b2 b3 zs)
  have w: "length (WRITE_UTF8 c) + n \<le> 4 + n" for c n using WRITE_UTF8_room [of c] by simp
  show ?case
  proof (cases "u b0 b1 \<ge> 0xd800 \<and> u b0 b1 < 0xe000")
    case True
    then show ?thesis using 1(1) [OF refl True refl refl] w
      by (auto simp: Let_def intro!: order_trans [OF w])
  next
    case False
    then show ?thesis using 1(2) [OF refl False]
      by (auto simp: Let_def intro!: order_trans [OF w])
  qed
qed (auto intro: add_mono [OF WRITE_UTF8_room, of _ "Suc (Suc n)" for n] order_trans [OF WRITE_UTF8_room])

subsection \<open>Counting characters\<close>

text \<open>\<open>SQLITE_SKIP_UTF8\<close>, on a text that ends in a zero byte.\<close>

definition skip_utf8 :: "nat list \<Rightarrow> nat list" where
  "skip_utf8 zIn =
    (case zIn of [] \<Rightarrow> []
     | b # zs \<Rightarrow> if b \<ge> 0xc0 then dropWhile (\<lambda>b. b AND 0xc0 = 0x80) zs else zs)"

lemma skip_utf8_shorter: "zs \<noteq> [] \<Longrightarrow> length (skip_utf8 zs) < length zs"
  by (auto simp: skip_utf8_def less_Suc_eq_le length_dropWhile_le split: list.splits)

text \<open>\<open>zIn\<close> is the text with its terminator; \<open>nByte\<close> is \<open>None\<close> when the
  argument is negative, and otherwise the bytes left before \<open>zTerm\<close>.\<close>

function utf8_count :: "nat option \<Rightarrow> nat list \<Rightarrow> nat" where
  "utf8_count room z =
    (if z = [] \<or> hd z = 0 \<or> room = Some 0 then 0
     else
       let z' = skip_utf8 z
       in Suc (utf8_count (map_option (\<lambda>k. k - (length z - length z')) room) z'))"
  by pat_completeness auto
termination by (relation "measure (\<lambda>(r, z). length z)") (auto simp: skip_utf8_shorter)

declare utf8_count.simps [simp del]

definition sqlite3Utf8CharLen :: "nat list \<Rightarrow> int \<Rightarrow> nat" where
  "sqlite3Utf8CharLen zIn nByte = utf8_count (if nByte \<ge> 0 then Some (nat nByte) else None) zIn"

text \<open>\<open>z\<close> counts from the start of the text, from its second byte on a
  little-endian machine.\<close>

fun utf16_skip :: "nat list \<Rightarrow> nat \<Rightarrow> nat \<Rightarrow> nat" where
  "utf16_skip zIn z 0 = z"
| "utf16_skip zIn z (Suc n) =
    (let c = zIn ! z;
         z = z + 2;
         z = (if c \<ge> 0xd8 \<and> c < 0xdc \<and> zIn ! z \<ge> 0xdc \<and> zIn ! z < 0xe0 then z + 2 else z)
     in utf16_skip zIn z n)"

definition sqlite3Utf16ByteLen :: "bool \<Rightarrow> nat list \<Rightarrow> int \<Rightarrow> nat" where
  "sqlite3Utf16ByteLen little zIn nChar =
    utf16_skip zIn (if little then 1 else 0) (nat nChar) - (if little then 1 else 0)"

lemma skip_utf8_bytes:
  assumes "code_point c" "c \<noteq> 0" "no_continuation zs"
  shows "skip_utf8 (utf8_bytes c @ zs) = zs"
proof -
  have d: "dropWhile (\<lambda>b. b AND 0xc0 = 0x80) zs = zs"
    using assms(3) by (cases zs) (simp_all add: no_continuation_def)
  have b: "(0x80 + x) AND 0xc0 = 0x80" if "x < 64" for x :: nat
  proof -
    have "(0x80 + x) div 64 = 2" using that by auto
    then show ?thesis by (simp add: mask_arith)
  qed
  show ?thesis by (auto simp: utf8_bytes_def skip_utf8_def b d)
qed

lemma utf8_count_encode:
  "list_all (\<lambda>c. code_point c \<and> c \<noteq> 0) cs \<Longrightarrow> utf8_count None (encode SQLITE_UTF8 cs @ 0 # rest) = length cs"
proof (induction cs)
  case Nil
  show ?case by (simp add: utf8_count.simps)
next
  case (Cons c cs)
  have "no_continuation (encode SQLITE_UTF8 cs @ 0 # rest)"
  proof (cases cs)
    case Nil
    then show ?thesis by (simp add: no_continuation_def)
  next
    case (Cons d ds)
    with \<open>list_all _ (c # cs)\<close> show ?thesis by (simp add: encode_char_utf utf8_bytes_lead code_point_def)
  qed
  then have "skip_utf8 (utf8_bytes c @ encode SQLITE_UTF8 cs @ 0 # rest) = encode SQLITE_UTF8 cs @ 0 # rest"
    using Cons.prems by (simp add: skip_utf8_bytes)
  moreover have "utf8_bytes c \<noteq> []" "hd (utf8_bytes c) \<noteq> 0" using Cons.prems by (auto simp: utf8_bytes_def)
  ultimately show ?case using Cons
    by (subst utf8_count.simps) (simp add: encode_char_utf Let_def)
qed

lemma pair_bytes:
  assumes "h < 1024"
  shows "0xd8 \<le> (0xD800 + h) div 256 \<and> (0xD800 + h) div 256 < (0xdc :: nat)"
    "0xdc \<le> (0xDC00 + h) div 256 \<and> (0xDC00 + h) div 256 < (0xe0 :: nat)"
  using assms by auto

lemma utf16_skip_char:
  assumes "code_point c" "zIn = pre @ encode_char enc c @ suf"
    and "enc = SQLITE_UTF16LE \<and> off = 1 \<or> enc = SQLITE_UTF16BE \<and> off = 0"
  shows "utf16_skip zIn (length pre + off) (Suc n) = utf16_skip zIn (length (pre @ encode_char enc c) + off) n"
proof (cases "c < 0x10000")
  case True
  with assms(1) have "c div 256 < 0xd8 \<or> 0xe0 \<le> c div 256" by (auto simp: code_point_def)
  with True assms(2,3) show ?thesis
    by (auto simp: encode_char_utf utf16_units_def bytes_le_def bytes_be_def nth_append)
next
  case False
  then obtain h l where hl: "c = 0x10000 + h * 1024 + l" "h < 1024" "l < 1024"
    using pair_split [of c] assms(1) by (auto simp: code_point_def)
  have u: "utf16_units c = [0xD800 + h, 0xDC00 + l]"
    using pair_arith [OF hl] False by (simp_all only: utf16_units_def if_False)
  show ?thesis
  proof (cases "enc = SQLITE_UTF16LE")
    case True
    then have "off = 1" using assms(3) by (simp add: encodings)
    with True assms(2) pair_bytes [OF hl(2)] pair_bytes [OF hl(3)] show ?thesis
      by (simp add: encode_char_utf u bytes_le_def nth_append)
  next
    case False
    then have "off = 0" "enc = SQLITE_UTF16BE" using assms(3) by (simp_all add: encodings)
    with assms(2) pair_bytes [OF hl(2)] pair_bytes [OF hl(3)] show ?thesis
      by (simp add: encode_char_utf u bytes_be_def nth_append)
  qed
qed

lemma utf16_skip_encode:
  assumes "enc = SQLITE_UTF16LE \<and> off = 1 \<or> enc = SQLITE_UTF16BE \<and> off = 0"
  shows "list_all code_point cs \<Longrightarrow>
    utf16_skip (pre @ encode enc cs @ rest) (length pre + off) (length cs) = length (pre @ encode enc cs) + off"
proof (induction cs arbitrary: pre)
  case (Cons c cs)
  have "utf16_skip (pre @ encode enc (c # cs) @ rest) (length pre + off) (length (c # cs))
    = utf16_skip (pre @ encode enc (c # cs) @ rest) (length (pre @ encode_char enc c) + off) (length cs)"
    using utf16_skip_char [OF _ _ assms, of c _ pre "encode enc cs @ rest" "length cs"] Cons.prems
    by (simp del: utf16_skip.simps)
  with Cons show ?case using Cons.IH [of "pre @ encode_char enc c"] by simp
qed simp

text \<open>The two counts on a text, of its characters and of their bytes.\<close>

lemma character_counts:
  assumes "list_all (\<lambda>c. code_point c \<and> c \<noteq> 0) cs"
  shows "sqlite3Utf8CharLen (encode SQLITE_UTF8 cs @ 0 # rest) (-1) = length cs"
    and "sqlite3Utf16ByteLen True (encode SQLITE_UTF16LE cs @ rest) (int (length cs)) = length (encode SQLITE_UTF16LE cs)"
    and "sqlite3Utf16ByteLen False (encode SQLITE_UTF16BE cs @ rest) (int (length cs)) = length (encode SQLITE_UTF16BE cs)"
proof -
  have cs: "list_all code_point cs" using assms by (simp add: list_all_iff)
  show "sqlite3Utf8CharLen (encode SQLITE_UTF8 cs @ 0 # rest) (-1) = length cs"
    using utf8_count_encode [OF assms] by (simp add: sqlite3Utf8CharLen_def)
  show "sqlite3Utf16ByteLen True (encode SQLITE_UTF16LE cs @ rest) (int (length cs)) = length (encode SQLITE_UTF16LE cs)"
    using utf16_skip_encode [of SQLITE_UTF16LE 1 cs "[]" rest] cs by (simp add: sqlite3Utf16ByteLen_def)
  show "sqlite3Utf16ByteLen False (encode SQLITE_UTF16BE cs @ rest) (int (length cs)) = length (encode SQLITE_UTF16BE cs)"
    using utf16_skip_encode [of SQLITE_UTF16BE 0 cs "[]" rest] cs by (simp add: sqlite3Utf16ByteLen_def)
qed

lemma HandleBom_removes:
  assumes "mn m = 2 + length (encode enc cs)" "mz m = Some (bom @ encode enc cs @ rest)"
    and bom: "enc = SQLITE_UTF16LE \<and> bom = [0xFF, 0xFE] \<or> enc = SQLITE_UTF16BE \<and> bom = [0xFE, 0xFF]"
    and flags: "bit (mflags m) (Suc 0)" "\<not> bit (mflags m) 14"
  shows "\<exists>m'. sqlite3VdbeMemHandleBom True m = (SQLITE_OK, m') \<and> holds_text m' enc cs"
proof -
  have l: "length bom = 2" and e: "enc \<noteq> 0" using bom by (auto simp: encodings)
  obtain m' t where m': "sqlite3VdbeMemMakeWriteable True m = (SQLITE_OK, m')"
      "mz m' = Some (bom @ encode enc cs @ t)" "mn m' = mn m" "bit (mflags m') (Suc 0)" "\<not> bit (mflags m') 14"
    using MakeWriteable_string [OF flags assms(2), of True] assms(1) l by auto
  have "sqlite3VdbeMemHandleBom True m = (SQLITE_OK, m'\<lparr>mn := mn m' - 2,
      mz := Some (take (mn m' - 2) (drop 2 (bom @ encode enc cs @ t)) @ [0, 0]),
      mflags := mflags m' OR MEM_Term, menc := enc\<rparr>)"
    using assms(1,2) bom e m'(1,2) by (auto simp: sqlite3VdbeMemHandleBom_def Let_def)
  then show ?thesis using m' assms(1) l by (simp add: holds_text_def cleared_flags)
qed

subsection \<open>Properties\<close>

lemma change_encoding_text:
  assumes "holds_text m enc cs" "list_all code_point cs" "encoding enc" "encoding enc'" "ok"
  shows "\<exists>m'. sqlite3VdbeChangeEncoding ok m enc' = (SQLITE_OK, m') \<and> holds_text m' enc' cs"
proof (cases "enc = enc'")
  case True
  with assms(1) show ?thesis by (simp add: sqlite3VdbeChangeEncoding_def holds_text_def)
next
  case False
  have "mflags m AND MEM_Str \<noteq> 0" "menc m = enc" using assms(1) by (simp_all add: holds_text_def)
  then have t: "sqlite3VdbeChangeEncoding ok m enc' = sqlite3VdbeMemTranslate ok m enc'"
    using False by (simp add: sqlite3VdbeChangeEncoding_def del: str_flag)
  show ?thesis
  proof (cases "enc = SQLITE_UTF8 \<or> enc' = SQLITE_UTF8")
    case True
    then show ?thesis unfolding t using translate_copy assms False by blast
  next
    case utf16: False
    then show ?thesis unfolding t using translate_swap assms False by blast
  qed
qed

text \<open>C34: Changing the encoding of a text value, when memory can be had, leaves a value
  that holds the same code points in the new encoding, for each of the nine pairs of
  encodings: through the reader and the writers, the surrogate pairs, or the exchange of
  bytes. The encodings are those of the standard, stated with division. The characters
  counted in the result are those of the text.\<close>

theorem change_encoding_keeps_text:
  assumes "holds_text m enc cs" and "list_all (\<lambda>c. code_point c \<and> c \<noteq> 0) cs"
    and "encoding enc" and "encoding enc'"
  shows "\<exists>m' rest. sqlite3VdbeChangeEncoding True m enc' = (SQLITE_OK, m') \<and> menc m' = enc'
    \<and> mn m' = length (encode enc' cs) \<and> mz m' = Some (encode enc' cs @ rest)
    \<and> (enc' = SQLITE_UTF16LE \<longrightarrow> sqlite3Utf16ByteLen True (the (mz m')) (int (length cs)) = mn m')
    \<and> (enc' = SQLITE_UTF8 \<longrightarrow> sqlite3Utf8CharLen (take (mn m') (the (mz m')) @ [0]) (-1) = length cs)"
proof -
  have "list_all code_point cs" using assms(2) by (simp add: list_all_iff)
  then obtain m' where "sqlite3VdbeChangeEncoding True m enc' = (SQLITE_OK, m')" "holds_text m' enc' cs"
    using change_encoding_text [OF assms(1) _ assms(3,4), of True] by blast
  then show ?thesis using character_counts(1,2) [OF assms(2)] by (auto simp: holds_text_def)
qed

text \<open>The text \<open>a\<close>, a euro sign and a treble clef, from UTF-8 to UTF-16.\<close>

definition clef_value :: Mem where
  "clef_value = \<lparr>mflags = MEM_Str OR MEM_Term OR MEM_Static, menc = SQLITE_UTF8, mn = 8, nZero = 0,
     mz = Some [0x61, 0xE2, 0x82, 0xAC, 0xF0, 0x9D, 0x84, 0x9E, 0], owned = False\<rparr>"

lemma change_encoding_keeps_text_witness:
  "fst (sqlite3VdbeChangeEncoding True clef_value SQLITE_UTF16LE) = SQLITE_OK
   \<and> take 8 (the (mz (snd (sqlite3VdbeChangeEncoding True clef_value SQLITE_UTF16LE))))
     = [0x61, 0x00, 0xAC, 0x20, 0x34, 0xD8, 0x1E, 0xDD]"
proof -
  have e: "encode SQLITE_UTF8 [0x61, 0x20AC, 0x1D11E] = [0x61, 0xE2, 0x82, 0xAC, 0xF0, 0x9D, 0x84, 0x9E]"
    "encode SQLITE_UTF16LE [0x61, 0x20AC, 0x1D11E] = [0x61, 0x00, 0xAC, 0x20, 0x34, 0xD8, 0x1E, 0xDD]"
    by (simp_all add: encode_char_utf utf8_bytes_def utf16_units_def bytes_le_def)
  have "holds_text clef_value SQLITE_UTF8 [0x61, 0x20AC, 0x1D11E]"
    unfolding holds_text_def e by (simp add: clef_value_def cleared_flags MEM_Str_def [THEN arg_cong, of "\<lambda>w. w = 0"])
  from change_encoding_keeps_text [OF this, of SQLITE_UTF16LE] show ?thesis
    unfolding e by (auto simp: encoding_def code_point_def)
qed

text \<open>C35: Whatever bytes a value has, well-formed or not, what the translation to or from
  UTF-8 writes, terminator included, fits the buffer it has allocated for the length the
  value had.\<close>

theorem translation_fits_buffer:
  assumes "mz m = Some z" and "list_all (\<lambda>b. b < 256) z"
    and "encoding (menc m)" and "encoding enc'" and "menc m \<noteq> enc'"
    and "menc m = SQLITE_UTF8 \<or> enc' = SQLITE_UTF8"
    and "sqlite3VdbeMemTranslate True m enc' = (rc, m')"
  shows "length (the (mz m')) \<le> output_len enc' (mn m)
    \<and> length (the (mz m')) = mn m' + (if enc' = SQLITE_UTF8 then 1 else 2)"
proof -
  let ?n = "if enc' = SQLITE_UTF8 then even_part (mn m) else mn m"
  have z: "list_all (\<lambda>b. b < 256) (take ?n z)" using assms(2) by (auto simp: list_all_iff dest: in_set_takeD)
  have "length (translated (menc m) enc' (take ?n z)) \<le> 2 * length (take ?n z)"
  proof -
    have "length (utf8_to_utf16 WRITE_UTF16LE (take ?n z)) \<le> 2 * length (take ?n z)"
      "length (utf8_to_utf16 WRITE_UTF16BE (take ?n z)) \<le> 2 * length (take ?n z)"
      by (rule utf8_to_utf16_room [OF _ _ z]; simp add: WRITE_UTF16LE_def WRITE_UTF16BE_def)+
    then show ?thesis unfolding translated_def using utf16_to_utf8_room by presburger
  qed
  then have "length (translated (menc m) enc' (take ?n z)) \<le> 2 * ?n" by (simp add: min_def split: if_splits)
  then show ?thesis using assms
    by (auto simp: sqlite3VdbeMemTranslate_def output_len_def Let_def)
qed

text \<open>A truncated character and a stray continuation byte.\<close>

lemma translation_fits_buffer_witness:
  "length (the (mz (snd (sqlite3VdbeMemTranslate True
     (clef_value\<lparr>mz := Some [0xF0, 0x9D, 0x80, 0x61, 0x80], mn := 5\<rparr>) SQLITE_UTF16BE)))) \<le> 12"
  using translation_fits_buffer [of "clef_value\<lparr>mz := Some [0xF0, 0x9D, 0x80, 0x61, 0x80], mn := 5\<rparr>"
      "[0xF0, 0x9D, 0x80, 0x61, 0x80]" SQLITE_UTF16BE]
  by (cases "sqlite3VdbeMemTranslate True
     (clef_value\<lparr>mz := Some [0xF0, 0x9D, 0x80, 0x61, 0x80], mn := 5\<rparr>) SQLITE_UTF16BE")
    (simp add: clef_value_def encoding_def encodings output_len_def)

end
