(* ===== verification/Sq_Like.thy ===== *)
theory Sq_Like
  imports Sq_Utf Sq_Text
begin

text \<open>
  \<^verbatim>\<open>src/sqlite3.c\<close>, func.c (lines 117247-117555): \<open>patternCompare\<close>, the
  matcher behind the LIKE and GLOB operators, and its callers. A C string is the list of
  its bytes up to and including the terminator; reading from the empty list is reading
  past the terminator, and gives \<open>None\<close>. The specification translates a pattern to
  a list of items over code points and says which texts the items match; the matcher is
  shown to decide it, its return value \<open>SQLITE_NOWILDCARDMATCH\<close>, by which it cuts
  the search short, included.
\<close>

subsection \<open>The matcher\<close>

record compareInfo =
  matchAll :: nat
  matchOne :: nat
  matchSet :: nat
  noCase :: bool

text \<open>The characters of the two operators: \<open>* ? [\<close> and \<open>% _\<close>.\<close>

definition globInfo :: compareInfo where
  "globInfo = \<lparr>matchAll = 0x2a, matchOne = 0x3f, matchSet = 0x5b, noCase = False\<rparr>"

definition likeInfoNorm :: compareInfo where
  "likeInfoNorm = \<lparr>matchAll = 0x25, matchOne = 0x5f, matchSet = 0, noCase = True\<rparr>"

definition likeInfoAlt :: compareInfo where
  "likeInfoAlt = \<lparr>matchAll = 0x25, matchOne = 0x5f, matchSet = 0, noCase = False\<rparr>"

definition SQLITE_MATCH :: nat where "SQLITE_MATCH = 0"
definition SQLITE_NOMATCH :: nat where "SQLITE_NOMATCH = 1"
definition SQLITE_NOWILDCARDMATCH :: nat where "SQLITE_NOWILDCARDMATCH = 2"

definition utf8_next :: "nat list \<Rightarrow> (nat \<times> nat list) option" where
  "utf8_next z = (if z = [] then None else Some (sqlite3Utf8Read z))"

definition Utf8Read :: "nat list \<Rightarrow> (nat \<times> nat list) option" where
  "Utf8Read A = (case A of [] \<Rightarrow> None | b # r \<Rightarrow> if b < 0x80 then Some (b, r) else utf8_next A)"

definition peek :: "nat list \<Rightarrow> nat option" where
  "peek z = (case z of [] \<Rightarrow> None | b # _ \<Rightarrow> Some b)"

lemma utf8_next_shorter: "utf8_next z = Some (c, z') \<Longrightarrow> length z' < length z"
  using READ_UTF8_shorter [of z] by (auto simp: utf8_next_def sqlite3Utf8Read_def split: if_splits)

lemma Utf8Read_shorter: "Utf8Read z = Some (c, z') \<Longrightarrow> length z' < length z"
  using utf8_next_shorter [of z] by (auto simp: Utf8Read_def split: list.splits if_splits)

text \<open>The wildcards after a star: \<open>Inl\<close> when the text ends first, otherwise the
  first character that is no wildcard, the pattern after it and the text left.\<close>

function skip_wildcards :: "compareInfo \<Rightarrow> nat list \<Rightarrow> nat list
    \<Rightarrow> (unit + nat \<times> nat list \<times> nat list) option" where
  "skip_wildcards pInfo zPattern zString =
    (case Utf8Read zPattern of
       None \<Rightarrow> None
     | Some (c, zPattern') \<Rightarrow>
         if c = matchAll pInfo \<or> c = matchOne pInfo then
           (if c = matchOne pInfo then
              (case utf8_next zString of
                 None \<Rightarrow> None
               | Some (c2, zString') \<Rightarrow>
                   if c2 = 0 then Some (Inl ()) else skip_wildcards pInfo zPattern' zString')
            else skip_wildcards pInfo zPattern' zString)
         else Some (Inr (c, zPattern', zString)))"
  by pat_completeness auto
termination by (relation "measure (\<lambda>(i, p, s). length p)") (auto dest: Utf8Read_shorter)

declare skip_wildcards.simps [simp del]

lemma skip_utf8_less: "peek z = Some b \<Longrightarrow> length (skip_utf8 z) < length z"
  using skip_utf8_shorter [of z] by (auto simp: peek_def split: list.splits)

text \<open>The three searches for a place where the rest of the pattern, \<open>f\<close>, may match.
  The first steps from one byte of \<open>zStop\<close> to the next, as \<open>strcspn\<close> finds
  them.\<close>

fun search_stop :: "(nat list \<Rightarrow> nat option) \<Rightarrow> nat list \<Rightarrow> nat list \<Rightarrow> nat option" where
  "search_stop f zStop [] = None"
| "search_stop f zStop (b # zString) =
    (if b = 0 then Some SQLITE_NOWILDCARDMATCH
     else if b \<in> set zStop then
       (case f zString of
          None \<Rightarrow> None
        | Some bMatch \<Rightarrow> if bMatch \<noteq> SQLITE_NOMATCH then Some bMatch else search_stop f zStop zString)
     else search_stop f zStop zString)"

function search_char :: "(nat list \<Rightarrow> nat option) \<Rightarrow> nat \<Rightarrow> nat list \<Rightarrow> nat option" where
  "search_char f c zString =
    (case Utf8Read zString of
       None \<Rightarrow> None
     | Some (c2, zString') \<Rightarrow>
         if c2 = 0 then Some SQLITE_NOWILDCARDMATCH
         else if c2 \<noteq> c then search_char f c zString'
         else
           (case f zString' of
              None \<Rightarrow> None
            | Some bMatch \<Rightarrow> if bMatch \<noteq> SQLITE_NOMATCH then Some bMatch else search_char f c zString'))"
  by pat_completeness auto
termination by (relation "measure (\<lambda>(f, c, s). length s)") (auto dest: Utf8Read_shorter)

function search_set :: "(nat list \<Rightarrow> nat option) \<Rightarrow> nat list \<Rightarrow> nat option" where
  "search_set f zString =
    (case peek zString of
       None \<Rightarrow> None
     | Some b \<Rightarrow>
         if b = 0 then Some SQLITE_NOWILDCARDMATCH
         else
           (case f zString of
              None \<Rightarrow> None
            | Some bMatch \<Rightarrow>
                if bMatch \<noteq> SQLITE_NOMATCH then Some bMatch else search_set f (skip_utf8 zString)))"
  by pat_completeness auto
termination
  by (relation "measure (\<lambda>(f, s). length s)") (auto dest: skip_utf8_less)

declare search_char.simps [simp del] search_set.simps [simp del]

definition search_from :: "compareInfo \<Rightarrow> nat \<Rightarrow> (nat list \<Rightarrow> nat option) \<Rightarrow> nat list \<Rightarrow> nat option" where
  "search_from pInfo c f zString =
    (if c \<le> 0x80 then
       let zStop = (if noCase pInfo then [nat (sqlite3Toupper (int c)), nat (sqlite3Tolower (int c))] else [c])
       in search_stop f zStop zString
     else search_char f c zString)"

text \<open>The members of a set up to its closing bracket: the last character read, whether
  \<open>c\<close> was seen, and the pattern after it.\<close>

function set_loop :: "nat \<Rightarrow> nat \<Rightarrow> bool \<Rightarrow> nat \<Rightarrow> nat list \<Rightarrow> (nat \<times> bool \<times> nat list) option" where
  "set_loop c prior_c seen c2 zPattern =
    (if c2 \<noteq> 0 \<and> c2 \<noteq> 0x5d then
       (case peek zPattern of
          None \<Rightarrow> None
        | Some p \<Rightarrow>
            if c2 = 0x2d \<and> p \<noteq> 0x5d \<and> p \<noteq> 0 \<and> prior_c > 0 then
              (case utf8_next zPattern of
                 None \<Rightarrow> None
               | Some (c2, zPattern1) \<Rightarrow>
                   let seen = (if c \<ge> prior_c \<and> c \<le> c2 then True else seen)
                   in (case utf8_next zPattern1 of
                         None \<Rightarrow> None
                       | Some (c2, zPattern2) \<Rightarrow> set_loop c 0 seen c2 zPattern2))
            else
              let seen = (if c = c2 then True else seen)
              in (case utf8_next zPattern of
                    None \<Rightarrow> None
                  | Some (c2', zPattern1) \<Rightarrow> set_loop c c2 seen c2' zPattern1))
     else Some (c2, seen, zPattern))"
  by pat_completeness auto
termination
proof (relation "measure (\<lambda>(c, p, s, c2, z). length z)", goal_cases)
  case 1
  show ?case by simp
next
  case 2
  then show ?case by (auto dest!: utf8_next_shorter)
next
  case 3
  then show ?case by (auto dest!: utf8_next_shorter)
qed

declare set_loop.simps [simp del]

text \<open>A character of the text against a set; the pattern is after the opening bracket.
  \<open>Inl\<close> is no match.\<close>

definition match_set :: "nat list \<Rightarrow> nat list \<Rightarrow> (unit + nat list \<times> nat list) option" where
  "match_set zPattern zString =
    (case utf8_next zString of
       None \<Rightarrow> None
     | Some (c, zString) \<Rightarrow>
         if c = 0 then Some (Inl ())
         else
           (case utf8_next zPattern of
              None \<Rightarrow> None
            | Some (c2, zPattern) \<Rightarrow>
                (case (if c2 = 0x5e then map_option (\<lambda>r. (True, r)) (utf8_next zPattern)
                       else Some (False, c2, zPattern)) of
                   None \<Rightarrow> None
                 | Some (invert, c2, zPattern) \<Rightarrow>
                     (case (if c2 = 0x5d then map_option (\<lambda>r. (c = 0x5d, r)) (utf8_next zPattern)
                            else Some (False, c2, zPattern)) of
                        None \<Rightarrow> None
                      | Some (seen, c2, zPattern) \<Rightarrow>
                          (case set_loop c 0 seen c2 zPattern of
                             None \<Rightarrow> None
                           | Some (c2, seen, zPattern) \<Rightarrow>
                               if c2 = 0 \<or> seen = invert then Some (Inl ())
                               else Some (Inr (zPattern, zString)))))))"


lemma set_loop_shorter: "set_loop c p s c2 z = Some (c', s', z') \<Longrightarrow> length z' \<le> length z"
proof (induction z arbitrary: c p s c2 rule: measure_induct_rule [of length])
  case (less z)
  have IH: "set_loop c p s c2 y = Some (c', s', z') \<Longrightarrow> length y < length z \<Longrightarrow> length z' \<le> length y" for c p s c2 y
    using less.IH by blast
  from less.prems show ?case
    by (subst (asm) set_loop.simps)
      (auto simp: Let_def split: if_splits option.splits dest!: utf8_next_shorter; drule IH; simp)
qed

lemma match_set_shorter: "match_set zP zS = Some (Inr (zP', zS')) \<Longrightarrow> length zP' < length zP"
  by (auto simp: match_set_def split: option.splits if_splits dest!: utf8_next_shorter set_loop_shorter)

lemma skip_wildcards_shorter:
  "skip_wildcards i zP zS = Some (Inr (c, zP', zS')) \<Longrightarrow> length zP' < length zP"
proof (induction zP arbitrary: zS rule: measure_induct_rule [of length])
  case (less zP)
  have IH: "skip_wildcards i y s = Some (Inr (c, zP', zS')) \<Longrightarrow> length y < length zP \<Longrightarrow> length zP' < length y" for y s
    using less.IH by blast
  from less.prems show ?case
    by (subst (asm) skip_wildcards.simps)
      (auto split: if_splits option.splits dest!: Utf8Read_shorter; drule IH; simp)
qed

text \<open>\<open>matchOther\<close> is the escape character of LIKE, 0 if there is none, and the
  opening bracket for GLOB. \<open>zEscaped\<close> marks a character that has just been
  escaped; the code compares it with the pattern of the same turn only, as the pattern
  always moves on.\<close>

function patternCompare :: "compareInfo \<Rightarrow> nat \<Rightarrow> nat list \<Rightarrow> nat list \<Rightarrow> nat option" where
  "patternCompare pInfo matchOther zPattern zString =
    (case Utf8Read zPattern of
       None \<Rightarrow> None
     | Some (c, zPattern1) \<Rightarrow>
       if c = 0 then map_option (\<lambda>b. if b = 0 then SQLITE_MATCH else SQLITE_NOMATCH) (peek zString)
       else if c = matchAll pInfo then
         (case skip_wildcards pInfo zPattern1 zString of
            None \<Rightarrow> None
          | Some (Inl _) \<Rightarrow> Some SQLITE_NOWILDCARDMATCH
          | Some (Inr (c, zPattern2, zString2)) \<Rightarrow>
              if c = 0 then Some SQLITE_MATCH
              else if c = matchOther then
                (if matchSet pInfo = 0 then
                   (case utf8_next zPattern2 of
                      None \<Rightarrow> None
                    | Some (c, zPattern3) \<Rightarrow>
                        if c = 0 then Some SQLITE_NOWILDCARDMATCH
                        else search_from pInfo c (\<lambda>s. patternCompare pInfo matchOther zPattern3 s) zString2)
                 else
                   search_set (\<lambda>s. patternCompare pInfo matchOther (matchOther # zPattern2) s) zString2)
              else search_from pInfo c (\<lambda>s. patternCompare pInfo matchOther zPattern2 s) zString2)
       else if c = matchOther \<and> matchSet pInfo \<noteq> 0 then
         (case match_set zPattern1 zString of
            None \<Rightarrow> None
          | Some (Inl _) \<Rightarrow> Some SQLITE_NOMATCH
          | Some (Inr (zPattern2, zString2)) \<Rightarrow> patternCompare pInfo matchOther zPattern2 zString2)
       else
         (case (if c = matchOther then map_option (\<lambda>r. (True, r)) (utf8_next zPattern1)
                else Some (False, c, zPattern1)) of
            None \<Rightarrow> None
          | Some (escaped, c, zPattern2) \<Rightarrow>
              if c = 0 then Some SQLITE_NOMATCH
              else
                (case Utf8Read zString of
                   None \<Rightarrow> None
                 | Some (c2, zString2) \<Rightarrow>
                     if c = c2
                        \<or> (noCase pInfo \<and> sqlite3Tolower (int c) = sqlite3Tolower (int c2) \<and> c < 0x80 \<and> c2 < 0x80)
                        \<or> (c = matchOne pInfo \<and> \<not> escaped \<and> c2 \<noteq> 0)
                     then patternCompare pInfo matchOther zPattern2 zString2
                     else Some SQLITE_NOMATCH)))"
  by pat_completeness auto
termination
proof (relation "measure (\<lambda>(i, m, p, s). length p)", goal_cases)
  case 1
  show ?case by simp
qed (auto split: if_splits dest!: Utf8Read_shorter utf8_next_shorter skip_wildcards_shorter match_set_shorter)

declare patternCompare.simps [simp del]

definition sqlite3_strglob :: "nat list \<Rightarrow> nat list \<Rightarrow> nat option" where
  "sqlite3_strglob zGlobPattern zString = patternCompare globInfo 0x5b zGlobPattern zString"

definition sqlite3_strlike :: "nat list \<Rightarrow> nat list \<Rightarrow> nat \<Rightarrow> nat option" where
  "sqlite3_strlike zPattern zStr esc = patternCompare likeInfoNorm esc zPattern zStr"


text \<open>The SQL functions \<open>like\<close> and \<open>glob\<close>, on arguments that are texts or NULL
  (\<open>None\<close>): pattern, string and, if there is a third argument, the escape. \<open>limit\<close>
  is the connection's limit on the length of a pattern.\<close>

datatype sql_result = Null_Result | Error_Result string | Int_Result int

definition like_escape :: "compareInfo \<Rightarrow> nat list \<Rightarrow> compareInfo \<times> nat" where
  "like_escape pInfo zEsc =
    (let escape = fst (sqlite3Utf8Read zEsc);
         backupInfo = pInfo;
         backupInfo = (if escape = matchAll backupInfo then backupInfo\<lparr>matchAll := 0\<rparr> else backupInfo);
         backupInfo = (if escape = matchOne backupInfo then backupInfo\<lparr>matchOne := 0\<rparr> else backupInfo)
     in (if escape = matchAll pInfo \<or> escape = matchOne pInfo then backupInfo else pInfo, escape))"

definition like_compare :: "compareInfo \<Rightarrow> nat \<Rightarrow> nat list option \<Rightarrow> nat list option \<Rightarrow> sql_result option" where
  "like_compare pInfo escape zB zA =
    (case (zA, zB) of
       (Some zA, Some zB) \<Rightarrow>
         map_option (\<lambda>m. Int_Result (if m = SQLITE_MATCH then 1 else 0)) (patternCompare pInfo escape zB zA)
     | _ \<Rightarrow> Some Null_Result)"

definition likeFunc :: "compareInfo \<Rightarrow> nat \<Rightarrow> nat list option \<Rightarrow> nat list option
    \<Rightarrow> nat list option option \<Rightarrow> sql_result option" where
  "likeFunc pInfo limit argv0 argv1 argv2 =
    (let nPat = (case argv0 of None \<Rightarrow> 0 | Some z \<Rightarrow> length z - 1)
     in if nPat > limit then Some (Error_Result ''LIKE or GLOB pattern too complex'')
        else
          (case argv2 of
             None \<Rightarrow> like_compare pInfo (matchSet pInfo) argv0 argv1
           | Some None \<Rightarrow> Some Null_Result
           | Some (Some zEsc) \<Rightarrow>
               if sqlite3Utf8CharLen zEsc (-1) \<noteq> 1
               then Some (Error_Result ''ESCAPE expression must be a single character'')
               else (let (pInfo, escape) = like_escape pInfo zEsc in like_compare pInfo escape argv0 argv1)))"

subsection \<open>What a pattern means\<close>

text \<open>A set has the ranges of its members; \<open>Bad\<close> stands for a set that is not closed
  and for an escape with nothing after it, which match nothing.\<close>

datatype item = AnySeq | AnyOne | Lit nat | Set bool "(nat \<times> nat) list" | Bad

definition same_char :: "bool \<Rightarrow> nat \<Rightarrow> nat \<Rightarrow> bool" where
  "same_char nc c d \<longleftrightarrow> c = d \<or> nc \<and> c < 0x80 \<and> d < 0x80 \<and> sqlite3Tolower (int c) = sqlite3Tolower (int d)"

fun fits_item :: "bool \<Rightarrow> item \<Rightarrow> nat \<Rightarrow> bool" where
  "fits_item nc AnyOne d = True"
| "fits_item nc (Lit c) d = same_char nc c d"
| "fits_item nc (Set invert rs) d = ((\<exists>r \<in> set rs. fst r \<le> d \<and> d \<le> snd r) \<noteq> invert)"
| "fits_item nc it d = False"

fun matches :: "bool \<Rightarrow> item list \<Rightarrow> nat list \<Rightarrow> bool" where
  "matches nc [] s = (s = [])"
| "matches nc (AnySeq # ps) s = (\<exists>k \<in> {..length s}. matches nc ps (drop k s))"
| "matches nc (p # ps) s = (s \<noteq> [] \<and> fits_item nc p (hd s) \<and> matches nc ps (tl s))"

text \<open>The members of a set after its first: a character, a range when a dash stands
  between two characters; the second result is the pattern after the bracket.\<close>

function set_members :: "nat \<Rightarrow> nat list \<Rightarrow> ((nat \<times> nat) list \<times> nat list) option" where
  "set_members prior [] = None"
| "set_members prior (c # cs) =
    (if c = 0x5d then Some ([], cs)
     else if c = 0x2d \<and> cs \<noteq> [] \<and> hd cs \<noteq> 0x5d \<and> prior > 0 then
       map_option (\<lambda>(rs, r). ((prior, hd cs) # rs, r)) (set_members 0 (tl cs))
     else map_option (\<lambda>(rs, r). ((c, c) # rs, r)) (set_members c cs))"
  by pat_completeness auto
termination by (relation "measure (\<lambda>(p, cs). length cs)") auto

definition parse_set :: "nat list \<Rightarrow> (item \<times> nat list) option" where
  "parse_set cs =
    (let invert = (cs \<noteq> [] \<and> hd cs = 0x5e);
         cs1 = (if invert then tl cs else cs);
         close = (cs1 \<noteq> [] \<and> hd cs1 = 0x5d);
         cs2 = (if close then tl cs1 else cs1)
     in map_option (\<lambda>(rs, r). (Set invert ((if close then [(0x5d, 0x5d)] else []) @ rs), r)) (set_members 0 cs2))"

lemma set_members_shorter: "set_members p cs = Some (rs, r) \<Longrightarrow> length r < length cs"
proof (induction p cs arbitrary: rs rule: set_members.induct)
  case (2 prior c cs)
  show ?case
  proof (cases "c = 0x2d \<and> cs \<noteq> [] \<and> hd cs \<noteq> 0x5d \<and> prior > 0")
    case True
    with "2.prems" obtain rs' where "set_members 0 (tl cs) = Some (rs', r)" "c \<noteq> 0x5d" by auto
    from "2.IH"(1) [OF this(2) True this(1)] show ?thesis by simp
  next
    case False
    with "2.prems" "2.IH"(2) show ?thesis by (auto simp: less_Suc_eq split: if_splits)
  qed
qed simp

lemma parse_set_shorter: "parse_set cs = Some (s, r) \<Longrightarrow> length r < length cs"
  by (auto simp: parse_set_def Let_def dest!: set_members_shorter split: if_splits)

function parse :: "compareInfo \<Rightarrow> nat \<Rightarrow> nat list \<Rightarrow> item list" where
  "parse i other [] = []"
| "parse i other (c # cs) =
    (if c = matchAll i then AnySeq # parse i other cs
     else if c = other then
       (if matchSet i \<noteq> 0 then
          (case parse_set cs of None \<Rightarrow> [Bad] | Some (s, r) \<Rightarrow> s # parse i other r)
        else (case cs of [] \<Rightarrow> [Bad] | d # ds \<Rightarrow> Lit d # parse i other ds))
     else if c = matchOne i then AnyOne # parse i other cs
     else Lit c # parse i other cs)"
  by pat_completeness auto
termination by (relation "measure (\<lambda>(i, m, cs). length cs)") (auto dest: parse_set_shorter)


subsection \<open>Reading an encoded text\<close>

definition text_char :: "nat \<Rightarrow> bool" where
  "text_char c \<longleftrightarrow> code_point c \<and> c \<noteq> 0"

text \<open>The C string of a text.\<close>

definition ctext :: "nat list \<Rightarrow> nat list" where
  "ctext cs = encode SQLITE_UTF8 cs @ [0]"

lemma ctext_simps [simp]: "ctext [] = [0]" "ctext (c # cs) = utf8_bytes c @ ctext cs" "ctext cs \<noteq> []"
  by (simp_all add: ctext_def encode_char_utf)

lemma ctext_lead: "list_all text_char cs \<Longrightarrow> no_continuation (ctext cs)"
  by (cases cs) (auto simp: no_continuation_def [of "[0]"] text_char_def code_point_def utf8_bytes_lead)

lemma utf8_bytes_hd:
  assumes "code_point c"
  shows "utf8_bytes c \<noteq> []" "x < 0x80 \<Longrightarrow> hd (utf8_bytes c) = x \<longleftrightarrow> c = x"
    "c < 0x80 \<Longrightarrow> utf8_bytes c = [c]" "\<not> c < 0x80 \<Longrightarrow> list_all (\<lambda>b. 0x80 \<le> b) (utf8_bytes c)"
  by (auto simp: utf8_bytes_def)

lemma utf8_next_ctext:
  "utf8_next (ctext []) = Some (0, [])"
  "list_all text_char (c # cs) \<Longrightarrow> utf8_next (ctext (c # cs)) = Some (c, ctext cs)"
proof -
  show "utf8_next (ctext []) = Some (0, [])" by (simp add: utf8_next_def sqlite3Utf8Read_def)
  assume cs: "list_all text_char (c # cs)"
  then have "READ_UTF8 (utf8_bytes c @ ctext cs) = (c, ctext cs)"
    using utf8_self_test [OF _ ctext_lead, of c cs] by (simp add: text_char_def code_point_kept code_point_def)
  then show "utf8_next (ctext (c # cs)) = Some (c, ctext cs)"
    by (simp add: utf8_next_def sqlite3Utf8Read_def del: READ_UTF8.simps)
qed

lemma Utf8Read_ctext:
  "Utf8Read (ctext []) = Some (0, [])"
  "list_all text_char (c # cs) \<Longrightarrow> Utf8Read (ctext (c # cs)) = Some (c, ctext cs)"
proof -
  show "Utf8Read (ctext []) = Some (0, [])" by (simp add: Utf8Read_def)
  assume cs: "list_all text_char (c # cs)"
  then have c: "code_point c" by (simp add: text_char_def)
  show "Utf8Read (ctext (c # cs)) = Some (c, ctext cs)"
  proof (cases "c < 0x80")
    case True
    then show ?thesis using utf8_bytes_hd(3) [OF c] by (simp add: Utf8Read_def)
  next
    case False
    then obtain b r where b: "utf8_bytes c = b # r" "0x80 \<le> b"
      using utf8_bytes_hd(1,4) [OF c] by (cases "utf8_bytes c") auto
    then show ?thesis using utf8_next_ctext(2) [OF cs] by (simp add: Utf8Read_def)
  qed
qed

lemma skip_utf8_ctext: "list_all text_char (c # cs) \<Longrightarrow> skip_utf8 (ctext (c # cs)) = ctext cs"
  using skip_utf8_bytes [of c "ctext cs"] ctext_lead [of cs] by (simp add: text_char_def)

lemma peek_ctext:
  "peek (ctext []) = Some 0"
  "list_all text_char (c # cs) \<Longrightarrow> peek (ctext (c # cs)) = Some (hd (utf8_bytes c)) \<and> hd (utf8_bytes c) \<noteq> 0"
  using utf8_bytes_hd(1) [of c] utf8_bytes_hd(2) [of c 0]
  by (cases "utf8_bytes c"; auto simp: peek_def text_char_def)+

lemma peek_some: "\<exists>p. peek (ctext cs) = Some p"
  by (cases "ctext cs") (simp_all add: peek_def)

text \<open>Looking at the next byte tells an ASCII character, or the end.\<close>

lemma peek_ascii:
  assumes "list_all text_char cs" "peek (ctext cs) = Some p"
  shows "p = 0 \<longleftrightarrow> cs = []" "p = 0x5d \<longleftrightarrow> cs \<noteq> [] \<and> hd cs = 0x5d"
proof -
  have "p = 0 \<longleftrightarrow> cs = []" "p = 0x5d \<longleftrightarrow> cs \<noteq> [] \<and> hd cs = 0x5d" if "cs = []"
    using assms that by (simp_all add: peek_def)
  moreover have "p = 0 \<longleftrightarrow> cs = []" "p = 0x5d \<longleftrightarrow> cs \<noteq> [] \<and> hd cs = 0x5d" if "cs = c # cs'" for c cs'
    using assms that peek_ctext(2) [of c cs'] utf8_bytes_hd(2) [of c "0x5d"] by (auto simp: text_char_def)
  ultimately show "p = 0 \<longleftrightarrow> cs = []" "p = 0x5d \<longleftrightarrow> cs \<noteq> [] \<and> hd cs = 0x5d" by (cases cs; blast)+
qed

subsection \<open>Sets\<close>

definition in_ranges :: "(nat \<times> nat) list \<Rightarrow> nat \<Rightarrow> bool" where
  "in_ranges rs d \<longleftrightarrow> (\<exists>r \<in> set rs. fst r \<le> d \<and> d \<le> snd r)"

lemma in_ranges_simps [simp]:
  "\<not> in_ranges [] d" "in_ranges ((a, b) # rs) d \<longleftrightarrow> a \<le> d \<and> d \<le> b \<or> in_ranges rs d"
  "in_ranges (rs @ rs') d \<longleftrightarrow> in_ranges rs d \<or> in_ranges rs' d"
  by (auto simp: in_ranges_def)

lemma set_members_range:
  assumes "c \<noteq> 0x5d" "c = 0x2d \<and> cs \<noteq> [] \<and> hd cs \<noteq> 0x5d \<and> prior > 0"
  shows "set_members prior (c # cs) = map_option (\<lambda>(rs, r). ((prior, hd cs) # rs, r)) (set_members 0 (tl cs))"
  using assms by simp

lemma set_members_other:
  assumes "c \<noteq> 0x5d" "\<not> (c = 0x2d \<and> cs \<noteq> [] \<and> hd cs \<noteq> 0x5d \<and> prior > 0)"
  shows "set_members prior (c # cs) = map_option (\<lambda>(rs, r). ((c, c) # rs, r)) (set_members c cs)"
  using assms by auto

lemma set_loop_ctext:
  "list_all text_char cs \<Longrightarrow>
   (\<exists>c2 z. utf8_next (ctext cs) = Some (c2, z) \<and>
     (case set_members prior cs of
        None \<Rightarrow> \<exists>seen' z'. set_loop d prior seen c2 z = Some (0, seen', z')
      | Some (rs, r) \<Rightarrow> set_loop d prior seen c2 z = Some (0x5d, seen \<or> in_ranges rs d, ctext r)))"
proof (induction prior cs arbitrary: seen rule: set_members.induct)
  case (1 prior)
  show ?case by (auto simp: utf8_next_ctext(1) [simplified] set_loop.simps)
next
  case (2 prior c cs)
  note nx = utf8_next_ctext(2) [OF "2.prems"]
  have cs: "list_all text_char cs" "text_char c" using "2.prems" by auto
  obtain p where p: "peek (ctext cs) = Some p" using peek_some by blast
  note pk = peek_ascii [OF cs(1) p]
  have c0: "c \<noteq> 0" using cs(2) by (simp add: text_char_def)
  show ?case
  proof (cases "c = 0x5d")
    case True
    then show ?thesis using nx by (auto simp: set_loop.simps)
  next
    case c: False
    show ?thesis
    proof (cases "c = 0x2d \<and> cs \<noteq> [] \<and> hd cs \<noteq> 0x5d \<and> prior > 0")
      case True
      then obtain e es where e: "cs = e # es" by (cases cs) auto
      have ncs: "utf8_next (ctext cs) = Some (e, ctext es)" using utf8_next_ctext(2) cs(1) e by metis
      obtain c3 z where z: "utf8_next (ctext (tl cs)) = Some (c3, z)"
          "case set_members 0 (tl cs) of
             None \<Rightarrow> \<exists>seen' z'. set_loop d 0 (if prior \<le> d \<and> d \<le> e then True else seen) c3 z = Some (0, seen', z')
           | Some (rs, r) \<Rightarrow> set_loop d 0 (if prior \<le> d \<and> d \<le> e then True else seen) c3 z
               = Some (0x5d, (if prior \<le> d \<and> d \<le> e then True else seen) \<or> in_ranges rs d, ctext r)"
        using "2.IH"(1) [OF c True, of "if prior \<le> d \<and> d \<le> e then True else seen"] cs(1) e by auto
      have step: "set_loop d prior seen c (ctext cs)
          = set_loop d 0 (if prior \<le> d \<and> d \<le> e then True else seen) c3 z"
        using True p pk c ncs z(1) e by (subst set_loop.simps) simp
      show ?thesis unfolding nx set_members_range [OF c True]
        using z(2) unfolding step [symmetric] e list.sel
        by (cases "set_members 0 es") (auto simp del: ctext_simps)
    next
      case False
      obtain c3 z where z: "utf8_next (ctext cs) = Some (c3, z)"
          "case set_members c cs of
             None \<Rightarrow> \<exists>seen' z'. set_loop d c (if d = c then True else seen) c3 z = Some (0, seen', z')
           | Some (rs, r) \<Rightarrow> set_loop d c (if d = c then True else seen) c3 z
               = Some (0x5d, (if d = c then True else seen) \<or> in_ranges rs d, ctext r)"
        using "2.IH"(2) [OF c False cs(1), of "if d = c then True else seen"] by auto
      have step: "set_loop d prior seen c (ctext cs) = set_loop d c (if d = c then True else seen) c3 z"
      proof -
        have "\<not> (c = 0x2d \<and> p \<noteq> 0x5d \<and> p \<noteq> 0 \<and> prior > 0)" using False pk by blast
        then show ?thesis
          using p c c0 z(1) by (subst set_loop.simps) (simp only: option.case prod.case if_False if_True simp_thms Let_def)
      qed
      show ?thesis unfolding nx set_members_other [OF c False]
        using z(2) unfolding step [symmetric]
        by (cases "set_members c cs") (auto simp del: ctext_simps)
    qed
  qed
qed


lemma match_set_ctext:
  assumes "list_all text_char cs" "list_all text_char s"
  shows "match_set (ctext cs) (ctext s) =
    (case s of [] \<Rightarrow> Some (Inl ())
     | d # s' \<Rightarrow>
         (case parse_set cs of None \<Rightarrow> Some (Inl ())
          | Some (it, r) \<Rightarrow> if fits_item nc it d then Some (Inr (ctext r, ctext s')) else Some (Inl ())))"
proof (cases s)
  case Nil
  then show ?thesis by (simp add: match_set_def utf8_next_ctext(1) [simplified])
next
  case (Cons d s')
  then have d: "utf8_next (ctext s) = Some (d, ctext s')" "d \<noteq> 0"
    using utf8_next_ctext(2) assms(2) by (auto simp: text_char_def simp del: ctext_simps)
  define invert where "invert = (cs \<noteq> [] \<and> hd cs = 0x5e)"
  define cs1 where "cs1 = (if invert then tl cs else cs)"
  define close where "close = (cs1 \<noteq> [] \<and> hd cs1 = 0x5d)"
  define cs2 where "cs2 = (if close then tl cs1 else cs1)"
  have a1: "list_all text_char cs1" using assms(1) by (cases cs) (auto simp: cs1_def)
  then have a2: "list_all text_char cs2" by (cases cs1) (auto simp: cs2_def)
  have first: "\<exists>c z. utf8_next (ctext xs) = Some (c, z) \<and> (c = x \<longleftrightarrow> xs \<noteq> [] \<and> hd xs = x) \<and> (c = x \<longrightarrow> z = ctext (tl xs))"
    if "list_all text_char xs" "x \<noteq> 0" for xs x
    using that utf8_next_ctext(1) utf8_next_ctext(2) [of "hd xs" "tl xs"] by (cases xs) (auto simp del: ctext_simps)
  obtain c z where 1: "utf8_next (ctext cs) = Some (c, z)" "c = 0x5e \<longleftrightarrow> invert" "c = 0x5e \<longrightarrow> z = ctext (tl cs)"
    using first [OF assms(1), of "0x5e"] by (auto simp: invert_def)
  obtain c' z' where 2: "utf8_next (ctext cs1) = Some (c', z')" "c' = 0x5d \<longleftrightarrow> close" "c' = 0x5d \<longrightarrow> z' = ctext (tl cs1)"
    using first [OF a1, of "0x5d"] by (auto simp: close_def)
  obtain c2 z2 where 3: "utf8_next (ctext cs2) = Some (c2, z2)"
    "case set_members 0 cs2 of
        None \<Rightarrow> \<exists>seen' z'. set_loop d 0 (close \<and> d = 0x5d) c2 z2 = Some (0, seen', z')
      | Some (rs, r) \<Rightarrow> set_loop d 0 (close \<and> d = 0x5d) c2 z2 = Some (0x5d, (close \<and> d = 0x5d) \<or> in_ranges rs d, ctext r)"
    using set_loop_ctext [OF a2, where prior = 0 and d = d and seen = "close \<and> d = 0x5d"] by blast
  have s1: "(if c = 0x5e then map_option (\<lambda>r. (True, r)) (utf8_next z) else Some (False, c, z)) = Some (invert, c', z')"
    using 1 2(1) by (auto simp: cs1_def)
  have s2: "(if c' = 0x5d then map_option (\<lambda>r. (d = 0x5d, r)) (utf8_next z') else Some (False, c', z'))
      = Some (close \<and> d = 0x5d, c2, z2)"
    using 2 3(1) by (auto simp: cs2_def)
  have m: "match_set (ctext cs) (ctext s) = (case set_loop d 0 (close \<and> d = 0x5d) c2 z2 of
      None \<Rightarrow> None
    | Some (c2, seen, zPattern) \<Rightarrow> if c2 = 0 \<or> seen = invert then Some (Inl ()) else Some (Inr (zPattern, ctext s')))"
    unfolding match_set_def d(1) option.case prod.case 1(1) s1 s2 using d(2) by simp
  have p: "parse_set cs = map_option (\<lambda>(rs, r). (Set invert ((if close then [(0x5d, 0x5d)] else []) @ rs), r)) (set_members 0 cs2)"
    by (simp only: parse_set_def Let_def invert_def cs1_def close_def cs2_def)
  show ?thesis unfolding m p using 3(2) Cons
    by (cases "set_members 0 cs2") (auto simp: in_ranges_def)
qed

subsection \<open>Searches\<close>

text \<open>What a call of the matcher says of items and a text: they match, they do not, or
  they match no end of the text.\<close>

definition verdict :: "bool \<Rightarrow> nat option \<Rightarrow> item list \<Rightarrow> nat list \<Rightarrow> bool" where
  "verdict nc r ps s \<longleftrightarrow>
    r = Some SQLITE_MATCH \<and> matches nc ps s
    \<or> r = Some SQLITE_NOMATCH \<and> \<not> matches nc ps s
    \<or> r = Some SQLITE_NOWILDCARDMATCH \<and> (\<forall>k. \<not> matches nc ps (drop k s))"

lemmas match_codes = SQLITE_MATCH_def SQLITE_NOMATCH_def SQLITE_NOWILDCARDMATCH_def

text \<open>The searches, over code points: try \<open>g\<close> at every place.\<close>

fun scan :: "(nat list \<Rightarrow> nat option) \<Rightarrow> nat list \<Rightarrow> nat option" where
  "scan g [] = Some SQLITE_NOWILDCARDMATCH"
| "scan g (d # s) =
    (case g (d # s) of None \<Rightarrow> None
     | Some b \<Rightarrow> if b \<noteq> SQLITE_NOMATCH then Some b else scan g s)"

lemma matches_star: "matches nc (AnySeq # ps) s \<longleftrightarrow> (\<exists>k. matches nc ps (drop k s))"
proof
  assume "\<exists>k. matches nc ps (drop k s)"
  then obtain k where "matches nc ps (drop k s)" ..
  then have "matches nc ps (drop (min k (length s)) s)" by (cases "k \<le> length s") (simp_all add: min_def)
  then show "matches nc (AnySeq # ps) s" by (auto intro!: bexI [of _ "min k (length s)"])
qed auto

lemma matches_star_Cons:
  "matches nc (AnySeq # ps) (d # s) \<longleftrightarrow> matches nc ps (d # s) \<or> matches nc (AnySeq # ps) s"
proof
  assume "matches nc (AnySeq # ps) (d # s)"
  then obtain k where "matches nc ps (drop k (d # s))" by (auto simp: matches_star)
  then show "matches nc ps (d # s) \<or> matches nc (AnySeq # ps) s"
    by (cases k) (auto simp: matches_star simp del: matches.simps)
next
  assume "matches nc ps (d # s) \<or> matches nc (AnySeq # ps) s"
  then show "matches nc (AnySeq # ps) (d # s)"
    unfolding matches_star by (metis drop0 drop_Suc_Cons)
qed

lemma matches_star_Nil: "matches nc (AnySeq # ps) [] \<longleftrightarrow> matches nc ps []"
  by simp

lemma star_drop: "matches nc (AnySeq # ps) (drop k s) \<Longrightarrow> matches nc (AnySeq # ps) s"
  unfolding matches_star drop_drop by blast

lemma scan_verdict:
  assumes "\<And>t. t \<noteq> [] \<Longrightarrow> list_all text_char t \<Longrightarrow> verdict nc (g t) ps t" "\<not> matches nc ps []"
  shows "list_all text_char s \<Longrightarrow> verdict nc (scan g s) (AnySeq # ps) s"
proof (induction s)
  case Nil
  then show ?case using assms(2) by (simp add: verdict_def match_codes)
next
  case (Cons d s)
  have g: "verdict nc (g (d # s)) ps (d # s)" using assms(1) Cons.prems by simp
  have IH: "verdict nc (scan g s) (AnySeq # ps) s" using Cons by simp
  have drops: "(\<forall>k. \<not> matches nc (AnySeq # ps) (drop k t)) \<longleftrightarrow> \<not> matches nc (AnySeq # ps) t" for t
    using star_drop by (metis drop0)
  from g consider "g (d # s) = Some SQLITE_MATCH" "matches nc ps (d # s)"
    | "g (d # s) = Some SQLITE_NOMATCH" "\<not> matches nc ps (d # s)"
    | "g (d # s) = Some SQLITE_NOWILDCARDMATCH" "\<forall>k. \<not> matches nc ps (drop k (d # s))"
    by (auto simp: verdict_def)
  then show ?case
  proof cases
    case 1
    then show ?thesis using matches_star_Cons by (simp add: verdict_def match_codes del: matches.simps)
  next
    case 2
    then show ?thesis using IH unfolding verdict_def drops by (simp add: matches_star_Cons del: matches.simps)
  next
    case 3
    then have "\<not> matches nc (AnySeq # ps) (d # s)" by (simp add: matches_star)
    then show ?thesis using 3(1) unfolding verdict_def drops by (simp add: match_codes)
  qed
qed

text \<open>Looking for a character and matching the rest behind it.\<close>

definition behind :: "(nat \<Rightarrow> bool) \<Rightarrow> (nat list \<Rightarrow> nat option) \<Rightarrow> nat list \<Rightarrow> nat option" where
  "behind P f s = (if P (hd s) then f (tl s) else Some SQLITE_NOMATCH)"

lemma behind_Cons: "behind P f (d # s) = (if P d then f s else Some SQLITE_NOMATCH)"
  by (simp add: behind_def)

lemma item_step:
  assumes "it \<noteq> AnySeq" "verdict nc r ps s"
  shows "verdict nc (if fits_item nc it d then r else Some SQLITE_NOMATCH) (it # ps) (d # s)"
proof -
  have item: "matches nc (it # ps) t \<longleftrightarrow> t \<noteq> [] \<and> fits_item nc it (hd t) \<and> matches nc ps (tl t)" for t
    using assms(1) by (cases it) auto
  have "matches nc (it # ps) (drop k (d # s)) \<Longrightarrow> \<exists>j. matches nc ps (drop j s)" for k
  proof (cases k)
    case 0
    then show "matches nc (it # ps) (drop k (d # s)) \<Longrightarrow> ?thesis" by (auto simp: item intro: exI [of _ 0])
  next
    case (Suc j)
    then have "tl (drop k (d # s)) = drop (Suc j) s" by (simp add: drop_Suc tl_drop)
    then show "matches nc (it # ps) (drop k (d # s)) \<Longrightarrow> ?thesis" unfolding item by metis
  qed
  then show ?thesis using assms(2) by (auto simp: verdict_def item)
qed

lemma behind_verdict:
  assumes "\<And>d. text_char d \<Longrightarrow> P d \<longleftrightarrow> fits_item nc it d" "it \<noteq> AnySeq"
    and "\<And>t. list_all text_char t \<Longrightarrow> verdict nc (f t) ps t" and "s \<noteq> []" "list_all text_char s"
  shows "verdict nc (behind P f s) (it # ps) s"
proof -
  obtain d s' where s: "s = d # s'" using assms(4) by (cases s) auto
  show ?thesis using item_step [OF assms(2) assms(3) [of s'], of d] assms(1) [of d] assms(5) s
    by (simp add: behind_Cons)
qed

lemma search_char_ctext:
  "list_all text_char s \<Longrightarrow> search_char f c (ctext s) = scan (behind (\<lambda>d. d = c) (\<lambda>t. f (ctext t))) s"
proof (induction s)
  case Nil
  show ?case by (simp add: search_char.simps Utf8Read_def)
next
  case (Cons d s)
  from Utf8Read_ctext(2) [OF Cons.prems] Cons show ?case
    by (subst search_char.simps)
      (auto simp: behind_Cons text_char_def SQLITE_NOMATCH_def simp del: ctext_simps split: option.split)
qed

lemma search_set_ctext:
  "list_all text_char s \<Longrightarrow> search_set f (ctext s) = scan (\<lambda>t. f (ctext t)) s"
proof (induction s)
  case Nil
  show ?case by (simp add: search_set.simps peek_def)
next
  case (Cons d s)
  from peek_ctext(2) [OF Cons.prems] skip_utf8_ctext [OF Cons.prems] Cons show ?case
    by (subst search_set.simps) (auto simp del: ctext_simps split: option.split)
qed

text \<open>The bytes of a character that is not ASCII are no stops.\<close>

lemma search_stop_skip:
  "list_all (\<lambda>b. 0x80 \<le> b) bs \<Longrightarrow> \<forall>x \<in> set zStop. x < 0x80 \<Longrightarrow>
   search_stop f zStop (bs @ z) = search_stop f zStop z"
  by (induction bs) auto

lemma search_stop_ctext:
  assumes "\<forall>x \<in> set zStop. x < 0x80"
  shows "list_all text_char s \<Longrightarrow>
    search_stop f zStop (ctext s) = scan (behind (\<lambda>d. d \<in> set zStop) (\<lambda>t. f (ctext t))) s"
proof (induction s)
  case (Cons d s)
  then have d: "code_point d" "d \<noteq> 0" by (simp_all add: text_char_def)
  show ?case
  proof (cases "d < 0x80")
    case True
    then show ?thesis using Cons d utf8_bytes_hd(3) [OF d(1)]
      by (auto simp: behind_Cons SQLITE_NOMATCH_def split: option.split)
  next
    case False
    then have "search_stop f zStop (ctext (d # s)) = search_stop f zStop (ctext s)"
      using search_stop_skip [OF _ assms] utf8_bytes_hd(4) [OF d(1)] by simp
    moreover have "d \<notin> set zStop" using assms False by auto
    ultimately show ?thesis using Cons by (simp add: behind_Cons)
  qed
qed simp

lemma same_char_stops:
  assumes "c < 0x80"
  shows "d \<in> {nat (sqlite3Toupper (int c)), nat (sqlite3Tolower (int c))} \<longleftrightarrow> same_char True c d"
proof -
  define lo :: "nat \<Rightarrow> nat" where "lo d = (if 65 \<le> d \<and> d \<le> 90 then d + 32 else d)" for d
  have "sqlite3Toupper (int c) = (if 97 \<le> c \<and> c \<le> 122 then int c - 32 else int c)"
    using assms by (simp add: ctype_facts(6))
  then have up: "nat (sqlite3Toupper (int c)) = (if 97 \<le> c \<and> c \<le> 122 then c - 32 else c)"
    by auto
  have tl: "sqlite3Tolower (int d) = int (lo d)" if "d < 0x80" for d
    using that by (simp add: Tolower_eq lo_def)
  have same: "same_char True c d \<longleftrightarrow> c = d \<or> d < 0x80 \<and> lo c = lo d"
    using assms by (cases "d < 0x80") (simp_all add: same_char_def tl)
  show ?thesis unfolding same up tl [OF assms] nat_int using assms
    by (cases "c = d") (auto simp: lo_def split: if_splits)
qed

lemma stops_ascii:
  "c < 0x80 \<Longrightarrow> nat (sqlite3Toupper (int c)) < 0x80 \<and> nat (sqlite3Tolower (int c)) < 0x80"
  using same_char_stops [of c "nat (sqlite3Toupper (int c))"] same_char_stops [of c "nat (sqlite3Tolower (int c))"]
  by (auto simp: same_char_def)

lemma search_from_ctext:
  assumes "c \<noteq> 0x80" "list_all text_char s"
  shows "search_from i c f (ctext s) = scan (behind (same_char (noCase i) c) (\<lambda>t. f (ctext t))) s"
proof (cases "c < 0x80")
  case True
  define zStop where "zStop = (if noCase i then [nat (sqlite3Toupper (int c)), nat (sqlite3Tolower (int c))] else [c])"
  have "(\<lambda>d. d \<in> set zStop) = same_char (noCase i) c"
    using same_char_stops [OF True] by (auto simp: zStop_def same_char_def)
  moreover have "\<forall>x \<in> set zStop. x < 0x80"
    using stops_ascii [OF True] True by (simp add: zStop_def)
  ultimately show ?thesis using search_stop_ctext [OF _ assms(2), of zStop f] True
    by (simp add: search_from_def zStop_def)
next
  case False
  then have "same_char (noCase i) c = (\<lambda>d. d = c)" by (auto simp: same_char_def)
  then show ?thesis using False assms search_char_ctext [OF assms(2)] by (simp add: search_from_def)
qed

lemma matches_star_star: "matches nc (AnySeq # AnySeq # ps) s \<longleftrightarrow> matches nc (AnySeq # ps) s"
  unfolding matches_star [of nc "AnySeq # ps"] by (metis star_drop drop0)

lemma matches_star_one:
  "matches nc (AnySeq # AnyOne # ps) s \<longleftrightarrow> s \<noteq> [] \<and> matches nc (AnySeq # ps) (tl s)"
proof (induction s)
  case (Cons d s)
  have "matches nc (AnyOne # ps) (d # s) \<longleftrightarrow> matches nc ps s" by simp
  moreover have "matches nc (AnySeq # ps) s \<longleftrightarrow> matches nc ps s \<or> s \<noteq> [] \<and> matches nc (AnySeq # ps) (tl s)"
  proof (cases s)
    case (Cons e t)
    then show ?thesis using matches_star_Cons [of nc ps e t] by (simp del: matches.simps)
  qed simp
  ultimately show ?case using Cons.IH matches_star_Cons [of nc "AnyOne # ps" d s]
    by (simp del: matches.simps)
qed simp

text \<open>What skipping the wildcards after a star leaves: the text has ended too early, or
  the pattern and the text from which the star has to go on.\<close>

definition skipped :: "compareInfo \<Rightarrow> nat \<Rightarrow> bool \<Rightarrow> nat list \<Rightarrow> nat list \<Rightarrow> nat list \<Rightarrow> nat list \<Rightarrow> bool" where
  "skipped i other nc cs s cs' t \<longleftrightarrow>
    length cs' \<le> length cs \<and> set cs' \<subseteq> set cs \<and> list_all text_char cs' \<and> list_all text_char t
    \<and> skip_wildcards i (ctext cs) (ctext s)
      = Some (Inr (case cs' of [] \<Rightarrow> (0, [], ctext t) | c # cs'' \<Rightarrow> (c, ctext cs'', ctext t)))
    \<and> (cs' \<noteq> [] \<longrightarrow> hd cs' \<noteq> matchAll i \<and> hd cs' \<noteq> matchOne i)
    \<and> (matches nc (AnySeq # parse i other cs) s \<longleftrightarrow> matches nc (AnySeq # parse i other cs') t)"

lemma skipped_step:
  assumes "skip_wildcards i (ctext cs0) (ctext s0) = skip_wildcards i (ctext cs) (ctext s)"
    and "matches nc (AnySeq # parse i other cs0) s0 \<longleftrightarrow> matches nc (AnySeq # parse i other cs) s"
    and "set cs \<subseteq> set cs0" "length cs \<le> length cs0" "skipped i other nc cs s cs' t"
  shows "skipped i other nc cs0 s0 cs' t"
  using assms(3,4,5) unfolding skipped_def assms(1,2) by (metis order_trans)

lemma skip_wildcards_ctext:
  assumes info: "matchAll i \<noteq> 0" "matchOne i \<noteq> 0" "other \<noteq> matchOne i" "matchAll i \<noteq> matchOne i"
  shows "list_all text_char cs \<Longrightarrow> list_all text_char s \<Longrightarrow>
    skip_wildcards i (ctext cs) (ctext s) = Some (Inl ()) \<and> \<not> matches nc (AnySeq # parse i other cs) s
    \<or> (\<exists>cs' t. skipped i other nc cs s cs' t)"
proof (induction cs arbitrary: s)
  case Nil
  have "skip_wildcards i (ctext []) (ctext s) = Some (Inr (0, [], ctext s))"
    using info by (simp add: skip_wildcards.simps Utf8Read_def)
  then have "skipped i other nc [] s [] s" using Nil by (simp add: skipped_def)
  then show ?case by blast
next
  case (Cons c cs)
  note rd = Utf8Read_ctext(2) [OF Cons.prems(1)] and IH = Cons.IH
  have cs: "list_all text_char cs" using Cons.prems by simp
  have sub: "set cs \<subseteq> set (c # cs)" "length cs \<le> length (c # cs)" by auto
  consider "c = matchAll i" | "c = matchOne i" | "c \<noteq> matchAll i" "c \<noteq> matchOne i" by blast
  then show ?case
  proof cases
    case 1
    then have k: "skip_wildcards i (ctext (c # cs)) (ctext s) = skip_wildcards i (ctext cs) (ctext s)"
      using rd info(4) by (subst skip_wildcards.simps) (simp del: ctext_simps)
    have m: "matches nc (AnySeq # parse i other (c # cs)) s \<longleftrightarrow> matches nc (AnySeq # parse i other cs) s"
      using 1 matches_star_star by (simp del: matches.simps)
    show ?thesis using IH [OF cs Cons.prems(2)] skipped_step [OF k m sub] unfolding k m by blast
  next
    case 2
    have p: "parse i other (c # cs) = AnyOne # parse i other cs" using 2 info by simp
    show ?thesis
    proof (cases s)
      case Nil
      have "skip_wildcards i (ctext (c # cs)) (ctext s) = Some (Inl ())"
        using rd 2 Nil utf8_next_ctext(1) by (subst skip_wildcards.simps) (simp del: ctext_simps)
      then show ?thesis unfolding p matches_star_one using Nil by simp
    next
      case (Cons d s')
      have s': "list_all text_char s'" and "text_char d" using Cons.prems(2) Cons by simp_all
      then have "d \<noteq> 0" by (simp add: text_char_def)
      have k: "skip_wildcards i (ctext (c # cs)) (ctext s) = skip_wildcards i (ctext cs) (ctext s')"
        using rd 2 utf8_next_ctext(2) [OF Cons.prems(2) [unfolded Cons]] \<open>d \<noteq> 0\<close> Cons
        by (subst skip_wildcards.simps) (simp del: ctext_simps)
      have m: "matches nc (AnySeq # parse i other (c # cs)) s \<longleftrightarrow> matches nc (AnySeq # parse i other cs) s'"
        unfolding p matches_star_one using Cons by simp
      show ?thesis using IH [OF cs s'] skipped_step [OF k m sub] unfolding k m by blast
    qed
  next
    case 3
    then have "skip_wildcards i (ctext (c # cs)) (ctext s) = Some (Inr (c, ctext cs, ctext s))"
      using rd by (subst skip_wildcards.simps) (simp del: ctext_simps)
    then have "skipped i other nc (c # cs) s (c # cs) s"
      using 3 Cons.prems by (simp add: skipped_def del: matches.simps parse.simps ctext_simps)
    then show ?thesis by blast
  qed
qed


subsection \<open>The matcher decides what the pattern means\<close>

definition plain_info :: "compareInfo \<Rightarrow> nat \<Rightarrow> bool" where
  "plain_info i other \<longleftrightarrow> matchOne i \<noteq> 0 \<and> other \<noteq> matchOne i \<and> matchAll i \<noteq> matchOne i
    \<and> (matchSet i \<noteq> 0 \<longrightarrow> 0 < other \<and> other < 0x80)"

lemma verdict_star:
  assumes "verdict nc r (AnySeq # qs) t" "matches nc (AnySeq # ps) s \<longleftrightarrow> matches nc (AnySeq # qs) t"
  shows "verdict nc r (AnySeq # ps) s"
proof -
  have drops: "(\<forall>k. \<not> matches nc (AnySeq # ps) (drop k t)) \<longleftrightarrow> \<not> matches nc (AnySeq # ps) t" for ps t
    using star_drop by (metis drop0)
  show ?thesis using assms unfolding verdict_def drops by blast
qed

lemma verdict_star_none:
  "\<not> matches nc (AnySeq # ps) s \<Longrightarrow> verdict nc (Some SQLITE_NOWILDCARDMATCH) (AnySeq # ps) s"
  using star_drop unfolding verdict_def by blast

lemma search_from_verdict:
  assumes "c \<noteq> 0x80" "list_all text_char t"
    and f: "\<And>t. list_all text_char t \<Longrightarrow> verdict (noCase i) (f (ctext t)) ps t"
  shows "verdict (noCase i) (search_from i c f (ctext t)) (AnySeq # Lit c # ps) t"
  unfolding search_from_ctext [OF assms(1,2)]
  by (rule scan_verdict [OF behind_verdict [where it = "Lit c"] _ assms(2)]) (auto simp: f)

lemma set_members_subset: "set_members p cs = Some (rs, r) \<Longrightarrow> set r \<subseteq> set cs"
proof (induction p cs arbitrary: rs rule: set_members.induct)
  case (2 prior c cs)
  show ?case
  proof (cases "c = 0x2d \<and> cs \<noteq> [] \<and> hd cs \<noteq> 0x5d \<and> prior > 0")
    case True
    with "2.prems" obtain rs' where "set_members 0 (tl cs) = Some (rs', r)" "c \<noteq> 0x5d" by auto
    from "2.IH"(1) [OF this(2) True this(1)] show ?thesis by (cases cs) auto
  next
    case False
    with "2.prems" "2.IH"(2) show ?thesis by (auto split: if_splits)
  qed
qed simp

lemma parse_set_facts:
  assumes "parse_set cs = Some (it, r)"
  shows "set r \<subseteq> set cs" "length r < length cs" "it \<noteq> AnySeq"
proof -
  have "set (tl xs) \<subseteq> set xs" for xs :: "nat list" by (cases xs) auto
  then show "set r \<subseteq> set cs" using assms
    by (auto simp: parse_set_def Let_def dest!: set_members_subset split: if_splits) (metis subsetD)+
  show "length r < length cs" using assms by (rule parse_set_shorter)
  show "it \<noteq> AnySeq" using assms by (auto simp: parse_set_def Let_def)
qed

text \<open>A pattern that starts with a set does not match the empty text.\<close>

lemma parse_set_nonempty:
  assumes "c \<noteq> matchAll i" "c = other" "matchSet i \<noteq> 0"
  shows "\<not> matches nc (parse i other (c # cs)) []"
proof (cases "parse_set cs")
  case None
  then show ?thesis using assms by simp
next
  case (Some p)
  obtain it r where p: "p = (it, r)" by (cases p)
  then have "it \<noteq> AnySeq" using parse_set_facts(3) Some by simp
  then show ?thesis using assms Some p by (cases it) simp_all
qed


lemma compare_star:
  assumes info: "plain_info i other" and c: "c = matchAll i" "list_all text_char (c # cs)" "0x80 \<notin> set cs"
    and s: "list_all text_char s"
    and IH: "\<And>ps t. length ps \<le> length cs \<Longrightarrow> list_all text_char ps \<Longrightarrow> 0x80 \<notin> set ps \<Longrightarrow> list_all text_char t \<Longrightarrow>
      verdict (noCase i) (patternCompare i other (ctext ps) (ctext t)) (parse i other ps) t"
  shows "verdict (noCase i) (patternCompare i other (ctext (c # cs)) (ctext s)) (parse i other (c # cs)) s"
proof -
  let ?nc = "noCase i" and ?pc = "\<lambda>p s. patternCompare i other p s"
  have c0: "matchAll i \<noteq> 0" "list_all text_char cs" using c by (auto simp: text_char_def)
  have p: "parse i other (c # cs) = AnySeq # parse i other cs" using c(1) by simp
  note unfold = patternCompare.simps [of i other "ctext (c # cs)" "ctext s", unfolded Utf8Read_ctext(2) [OF c(2)] option.case prod.case]
  from skip_wildcards_ctext [OF c0(1) _ _ _ c0(2) s, of other ?nc] info consider
      "skip_wildcards i (ctext cs) (ctext s) = Some (Inl ())" "\<not> matches ?nc (AnySeq # parse i other cs) s"
    | qs t where "skipped i other ?nc cs s qs t"
    unfolding plain_info_def by blast
  then show ?thesis
  proof cases
    case 1
    then have "?pc (ctext (c # cs)) (ctext s) = Some SQLITE_NOWILDCARDMATCH"
      using c(1) c0(1) by (subst unfold) simp
    then show ?thesis unfolding p using verdict_star_none [OF 1(2)] by simp
  next
    case 2
    note sk = 2 [unfolded skipped_def]
    have "verdict ?nc (?pc (ctext (c # cs)) (ctext s)) (AnySeq # parse i other qs) t"
    proof (cases qs)
      case Nil
      then have "?pc (ctext (c # cs)) (ctext s) = Some SQLITE_MATCH"
        using sk c(1) c0(1) by (subst unfold) simp
      then show ?thesis using Nil matches_star [of ?nc "[]" t] by (auto simp: verdict_def intro: exI [of _ "length t"])
    next
      case (Cons e es)
      have e: "e \<noteq> matchAll i" "e \<noteq> matchOne i" "e \<noteq> 0" "e \<noteq> 0x80" "list_all text_char es" "list_all text_char t"
          "0x80 \<notin> set es" "length es < length cs" "length qs \<le> length cs" "list_all text_char qs" "0x80 \<notin> set qs"
        using sk Cons c(3) by (auto simp: text_char_def)
      have skip: "skip_wildcards i (ctext cs) (ctext s) = Some (Inr (e, ctext es, ctext t))" using sk Cons by simp
      note unf = unfold [unfolded skip option.case sum.case prod.case]
      consider "e = other" "matchSet i = 0" | "e = other" "matchSet i \<noteq> 0" | "e \<noteq> other" by blast
      then show ?thesis
      proof cases
        case 1
        show ?thesis
        proof (cases es)
          case Nil
          then have "?pc (ctext (c # cs)) (ctext s) = Some SQLITE_NOWILDCARDMATCH"
            using c(1) c0(1) 1 e(3) utf8_next_ctext(1) by (subst unf) simp
          moreover have "\<not> matches ?nc (AnySeq # [Bad]) t" by (simp add: matches_star del: matches.simps(2))
          ultimately show ?thesis using verdict_star_none 1 Cons Nil e(1) by simp
        next
          case (Cons d ds)
          note n = utf8_next_ctext(2) [OF e(5) [unfolded Cons]]
          have d: "d \<noteq> 0" "d \<noteq> 0x80" "list_all text_char ds" "0x80 \<notin> set ds" "length ds \<le> length cs"
            using e Cons by (auto simp: text_char_def)
          have "?pc (ctext (c # cs)) (ctext s) = search_from i d (?pc (ctext ds)) (ctext t)"
            using c(1) c0(1) 1 e(3) n d(1) Cons by (subst unf) (simp del: ctext_simps)
          moreover have "parse i other qs = Lit d # parse i other ds" using 1 e(1) Cons \<open>qs = e # es\<close> by simp
          ultimately show ?thesis using search_from_verdict [OF d(2) e(6)] IH [OF d(5,3,4)] by simp
        qed
      next
        case 2
        then have o: "other # ctext es = ctext qs" using info e(10) Cons utf8_bytes_hd(3) [of e]
          by (simp add: plain_info_def text_char_def)
        have "?pc (ctext (c # cs)) (ctext s) = search_set (?pc (ctext qs)) (ctext t)"
          using c(1) c0(1) 2 e(3) o by (subst unf) (simp del: ctext_simps)
        moreover have "\<not> matches ?nc (parse i other qs) []"
          using parse_set_nonempty [OF e(1) 2] Cons by simp
        ultimately show ?thesis
          using search_set_ctext [OF e(6)] scan_verdict [OF _ _ e(6)] IH [OF e(9,10,11)] by simp
      next
        case 3
        then have "?pc (ctext (c # cs)) (ctext s) = search_from i e (?pc (ctext es)) (ctext t)"
          using c(1) c0(1) e(3) by (subst unf) (simp del: ctext_simps)
        moreover have "parse i other qs = Lit e # parse i other es" using 3 e(1,2) Cons by simp
        ultimately show ?thesis using search_from_verdict [OF e(4,6)] IH [of es] e by simp
      qed
    qed
    then show ?thesis unfolding p using verdict_star sk by blast
  qed
qed

lemma verdict_nomatch:
  "it \<noteq> AnySeq \<Longrightarrow> verdict nc (Some SQLITE_NOMATCH) (it # ps) []"
  by (cases it) (simp_all add: verdict_def)

lemma verdict_bad: "verdict nc (Some SQLITE_NOMATCH) [Bad] s"
  by (simp add: verdict_def)

lemma compare_set:
  assumes info: "plain_info i other" and c: "c \<noteq> matchAll i" "c = other" "matchSet i \<noteq> 0" "list_all text_char (c # cs)" "0x80 \<notin> set cs"
    and s: "list_all text_char s"
    and IH: "\<And>ps t. length ps \<le> length cs \<Longrightarrow> list_all text_char ps \<Longrightarrow> 0x80 \<notin> set ps \<Longrightarrow> list_all text_char t \<Longrightarrow>
      verdict (noCase i) (patternCompare i other (ctext ps) (ctext t)) (parse i other ps) t"
  shows "verdict (noCase i) (patternCompare i other (ctext (c # cs)) (ctext s)) (parse i other (c # cs)) s"
proof -
  have c0: "c \<noteq> 0" "list_all text_char cs" using c by (auto simp: text_char_def)
  note m = match_set_ctext [OF c0(2) s, where nc = "noCase i"]
  note unf = patternCompare.simps [of i other "ctext (c # cs)" "ctext s", unfolded Utf8Read_ctext(2) [OF c(4)] option.case prod.case m]
  show ?thesis
  proof (cases "parse_set cs")
    case None
    then have "patternCompare i other (ctext (c # cs)) (ctext s) = Some SQLITE_NOMATCH"
      using c(1-3) c0(1) by (subst unf) (simp del: ctext_simps split: list.split)
    then show ?thesis using None c(1-3) verdict_bad by simp
  next
    case (Some q)
    obtain it r where q: "q = (it, r)" by (cases q)
    note f = parse_set_facts [OF Some [unfolded q]]
    have r: "list_all text_char r" "0x80 \<notin> set r" using f(1) c0(2) c(5) by (auto simp: list_all_iff)
    have p: "parse i other (c # cs) = it # parse i other r" using c(1-3) Some q by simp
    show ?thesis
    proof (cases s)
      case Nil
      then have "patternCompare i other (ctext (c # cs)) (ctext s) = Some SQLITE_NOMATCH"
        using c(1-3) c0(1) by (subst unf) (simp del: ctext_simps)
      then show ?thesis unfolding p using Nil verdict_nomatch [OF f(3)] by simp
    next
      case (Cons d s')
      then have "patternCompare i other (ctext (c # cs)) (ctext s)
          = (if fits_item (noCase i) it d then patternCompare i other (ctext r) (ctext s') else Some SQLITE_NOMATCH)"
        using c(1-3) c0(1) Some q by (subst unf) (simp del: ctext_simps)
      then show ?thesis unfolding p Cons using item_step [OF f(3) IH [of r s']] f(2) r s Cons by simp
    qed
  qed
qed

text \<open>An item that is one character against the next character of the text, as the end of
  the loop compares them.\<close>

lemma same_char_end: "c \<noteq> 0 \<Longrightarrow> c < 0x80 \<Longrightarrow> sqlite3Tolower (int c) \<noteq> sqlite3Tolower (int 0)"
  by (simp add: Tolower_eq)

lemma compare_item:
  assumes it: "it \<noteq> AnySeq" "c \<noteq> 0" and s: "list_all text_char s"
    and fit: "\<And>d. d \<noteq> 0 \<Longrightarrow> same_char nc c d \<or> c = one \<and> \<not> escaped \<longleftrightarrow> fits_item nc it d"
    and rec: "\<And>t. list_all text_char t \<Longrightarrow> verdict nc (f (ctext t)) ps t"
  shows "verdict nc
    (case Utf8Read (ctext s) of
       None \<Rightarrow> None
     | Some (c2, zString2) \<Rightarrow>
         if c = c2 \<or> (nc \<and> sqlite3Tolower (int c) = sqlite3Tolower (int c2) \<and> c < 0x80 \<and> c2 < 0x80)
            \<or> (c = one \<and> \<not> escaped \<and> c2 \<noteq> 0)
         then f zString2 else Some SQLITE_NOMATCH) (it # ps) s"
proof (cases s)
  case Nil
  have no: "\<not> (c = 0 \<or> (nc \<and> sqlite3Tolower (int c) = sqlite3Tolower (int 0) \<and> c < 0x80 \<and> (0 :: nat) < 0x80)
      \<or> (c = one \<and> \<not> escaped \<and> (0 :: nat) \<noteq> 0))"
    using it(2) same_char_end by blast
  show ?thesis unfolding Nil Utf8Read_ctext(1) option.case prod.case if_not_P [OF no]
    by (rule verdict_nomatch [OF it(1)])
next
  case (Cons d s')
  then have d: "d \<noteq> 0" "list_all text_char s'" using s by (auto simp: text_char_def)
  have "(c = d \<or> (nc \<and> sqlite3Tolower (int c) = sqlite3Tolower (int d) \<and> c < 0x80 \<and> d < 0x80)
      \<or> (c = one \<and> \<not> escaped \<and> d \<noteq> 0)) \<longleftrightarrow> fits_item nc it d"
    using fit [OF d(1)] d(1) by (auto simp: same_char_def)
  then show ?thesis using item_step [OF it(1) rec [OF d(2)], of d] Cons Utf8Read_ctext(2) s
    by (simp del: ctext_simps fits_item.simps)
qed

lemma compare_char:
  assumes info: "plain_info i other" and c: "c \<noteq> matchAll i" "\<not> (c = other \<and> matchSet i \<noteq> 0)"
      "list_all text_char (c # cs)" "0x80 \<notin> set cs"
    and s: "list_all text_char s"
    and IH: "\<And>ps t. length ps \<le> length cs \<Longrightarrow> list_all text_char ps \<Longrightarrow> 0x80 \<notin> set ps \<Longrightarrow> list_all text_char t \<Longrightarrow>
      verdict (noCase i) (patternCompare i other (ctext ps) (ctext t)) (parse i other ps) t"
  shows "verdict (noCase i) (patternCompare i other (ctext (c # cs)) (ctext s)) (parse i other (c # cs)) s"
proof -
  have c0: "c \<noteq> 0" "list_all text_char cs" using c by (auto simp: text_char_def)
  note unf = patternCompare.simps [of i other "ctext (c # cs)" "ctext s", unfolded Utf8Read_ctext(2) [OF c(3)] option.case prod.case]
  show ?thesis
  proof (cases "c = other")
    case other: True
    then have set0: "matchSet i = 0" using c(2) by simp
    show ?thesis
    proof (cases cs)
      case Nil
      then have "patternCompare i other (ctext (c # cs)) (ctext s) = Some SQLITE_NOMATCH"
        using c(1) c0(1) other set0 utf8_next_ctext(1) by (subst unf) (simp del: ctext_simps)
      then show ?thesis using Nil c(1) other set0 verdict_bad by simp
    next
      case (Cons d ds)
      have d: "d \<noteq> 0" "list_all text_char ds" "0x80 \<notin> set ds" "length ds \<le> length cs"
        using c(4) c0(2) Cons by (auto simp: text_char_def)
      have fit: "same_char (noCase i) d e \<or> d = matchOne i \<and> \<not> True \<longleftrightarrow> fits_item (noCase i) (Lit d) e" for e
        by simp
      have p: "parse i other (c # cs) = Lit d # parse i other ds" using c(1) other set0 Cons by simp
      show ?thesis unfolding p
        using compare_item [of "Lit d", OF _ d(1) s fit IH [OF d(4,2,3)]]
          utf8_next_ctext(2) [OF c0(2) [unfolded Cons]] c(1) c0(1) other set0 d(1) Cons
        by (subst unf) (simp del: ctext_simps)
    qed
  next
    case False
    define it where "it = (if c = matchOne i then AnyOne else Lit c)"
    have it: "it \<noteq> AnySeq" by (simp add: it_def)
    have fit: "same_char (noCase i) c e \<or> c = matchOne i \<and> \<not> False \<longleftrightarrow> fits_item (noCase i) it e" for e
      by (simp add: it_def)
    have p: "parse i other (c # cs) = it # parse i other cs" using c(1) False by (simp add: it_def)
    show ?thesis unfolding p
      using compare_item [OF it c0(1) s fit IH [OF order_refl c0(2) c(4)]] c(1) c0(1) False
      by (subst unf) (simp del: ctext_simps)
  qed
qed

lemma patternCompare_verdict:
  assumes "plain_info i other"
  shows "list_all text_char p \<Longrightarrow> 0x80 \<notin> set p \<Longrightarrow> list_all text_char s \<Longrightarrow>
    verdict (noCase i) (patternCompare i other (ctext p) (ctext s)) (parse i other p) s"
proof (induction p arbitrary: s rule: measure_induct_rule [of length])
  case (less p)
  show ?case
  proof (cases p)
    case Nil
    have "patternCompare i other (ctext []) (ctext s) = Some (if s = [] then SQLITE_MATCH else SQLITE_NOMATCH)"
    proof (cases s)
      case Nil
      then show ?thesis using Utf8Read_ctext(1) peek_ctext(1) by (subst patternCompare.simps) (simp del: ctext_simps)
    next
      case (Cons d t)
      then show ?thesis using Utf8Read_ctext(1) peek_ctext(2) [of d t] less.prems(3)
        by (subst patternCompare.simps) (simp del: ctext_simps)
    qed
    then show ?thesis using Nil by (simp add: verdict_def)
  next
    case (Cons c cs)
    have IH: "length ps \<le> length cs \<Longrightarrow> list_all text_char ps \<Longrightarrow> 0x80 \<notin> set ps \<Longrightarrow> list_all text_char t \<Longrightarrow>
        verdict (noCase i) (patternCompare i other (ctext ps) (ctext t)) (parse i other ps) t" for ps t
      using less.IH Cons by simp
    have c: "list_all text_char (c # cs)" "0x80 \<notin> set cs" using less.prems Cons by simp_all
    show ?thesis unfolding Cons
      using compare_star [OF assms _ c less.prems(3) IH] compare_set [OF assms _ _ _ c less.prems(3) IH]
        compare_char [OF assms _ _ c less.prems(3) IH] by blast
  qed
qed


subsection \<open>Properties\<close>

text \<open>The information \<open>likeFunc\<close> matches with, given the escape character.\<close>

definition escaped_info :: "compareInfo \<Rightarrow> nat option \<Rightarrow> compareInfo" where
  "escaped_info i e = (if e = Some (matchAll i) then i\<lparr>matchAll := 0\<rparr> else i)"

lemma like_compare_decides:
  assumes "plain_info i other" "list_all text_char p" "0x80 \<notin> set p" "list_all text_char s"
  shows "like_compare i other (Some (ctext p)) (Some (ctext s))
    = Some (Int_Result (if matches (noCase i) (parse i other p) s then 1 else 0))"
proof -
  from patternCompare_verdict [OF assms] obtain r where "patternCompare i other (ctext p) (ctext s) = Some r"
      "r = SQLITE_MATCH \<longleftrightarrow> matches (noCase i) (parse i other p) s"
    unfolding verdict_def match_codes by (auto dest: spec [of _ 0])
  then show ?thesis by (simp add: like_compare_def)
qed

lemma like_escape_ctext:
  assumes "text_char c" "c \<noteq> matchOne i" "matchAll i \<noteq> matchOne i"
  shows "like_escape i (ctext [c]) = (escaped_info i (Some c), c)"
proof -
  have "utf8_next (ctext [c]) = Some (c, ctext [])" using assms(1) by (intro utf8_next_ctext(2)) simp
  then have "fst (sqlite3Utf8Read (ctext [c])) = c" by (simp add: utf8_next_def split: if_splits)
  then show ?thesis using assms(2,3) by (auto simp: like_escape_def escaped_info_def Let_def)
qed

lemma charlen_one: "text_char c \<Longrightarrow> sqlite3Utf8CharLen (ctext [c]) (-1) = 1"
  using character_counts(1) [of "[c]" "[]"] by (simp add: ctext_def text_char_def)

text \<open>C36: The SQL functions \<open>like\<close> and \<open>glob\<close> return 1 exactly when the items
  the pattern stands for match the whole text: any sequence, any one character, a literal
  (for LIKE up to the case of ASCII letters), a character of a set or out of it. This
  covers every pattern and text of valid characters, with or without an escape character,
  the sets and escapes that are not closed, and the skipping of wildcards and the cutting
  short of searches by which the matcher is fast. The pattern has no character U+0080 and
  the escape is not the one that stands for any one character, where the code goes wrong.\<close>

theorem like_decides:
  assumes "i = globInfo \<and> e = None \<or> i = likeInfoNorm \<or> i = likeInfoAlt"
    and "list_all text_char p" and "0x80 \<notin> set p" and "list_all text_char s"
    and "length (ctext p) - 1 \<le> limit" and "\<forall>c. e = Some c \<longrightarrow> text_char c \<and> c \<noteq> matchOne i"
  shows "likeFunc i limit (Some (ctext p)) (Some (ctext s)) (map_option (\<lambda>c. Some (ctext [c])) e)
    = Some (Int_Result (if matches (noCase i) (parse (escaped_info i e) (case e of None \<Rightarrow> matchSet i | Some c \<Rightarrow> c) p) s
        then 1 else 0))"
proof (cases e)
  case None
  then have "plain_info i (matchSet i)" "escaped_info i e = i"
    using assms(1) by (auto simp: plain_info_def escaped_info_def globInfo_def likeInfoNorm_def likeInfoAlt_def)
  then show ?thesis using None assms(5) like_compare_decides [OF _ assms(2-4)]
    by (simp add: likeFunc_def not_less [symmetric] del: ctext_simps)
next
  case (Some c)
  then have c: "text_char c" "c \<noteq> matchOne i" "matchAll i \<noteq> matchOne i" using assms(1,6)
    by (auto simp: globInfo_def likeInfoNorm_def likeInfoAlt_def)
  then have "plain_info (escaped_info i e) c" "noCase (escaped_info i e) = noCase i"
    using assms(1) Some by (auto simp: plain_info_def escaped_info_def likeInfoNorm_def likeInfoAlt_def)
  then show ?thesis using Some assms(5) like_compare_decides [OF _ assms(2-4)] charlen_one [OF c(1)] like_escape_ctext [OF c]
    by (simp add: likeFunc_def not_less [symmetric] del: ctext_simps)
qed

text \<open>\<open>like('%A!%_', 'xa%b', '!')\<close> is 1, and \<open>glob('*[^a-c]', 'zb')\<close> is 0.\<close>

lemma like_decides_witness:
  "likeFunc likeInfoNorm 50 (Some (ctext [0x25, 0x41, 0x21, 0x25, 0x5f])) (Some (ctext [0x78, 0x61, 0x25, 0x62]))
     (Some (Some (ctext [0x21]))) = Some (Int_Result 1)
   \<and> likeFunc globInfo 50 (Some (ctext [0x2a, 0x5b, 0x5e, 0x61, 0x2d, 0x63, 0x5d])) (Some (ctext [0x7a, 0x62])) None
     = Some (Int_Result 0)"
proof -
  have m: "matches True (parse (escaped_info likeInfoNorm (Some 0x21)) 0x21 [0x25, 0x41, 0x21, 0x25, 0x5f]) [0x78, 0x61, 0x25, 0x62]"
    by (simp add: escaped_info_def likeInfoNorm_def matches_star_Cons matches_star_Nil same_char_def Tolower_eq
        del: matches.simps(2))
  have n: "\<not> matches False (parse (escaped_info globInfo None) 0x5b [0x2a, 0x5b, 0x5e, 0x61, 0x2d, 0x63, 0x5d]) [0x7a, 0x62]"
    by (simp add: escaped_info_def globInfo_def matches_star_Cons matches_star_Nil parse_set_def del: matches.simps(2))
  have l: "length (ctext [0x25, 0x41, 0x21, 0x25, 0x5f]) - 1 \<le> 50" "length (ctext [0x2a, 0x5b, 0x5e, 0x61, 0x2d, 0x63, 0x5d]) - 1 \<le> 50"
    by (simp_all add: utf8_bytes_def)
  show ?thesis
    using like_decides [of likeInfoNorm "Some 0x21" "[0x25, 0x41, 0x21, 0x25, 0x5f]" "[0x78, 0x61, 0x25, 0x62]" 50] l m
      like_decides [of globInfo None "[0x2a, 0x5b, 0x5e, 0x61, 0x2d, 0x63, 0x5d]" "[0x7a, 0x62]" 50] n
    by (simp add: text_char_def code_point_def likeInfoNorm_def globInfo_def del: ctext_simps parse.simps matches.simps)
qed

text \<open>Where the code goes wrong. With the escape \<open>_\<close>, \<open>matchOne\<close> is set to 0,
  which the loop over wildcards takes for the end of the pattern: on a text that is not
  empty it goes on reading behind the terminator.\<close>

theorem like_escape_reads_past_end:
  assumes "list_all text_char s" "s \<noteq> []"
  shows "likeFunc likeInfoNorm 50000 (Some (ctext [0x25])) (Some (ctext s)) (Some (Some (ctext [0x5f]))) = None"
proof -
  obtain d t where s: "s = d # t" using assms(2) by (cases s) auto
  have esc: "text_char 0x5f" "text_char 0x25" by (simp_all add: text_char_def code_point_def)
  have "fst (sqlite3Utf8Read (ctext [0x5f])) = 0x5f"
    using utf8_next_ctext(2) [of "0x5f" "[]"] esc by (simp add: utf8_next_def split: if_splits)
  then have e: "like_escape likeInfoNorm (ctext [0x5f]) = (likeInfoNorm\<lparr>matchOne := 0\<rparr>, 0x5f)"
    by (simp add: like_escape_def likeInfoNorm_def)
  have d: "utf8_next (ctext s) = Some (d, ctext t)" "d \<noteq> 0"
    using utf8_next_ctext(2) [of d t] assms(1) s by (auto simp: text_char_def)
  have "skip_wildcards (likeInfoNorm\<lparr>matchOne := 0\<rparr>) [] (ctext t) = None"
    by (subst skip_wildcards.simps) (simp add: Utf8Read_def)
  then have "skip_wildcards (likeInfoNorm\<lparr>matchOne := 0\<rparr>) (ctext []) (ctext s) = None"
    using d Utf8Read_ctext(1) by (subst skip_wildcards.simps) (simp del: ctext_simps)
  then have "patternCompare (likeInfoNorm\<lparr>matchOne := 0\<rparr>) 0x5f (ctext [0x25]) (ctext s) = None"
    using Utf8Read_ctext(2) [of "0x25" "[]"] esc
    by (subst patternCompare.simps) (simp add: likeInfoNorm_def del: ctext_simps)
  then show ?thesis using e charlen_one [OF esc(1)]
    by (simp add: likeFunc_def like_compare_def utf8_bytes_def)
qed

text \<open>The search for U+0080 looks for the byte 0x80, which also ends other characters:
  the pattern of a star and U+0080 matches U+00C0.\<close>

theorem glob_matches_wrong_character:
  "sqlite3_strglob (ctext [0x2a, 0x80]) (ctext [0xC0]) = Some SQLITE_MATCH
   \<and> \<not> matches False (parse globInfo 0x5b [0x2a, 0x80]) [0xC0]"
proof
  have e: "ctext [0x2a, 0x80] = [0x2a, 0xC2, 0x80, 0]" "ctext [0xC0] = [0xC3, 0x80, 0]"
    by (simp_all add: utf8_bytes_def)
  have r: "Utf8Read [0x2a, 0xC2, 0x80, 0] = Some (0x2a, [0xC2, 0x80, 0])" by (simp add: Utf8Read_def)
  have "utf8_next [0xC2, 0x80, 0] = Some (0x80, [0])"
    using utf8_next_ctext(2) [of "0x80" "[]"] by (simp add: text_char_def code_point_def utf8_bytes_def)
  then have "skip_wildcards globInfo [0xC2, 0x80, 0] [0xC3, 0x80, 0] = Some (Inr (0x80, [0], [0xC3, 0x80, 0]))"
    by (subst skip_wildcards.simps) (simp add: Utf8Read_def globInfo_def)
  then have "patternCompare globInfo 0x5b [0x2a, 0xC2, 0x80, 0] [0xC3, 0x80, 0]
      = search_from globInfo 0x80 (patternCompare globInfo 0x5b [0]) [0xC3, 0x80, 0]"
    by (subst patternCompare.simps) (simp add: r globInfo_def)
  moreover have "patternCompare globInfo 0x5b [0] [0] = Some SQLITE_MATCH"
    by (subst patternCompare.simps) (simp add: Utf8Read_def peek_def)
  ultimately show "sqlite3_strglob (ctext [0x2a, 0x80]) (ctext [0xC0]) = Some SQLITE_MATCH"
    unfolding e sqlite3_strglob_def by (simp add: search_from_def globInfo_def SQLITE_MATCH_def SQLITE_NOMATCH_def)
  show "\<not> matches False (parse globInfo 0x5b [0x2a, 0x80]) [0xC0]"
    by (simp add: globInfo_def matches_star_Cons matches_star_Nil same_char_def del: matches.simps(2))
qed

end
