(* ===== verification/Sq_Double.thy ===== *)
theory Sq_Double
  imports Binary32
begin

text \<open>
  The C types \<^verbatim>\<open>double\<close> and \<^verbatim>\<open>long double\<close> of \<^verbatim>\<open>src/sqlite3.c\<close> on the
  x86-64 platforms: binary64 and the 80-bit extended format, round to nearest, ties to even.
  The values are those of \<open>Binary32\<close>; the operations here take the rounding as an argument,
  so that each is written once for both formats. A conversion to an integer type truncates;
  outside the range of the type C leaves it undefined and the model takes the smallest
  integer, as the processor does.
\<close>

subsection \<open>Rounding to a precision\<close>

definition ulp_of :: "nat \<Rightarrow> int \<Rightarrow> rat \<Rightarrow> rat" where
  "ulp_of p emin x = 2 powi (max (ilog2 x) emin - (int p - 1))"

definition round_to :: "nat \<Rightarrow> int \<Rightarrow> nat \<Rightarrow> rat \<Rightarrow> fp" where
  "round_to p emin emax x =
     (if x = 0 then Fin 0
      else let u = ulp_of p emin \<bar>x\<bar>; r = of_int (round_half_even (\<bar>x\<bar> / u)) * u
           in if 0 < r \<and> int emax \<le> ilog2 r then signed_inf (x < 0)
              else if r = 0 then signed_zero (x < 0)
              else Fin (if x < 0 then - r else r))"

definition round64 :: "rat \<Rightarrow> fp" where
  "round64 = round_to 53 (- 1022) 1024"

definition round80 :: "rat \<Rightarrow> fp" where
  "round80 = round_to 64 (- 16382) 16384"

text \<open>A conversion to \<^verbatim>\<open>double\<close>.\<close>

fun to_double :: "fp \<Rightarrow> fp" where
  "to_double (Fin x) = round64 x"
| "to_double a = a"

subsection \<open>Operations\<close>

fun negate :: "fp \<Rightarrow> fp" where
  "negate NaN = NaN"
| "negate PInf = NInf"
| "negate NInf = PInf"
| "negate NZero = Fin 0"
| "negate (Fin x) = (if x = 0 then NZero else Fin (- x))"

definition add_with :: "(rat \<Rightarrow> fp) \<Rightarrow> fp \<Rightarrow> fp \<Rightarrow> fp" where
  "add_with rnd a b =
     (if a = NaN \<or> b = NaN then NaN
      else if is_inf a then (if is_inf b \<and> a \<noteq> b then NaN else a)
      else if is_inf b then b
      else if a = NZero \<and> b = NZero then NZero
      else rnd (fp_rat a + fp_rat b))"

definition mul_with :: "(rat \<Rightarrow> fp) \<Rightarrow> fp \<Rightarrow> fp \<Rightarrow> fp" where
  "mul_with rnd a b =
     (let n = (fp_neg a \<noteq> fp_neg b)
      in if a = NaN \<or> b = NaN then NaN
         else if is_inf a \<or> is_inf b then
           (if fp_is_zero a \<or> fp_is_zero b then NaN else signed_inf n)
         else if fp_is_zero a \<or> fp_is_zero b then signed_zero n
         else rnd (fp_rat a * fp_rat b))"

definition div_with :: "(rat \<Rightarrow> fp) \<Rightarrow> fp \<Rightarrow> fp \<Rightarrow> fp" where
  "div_with rnd a b =
     (let n = (fp_neg a \<noteq> fp_neg b)
      in if a = NaN \<or> b = NaN then NaN
         else if is_inf a then (if is_inf b then NaN else signed_inf n)
         else if is_inf b then signed_zero n
         else if fp_is_zero b then (if fp_is_zero a then NaN else signed_inf n)
         else if fp_is_zero a then signed_zero n
         else rnd (fp_rat a / fp_rat b))"

definition dbl_add :: "fp \<Rightarrow> fp \<Rightarrow> fp" where "dbl_add = add_with round64"
definition dbl_sub :: "fp \<Rightarrow> fp \<Rightarrow> fp" where "dbl_sub a b = add_with round64 a (negate b)"
definition dbl_mul :: "fp \<Rightarrow> fp \<Rightarrow> fp" where "dbl_mul = mul_with round64"
definition dbl_div :: "fp \<Rightarrow> fp \<Rightarrow> fp" where "dbl_div = div_with round64"

text \<open>An integer as a \<^verbatim>\<open>double\<close>, and the conversions back.\<close>

definition dbl_int :: "int \<Rightarrow> fp" where
  "dbl_int n = round64 (of_int n)"

definition truncate :: "rat \<Rightarrow> int" where
  "truncate x = (if x < 0 then - \<lfloor>- x\<rfloor> else \<lfloor>x\<rfloor>)"

definition int_with :: "nat \<Rightarrow> fp \<Rightarrow> int" where
  "int_with w a =
     (case a of
        Fin x \<Rightarrow> (let n = truncate x
                  in if - (2 ^ (w - 1)) \<le> n \<and> n < 2 ^ (w - 1) then n else - (2 ^ (w - 1)))
      | NZero \<Rightarrow> 0
      | _ \<Rightarrow> - (2 ^ (w - 1)))"

definition c_int :: "fp \<Rightarrow> int" where "c_int = int_with 32"
definition c_i64 :: "fp \<Rightarrow> int" where "c_i64 = int_with 64"

subsection \<open>The exponent of a rational\<close>

lemma bit_length_bounds: "0 < n \<Longrightarrow> \<exists>b. bit_length n = int b + 1 \<and> 2 ^ b \<le> n \<and> n < 2 * 2 ^ b"
proof (induction n rule: bit_length.induct)
  case (1 n)
  show ?case
  proof (cases "n = 1")
    case True
    then show ?thesis by (intro exI [of _ 0]) (simp add: bit_length.simps)
  next
    case False
    with 1(2) have "\<not> n \<le> 0" "0 < n div 2" by linarith+
    with 1(1) obtain b where b: "bit_length (n div 2) = int b + 1" "2 ^ b \<le> n div 2" "n div 2 < 2 * 2 ^ b"
      by blast
    have "bit_length n = int (Suc b) + 1" using 1(2) b(1) by (subst bit_length.simps) simp
    moreover have "2 ^ Suc b \<le> n" "n < 2 * 2 ^ Suc b" using b(2,3) unfolding power_Suc by linarith+
    ultimately show ?thesis by blast
  qed
qed

lemma powi_of_nat_diff: "(2::rat) powi (int a - int b) = 2 ^ a / 2 ^ b"
  by (simp add: power_int_diff)

lemma ilog2_bounds:
  assumes "0 < x"
  shows "2 powi ilog2 x \<le> x" "x < 2 powi (ilog2 x + 1)"
proof -
  obtain p q where pq: "quotient_of x = (p, q)" by force
  then have q: "0 < q" by (rule quotient_of_denom_pos)
  have x: "x = of_int p / of_int q" using pq by (rule quotient_of_div)
  with assms q have p: "0 < p" by (simp add: zero_less_divide_iff)
  obtain a where la: "bit_length p = int a + 1" "2 ^ a \<le> p" "p < 2 * 2 ^ a"
    using bit_length_bounds [OF p] by blast
  obtain b where lb: "bit_length q = int b + 1" "2 ^ b \<le> q" "q < 2 * 2 ^ b"
    using bit_length_bounds [OF q] by blast
  define k where "k = int a - int b"
  have k: "bit_length p - bit_length q = k" using la lb by (simp add: k_def)
  have ra: "(2::rat) ^ a \<le> of_int p" "(of_int p :: rat) < 2 * 2 ^ a"
    using of_int_le_iff [where ?'a = rat, THEN iffD2, OF la(2)] of_int_less_iff [where ?'a = rat, THEN iffD2, OF la(3)]
    by simp_all
  have rb: "(2::rat) ^ b \<le> of_int q" "(of_int q :: rat) < 2 * 2 ^ b"
    using of_int_le_iff [where ?'a = rat, THEN iffD2, OF lb(2)] of_int_less_iff [where ?'a = rat, THEN iffD2, OF lb(3)]
    by simp_all
  have pk: "(2::rat) powi k = 2 ^ a / 2 ^ b" by (simp add: k_def powi_of_nat_diff)
  have up: "x < 2 powi (k + 1)"
  proof -
    have "x < (2 * 2 ^ a) / 2 ^ b"
      unfolding x using ra(2) rb(1) by (intro frac_less) (use p in auto)
    then show ?thesis using pk by (simp add: power_int_add mult.commute)
  qed
  have lo: "2 powi (k - 1) \<le> x"
  proof -
    have "2 ^ a / (2 * 2 ^ b) \<le> x"
      unfolding x using ra(1) rb(2) q p by (intro frac_le) auto
    then show ?thesis using pk by (simp add: power_int_diff)
  qed
  have i: "ilog2 x = (if 2 powi k \<le> x then k else k - 1)"
    unfolding ilog2_def pq by (simp add: k Let_def)
  show "2 powi ilog2 x \<le> x" "x < 2 powi (ilog2 x + 1)"
    using up lo by (auto simp: i)
qed

lemma ilog2_less:
  assumes "0 < x" "x < 2 powi k"
  shows "ilog2 x < k"
proof -
  have "2 powi ilog2 x < (2 powi k :: rat)" using ilog2_bounds(1) [OF assms(1)] assms(2) by simp
  moreover have "(2 :: rat) powi k \<le> 2 powi ilog2 x" if "k \<le> ilog2 x"
    using that by (rule power_int_increasing) simp
  ultimately show ?thesis by force
qed

subsection \<open>Rounding laws\<close>

definition finite_fp :: "fp \<Rightarrow> bool" where
  "finite_fp a \<longleftrightarrow> a \<noteq> NaN \<and> \<not> is_inf a"

lemma finite_fp_simps [simp]: "finite_fp (Fin x)" "finite_fp NZero" "finite_fp (signed_zero n)"
  "fp_rat (signed_zero n) = 0" "\<not> finite_fp (signed_inf n)" "\<not> finite_fp NaN" "\<not> finite_fp PInf" "\<not> finite_fp NInf"
  by (simp_all add: finite_fp_def signed_zero_def signed_inf_def)

lemma round_half_even_error: "\<bar>of_int (round_half_even x) - x\<bar> \<le> 1 / 2"
proof -
  have "of_int \<lfloor>x\<rfloor> \<le> x" "x < of_int \<lfloor>x\<rfloor> + 1" by linarith+
  then show ?thesis unfolding round_half_even_def Let_def by (auto simp: abs_if) linarith
qed

lemma ulp_of_pos [simp]: "0 < ulp_of p emin x"
  by (simp add: ulp_of_def)

lemma ulp_of_le:
  assumes "0 < x" "x < 2 powi k" "emin < k"
  shows "ulp_of p emin x \<le> 2 powi (k - int p)"
proof -
  have "max (ilog2 x) emin \<le> k - 1" using ilog2_less [OF assms(1,2)] assms(3) by simp
  then show ?thesis unfolding ulp_of_def by (intro power_int_increasing) auto
qed

text \<open>The error of a rounding is half a unit in the last place.\<close>

lemma round_to_error:
  assumes "\<bar>x\<bar> < 2 powi k" "emin < k" "k < int emax" "0 < p"
  shows "finite_fp (round_to p emin emax x) \<and>
    \<bar>fp_rat (round_to p emin emax x) - x\<bar> \<le> 2 powi (k - int p) / 2"
proof (cases "x = 0")
  case True
  then show ?thesis by (simp add: round_to_def)
next
  case False
  define u where "u = ulp_of p emin \<bar>x\<bar>"
  define r where "r = of_int (round_half_even (\<bar>x\<bar> / u)) * u"
  have u: "0 < u" by (simp add: u_def)
  have le: "u \<le> 2 powi (k - int p)" unfolding u_def using False assms by (intro ulp_of_le) auto
  have "r - \<bar>x\<bar> = (of_int (round_half_even (\<bar>x\<bar> / u)) - \<bar>x\<bar> / u) * u"
    using u by (simp add: r_def algebra_simps)
  then have "\<bar>r - \<bar>x\<bar>\<bar> = \<bar>of_int (round_half_even (\<bar>x\<bar> / u)) - \<bar>x\<bar> / u\<bar> * u"
    using u by (simp add: abs_mult)
  also have "\<dots> \<le> 1 / 2 * u" using round_half_even_error u by (intro mult_right_mono) auto
  finally have err: "\<bar>r - \<bar>x\<bar>\<bar> \<le> u / 2" by simp
  have "2 powi (k - int p) \<le> (2 powi k :: rat)" by (rule power_int_increasing) auto
  then have "r < 2 * 2 powi k" using err le assms(1) u by linarith
  also have "\<dots> = 2 powi (k + 1)" by (simp add: power_int_add)
  also have "\<dots> \<le> 2 powi int emax" using assms(3) by (intro power_int_increasing) auto
  finally have lt: "\<not> (0 < r \<and> int emax \<le> ilog2 r)" using ilog2_less [of r "int emax"] by force
  have eq: "round_to p emin emax x = (if r = 0 then signed_zero (x < 0) else Fin (if x < 0 then - r else r))"
    using False lt unfolding round_to_def Let_def u_def [symmetric] r_def [symmetric] by auto
  have "fp_rat (round_to p emin emax x) = (if x < 0 then - r else r)" unfolding eq by auto
  moreover have "finite_fp (round_to p emin emax x)" unfolding eq by auto
  ultimately show ?thesis using err le by (auto simp: abs_if split: if_splits)
qed

text \<open>A multiple of a power of two with fewer than \<open>p\<close> bits is not changed.\<close>

lemma round_to_exact:
  assumes "x = of_int n * 2 powi e" "\<bar>n\<bar> < 2 ^ p" "emin - (int p - 1) \<le> e" "\<bar>x\<bar> < 2 ^ emax"
  shows "round_to p emin emax x = Fin x"
proof (cases "x = 0")
  case False
  define j where "j = max (ilog2 \<bar>x\<bar>) emin - (int p - 1)"
  have u: "ulp_of p emin \<bar>x\<bar> = 2 powi j" by (simp add: ulp_of_def j_def)
  have "\<bar>x\<bar> < 2 powi (int p + e)"
  proof -
    have "\<bar>x\<bar> = of_int \<bar>n\<bar> * 2 powi e" using assms(1) by (simp add: abs_mult)
    also have "\<dots> < 2 ^ p * 2 powi e"
      using of_int_less_iff [where ?'a = rat, THEN iffD2, OF assms(2)] by (intro mult_strict_right_mono) auto
    finally show ?thesis by (simp add: power_int_add)
  qed
  then have "ilog2 \<bar>x\<bar> < int p + e" using False by (intro ilog2_less) auto
  then have j: "j \<le> e" using assms(3) unfolding j_def by linarith
  then obtain d where d: "e = j + int d" by (metis zle_iff_zadd)
  have "\<bar>x\<bar> / 2 powi j = of_int (\<bar>n\<bar> * 2 ^ d)"
    using assms(1) by (simp add: abs_mult d power_int_add)
  then have "round_half_even (\<bar>x\<bar> / 2 powi j) = \<bar>n\<bar> * 2 ^ d" by (metis round_half_even_of_int)
  then have "of_int (round_half_even (\<bar>x\<bar> / 2 powi j)) * 2 powi j = \<bar>x\<bar>"
    using assms(1) by (simp add: abs_mult d power_int_add)
  moreover have "ilog2 \<bar>x\<bar> < int emax" using False assms(4) by (intro ilog2_less) auto
  ultimately show ?thesis using False by (auto simp: round_to_def u Let_def)
qed (simp add: round_to_def)

text \<open>The two formats.\<close>

lemma round64_error:
  "\<bar>x\<bar> < 2 powi k \<Longrightarrow> - 1022 < k \<Longrightarrow> k < 1024 \<Longrightarrow>
    finite_fp (round64 x) \<and> \<bar>fp_rat (round64 x) - x\<bar> \<le> 2 powi (k - 53) / 2"
  using round_to_error [of x k "- 1022" 1024 53] by (simp add: round64_def)

lemma round64_exact:
  assumes "x = of_int n * 2 powi e" "\<bar>n\<bar> < 2 ^ 53" "- 1074 \<le> e" "\<bar>x\<bar> < 2 ^ 1024"
  shows "round64 x = Fin x"
  unfolding round64_def
  by (rule round_to_exact [OF assms(1,2) _ assms(4)]) (use assms(3) in simp)

lemma round80_exact:
  assumes "x = of_int n * 2 powi e" "\<bar>n\<bar> < 2 ^ 64" "- 16445 \<le> e" "\<bar>x\<bar> < 2 ^ 16384"
  shows "round80 x = Fin x"
  unfolding round80_def
  by (rule round_to_exact [OF assms(1,2) _ assms(4)]) (use assms(3) in simp)

lemma small_int_power:
  assumes "\<bar>n\<bar> < 2 ^ p" "p \<le> q"
  shows "\<bar>of_int n :: rat\<bar> < 2 ^ q"
proof -
  have "\<bar>of_int n :: rat\<bar> < 2 ^ p" using of_int_less_iff [where ?'a = rat, THEN iffD2, OF assms(1)] by simp
  also have "(2 :: rat) ^ p \<le> 2 ^ q" using assms(2) by (rule power_increasing) simp
  finally show ?thesis .
qed

lemma round64_int [simp]: "\<bar>n\<bar> < 2 ^ 53 \<Longrightarrow> round64 (of_int n) = Fin (of_int n)"
  using small_int_power [of n 53 1024] by (intro round64_exact [where n = n and e = 0]) simp_all

lemma round80_int [simp]: "\<bar>n\<bar> < 2 ^ 64 \<Longrightarrow> round80 (of_int n) = Fin (of_int n)"
proof (rule round80_exact [where n = n and e = 0])
  assume "\<bar>n\<bar> < 2 ^ 64"
  then show "\<bar>of_int n :: rat\<bar> < 2 ^ 16384" by (rule small_int_power) arith
qed simp_all

lemma round64_0 [simp]: "round64 0 = Fin 0"
  by (simp add: round64_def round_to_def)

lemma dbl_int_exact: "\<bar>n\<bar> < 2 ^ 53 \<Longrightarrow> dbl_int n = Fin (of_int n)"
  by (simp add: dbl_int_def)

subsection \<open>Operations on finite values\<close>

lemma negate_finite [simp]: "finite_fp (negate a) = finite_fp a" "fp_rat (negate a) = - fp_rat a"
  by (cases a; simp)+

lemma fp_is_zero_rat: "finite_fp a \<Longrightarrow> fp_is_zero a \<longleftrightarrow> fp_rat a = 0"
  by (cases a) auto

lemma dbl_add_finite:
  assumes "finite_fp a" "finite_fp b" "finite_fp (round64 (fp_rat a + fp_rat b))"
  shows "finite_fp (dbl_add a b)" "fp_rat (dbl_add a b) = fp_rat (round64 (fp_rat a + fp_rat b))"
  using assms by (auto simp: dbl_add_def add_with_def finite_fp_def)

lemma dbl_sub_finite:
  assumes "finite_fp a" "finite_fp b" "finite_fp (round64 (fp_rat a - fp_rat b))"
  shows "finite_fp (dbl_sub a b)" "fp_rat (dbl_sub a b) = fp_rat (round64 (fp_rat a - fp_rat b))"
  using assms dbl_add_finite [of a "negate b"] by (simp_all add: dbl_sub_def dbl_add_def)

lemma dbl_mul_finite:
  assumes "finite_fp a" "finite_fp b" "finite_fp (round64 (fp_rat a * fp_rat b))"
  shows "finite_fp (dbl_mul a b)" "fp_rat (dbl_mul a b) = fp_rat (round64 (fp_rat a * fp_rat b))"
  using assms by (auto simp: dbl_mul_def mul_with_def Let_def fp_is_zero_rat) (auto simp: finite_fp_def)

lemma dbl_div_finite:
  assumes "finite_fp a" "finite_fp b" "fp_rat b \<noteq> 0" "finite_fp (round64 (fp_rat a / fp_rat b))"
  shows "finite_fp (dbl_div a b)" "fp_rat (dbl_div a b) = fp_rat (round64 (fp_rat a / fp_rat b))"
  using assms by (auto simp: dbl_div_def div_with_def Let_def fp_is_zero_rat) (auto simp: finite_fp_def)

lemma int_with_finite: "finite_fp a \<Longrightarrow> int_with w a =
    (let n = truncate (fp_rat a) in if - (2 ^ (w - 1)) \<le> n \<and> n < 2 ^ (w - 1) then n else - (2 ^ (w - 1)))"
  by (cases a) (auto simp: int_with_def truncate_def)

text \<open>A result that is close to a rational below the next integer truncates to its floor.\<close>

lemma truncate_near:
  assumes "of_int n \<le> x - e" "x + e < of_int n + 1" "\<bar>r - x\<bar> \<le> e" "0 \<le> n"
  shows "truncate r = n"
proof -
  have "of_int n \<le> r" "r < of_int n + 1" using assms by (auto simp: abs_le_iff)
  moreover then have "0 \<le> r" using assms(4) by (metis of_int_0_le_iff order_trans)
  ultimately show ?thesis by (simp add: truncate_def floor_eq_iff)
qed

lemma truncate_of_int [simp]: "truncate (of_int n) = n"
  by (simp add: truncate_def)

subsection \<open>Relative error\<close>

text \<open>Above the subnormal range a rounding loses at most the last bit.\<close>

lemma round_to_lower:
  assumes "2 powi emin \<le> x" "1 \<le> p"
  shows "round_to p emin emax x = PInf \<or>
    (\<exists>r. round_to p emin emax x = Fin r \<and> x * (1 - 1 / 2 ^ p) \<le> r)"
proof -
  have "0 < (2 :: rat) powi emin" by simp
  with assms(1) have x: "0 < x" by linarith
  have le: "emin \<le> ilog2 x"
  proof (rule ccontr)
    assume "\<not> emin \<le> ilog2 x"
    then have "2 powi (ilog2 x + 1) \<le> (2 powi emin :: rat)" by (intro power_int_increasing) auto
    with ilog2_bounds(2) [OF x] assms(1) show False by linarith
  qed
  define u where "u = ulp_of p emin \<bar>x\<bar>"
  define r where "r = of_int (round_half_even (\<bar>x\<bar> / u)) * u"
  have u: "0 < u" by (simp add: u_def)
  have "u = 2 powi ilog2 x / 2 ^ (p - 1)"
    using x le assms(2) by (cases p) (simp_all add: u_def ulp_of_def power_int_diff max_def)
  also have "\<dots> \<le> x / 2 ^ (p - 1)" using ilog2_bounds(1) [OF x] by (intro divide_right_mono) auto
  also have "\<dots> = x * (2 / 2 ^ p)" using assms(2) by (cases p) auto
  finally have ule: "u / 2 \<le> x * (1 / 2 ^ p)" by simp
  have "x - r = (x / u - of_int (round_half_even (x / u))) * u"
    using u x by (simp add: r_def algebra_simps)
  also have "\<dots> \<le> 1 / 2 * u"
  proof (rule mult_right_mono)
    show "x / u - of_int (round_half_even (x / u)) \<le> 1 / 2" using round_half_even_error [of "x / u"] by linarith
  qed (use u in simp)
  finally have "x - r \<le> x * (1 / 2 ^ p)" using ule by linarith
  then have r: "x * (1 - 1 / 2 ^ p) \<le> r" by (simp add: right_diff_distrib)
  moreover have "0 < x * (1 - 1 / 2 ^ p)" using x assms(2) by (intro mult_pos_pos) (auto simp: field_simps one_less_power)
  ultimately have "0 < r" by linarith
  then have "round_to p emin emax x = (if int emax \<le> ilog2 r then PInf else Fin r)"
    using x unfolding round_to_def Let_def u_def [symmetric] r_def [symmetric] by (auto simp: signed_inf_def)
  with r show ?thesis by auto
qed

lemma round80_lower:
  "2 powi (- 16382) \<le> x \<Longrightarrow> round80 x = PInf \<or> (\<exists>r. round80 x = Fin r \<and> x * (1 - 1 / 2 ^ 64) \<le> r)"
  unfolding round80_def by (rule round_to_lower) simp_all

text \<open>A positive value is at least the smallest subnormal number.\<close>

lemma round64_smallest:
  assumes "round64 x = Fin r" "0 < r"
  shows "2 powi (- 1074) \<le> r"
proof -
  have x: "x \<noteq> 0" using assms by auto
  define u where "u = ulp_of 53 (- 1022) \<bar>x\<bar>"
  define k where "k = round_half_even (\<bar>x\<bar> / u)"
  have u: "2 powi (- 1074) \<le> u" unfolding u_def ulp_of_def by (intro power_int_increasing) simp_all
  have "0 < (2 :: rat) powi (- 1074)" by simp
  with u have u0: "0 < u" by linarith
  have k: "0 \<le> k" unfolding k_def using u0 by (intro round_half_even_nonneg) simp
  have "r = of_int k * u \<or> r = - (of_int k * u)"
    using assms x unfolding round64_def round_to_def Let_def u_def [symmetric] k_def [symmetric]
    by (auto simp: signed_inf_def signed_zero_def split: if_splits)
  moreover have "0 \<le> of_int k * u" using k u0 by simp
  ultimately have r: "r = of_int k * u" using assms(2) by linarith
  with assms(2) k have "1 \<le> k" by (cases "k = 0") auto
  then have "(1 :: rat) \<le> of_int k" by simp
  then have "1 * u \<le> of_int k * u" using u0 by (intro mult_right_mono) auto
  with u r show ?thesis by linarith
qed

end
