(* ===== verification/Sq_AtoF.thy ===== *)
theory Sq_AtoF
  imports Sq_Atoi Sq_Double
begin

text \<open>
  Text to floating point, from the utilities of \<^verbatim>\<open>src/sqlite3.c\<close>: \<open>sqlite3AtoF\<close>
  for UTF-8 and both UTF-16 encodings, with \<open>sqlite3Pow10\<close> in \<^verbatim>\<open>long double\<close>.
  The significand stays below 2^63 and the exponent below 100000, so that the integer
  arithmetic is exact. Pointers are offsets, as in \<open>Sq_Atoi\<close>.
\<close>

subsection \<open>Powers of ten\<close>

function pow10_loop :: "nat \<Rightarrow> fp \<Rightarrow> fp \<Rightarrow> fp" where
  "pow10_loop E x r =
     (let r = (if odd E then mul_with round80 r x else r);
          E = E div 2
      in if E = 0 then r else pow10_loop E (mul_with round80 x x) r)"
  by pat_completeness auto
termination by (relation "measure (\<lambda>(E, x, r). E)") auto

declare pow10_loop.simps [simp del]

definition sqlite3Pow10 :: "nat \<Rightarrow> fp" where
  "sqlite3Pow10 E = pow10_loop E (Fin 10) (Fin 1)"

subsection \<open>Scanning\<close>

text \<open>Digits that no longer count are skipped, \<open>d\<close> counting them.\<close>

function skip_digits :: "string \<Rightarrow> bool \<Rightarrow> nat \<Rightarrow> nat \<Rightarrow> int \<Rightarrow> nat \<times> int" where
  "skip_digits z w e p d =
     (if p < e \<and> sqlite3Isdigit (ch z p) then skip_digits z w e (p + step w) (d + 1) else (p, d))"
  by pat_completeness auto
termination by (relation "measure (\<lambda>(z, w, e, p, d). e - p)") (auto intro: diff_less_mono2)

declare skip_digits.simps [simp del]

lemma skip_digits_ge: "p \<le> fst (skip_digits z w e p d)"
proof (induction z w e p d rule: skip_digits.induct)
  case (1 z w e p d)
  show ?case
  proof (cases "p < e \<and> sqlite3Isdigit (ch z p)")
    case True
    with 1 have "p + step w \<le> fst (skip_digits z w e (p + step w) (d + 1))" by blast
    with True show ?thesis by (subst skip_digits.simps) simp
  qed (subst skip_digits.simps, auto)
qed

text \<open>The digits before the point: position, significand, digits used, exponent.\<close>

function significand :: "string \<Rightarrow> bool \<Rightarrow> nat \<Rightarrow> nat \<Rightarrow> int \<Rightarrow> nat \<Rightarrow> int \<Rightarrow> nat \<times> int \<times> nat \<times> int" where
  "significand z w e p s nDigit d =
     (if p < e \<and> sqlite3Isdigit (ch z p)
      then let s = s * 10 + (ch z p - of_char (CHR ''0''))
           in if s \<ge> (LARGEST_INT64 - 9) div 10
              then (case skip_digits z w e (p + step w) d of (p', d) \<Rightarrow> significand z w e p' s (nDigit + 1) d)
              else significand z w e (p + step w) s (nDigit + 1) d
      else (p, s, nDigit, d))"
  by pat_completeness auto
termination
proof (relation "measure (\<lambda>(z, w, e, p, s, nDigit, d). e - p)", goal_cases)
  case (2 z w e p s nDigit d s' p' d')
  from 2(4) have "p + step w \<le> p'" using skip_digits_ge [of "p + step w" z w e d] by (metis fst_conv)
  then have "p < p'" using step_pos [of w] by linarith
  with 2(1) show ?case by auto
next
  case (3 z w e p s nDigit d s')
  then show ?case using step_pos [of w] by (auto intro: diff_less_mono2 simp del: step_pos)
qed simp

text \<open>The digits behind the point.\<close>

function fraction :: "string \<Rightarrow> bool \<Rightarrow> nat \<Rightarrow> nat \<Rightarrow> int \<Rightarrow> nat \<Rightarrow> int \<Rightarrow> nat \<times> int \<times> nat \<times> int" where
  "fraction z w e p s nDigit d =
     (if p < e \<and> sqlite3Isdigit (ch z p)
      then if s < (LARGEST_INT64 - 9) div 10
           then fraction z w e (p + step w) (s * 10 + (ch z p - of_char (CHR ''0''))) (nDigit + 1) (d - 1)
           else fraction z w e (p + step w) s nDigit d
      else (p, s, nDigit, d))"
  by pat_completeness auto
termination by (relation "measure (\<lambda>(z, w, e, p, s, nDigit, d). e - p)") (auto intro: diff_less_mono2)

function exponent :: "string \<Rightarrow> bool \<Rightarrow> nat \<Rightarrow> nat \<Rightarrow> int \<Rightarrow> bool \<Rightarrow> nat \<times> int \<times> bool" where
  "exponent z w e p ex eValid =
     (if p < e \<and> sqlite3Isdigit (ch z p)
      then exponent z w e (p + step w)
             (if ex < 10000 then ex * 10 + (ch z p - of_char (CHR ''0'')) else 10000) True
      else (p, ex, eValid))"
  by pat_completeness auto
termination by (relation "measure (\<lambda>(z, w, e, p, ex, eValid). e - p)") (auto intro: diff_less_mono2)

declare significand.simps [simp del] fraction.simps [simp del] exponent.simps [simp del]

text \<open>The scan of the text after the leading spaces, up to \<open>do_atof_calc\<close>.\<close>

record scanned =
  sc_sign :: int
  sc_s :: int
  sc_d :: int
  sc_esign :: int
  sc_e :: int
  sc_eValid :: bool
  sc_nDigit :: nat
  sc_eType :: int
  sc_z :: nat

definition atof_exponent :: "string \<Rightarrow> bool \<Rightarrow> nat \<Rightarrow> scanned \<Rightarrow> scanned" where
  "atof_exponent z w e r =
     (let p = sc_z r in
      if ch z p = of_char (CHR ''e'') \<or> ch z p = of_char (CHR ''E'') then
        let p = p + step w; r = r\<lparr>sc_z := p, sc_eValid := False, sc_eType := sc_eType r + 1\<rparr> in
        if p \<ge> e then r
        else
        let esign = (if ch z p = of_char (CHR ''-'') then - 1 else sc_esign r);
            p = (if ch z p = of_char (CHR ''-'') \<or> ch z p = of_char (CHR ''+'') then p + step w else p);
            (p, ex, eValid) = exponent z w e p 0 False
        in r\<lparr>sc_esign := esign, sc_e := ex, sc_eValid := eValid, sc_z := skip_while sqlite3Isspace z w e p\<rparr>
      else r\<lparr>sc_z := skip_while sqlite3Isspace z w e p\<rparr>)"

definition atof_scan :: "string \<Rightarrow> bool \<Rightarrow> nat \<Rightarrow> nat \<Rightarrow> int \<Rightarrow> scanned" where
  "atof_scan z w e p eType =
     (let sign = (if ch z p = of_char (CHR ''-'') then - 1 else 1);
          p = (if ch z p = of_char (CHR ''-'') \<or> ch z p = of_char (CHR ''+'') then p + step w else p);
          (p, s, nDigit, d) = significand z w e p 0 0 0;
          r = \<lparr>sc_sign = sign, sc_s = s, sc_d = d, sc_esign = 1, sc_e = 0, sc_eValid = True,
               sc_nDigit = nDigit, sc_eType = eType, sc_z = p\<rparr>
      in if p \<ge> e then r
         else
         let (r, p) = (if ch z p = of_char (CHR ''.'')
                       then (case fraction z w e (p + step w) s nDigit d of
                               (p, s, nDigit, d) \<Rightarrow>
                                 (r\<lparr>sc_s := s, sc_d := d, sc_nDigit := nDigit, sc_eType := eType + 1, sc_z := p\<rparr>, p))
                       else (r, p))
         in if p \<ge> e then r else atof_exponent z w e r)"

subsection \<open>The value\<close>

text \<open>Digits move between the significand and the exponent \<open>e \<ge> 0\<close> of sign \<open>esign\<close>.\<close>

function reduce_exponent :: "int \<Rightarrow> int \<Rightarrow> int \<Rightarrow> int \<times> int" where
  "reduce_exponent esign s e =
     (if e > 0
      then if esign > 0
           then if s \<ge> LARGEST_INT64 div 10 then (s, e) else reduce_exponent esign (s * 10) (e - 1)
           else if s mod 10 \<noteq> 0 then (s, e) else reduce_exponent esign (s div 10) (e - 1)
      else (s, e))"
  by pat_completeness auto
termination by (relation "measure (\<lambda>(esign, s, e). nat e)") auto

declare reduce_exponent.simps [simp del]

text \<open>An \<open>i64\<close> as an operand of \<^verbatim>\<open>long double\<close> arithmetic: 64 bits of precision hold it.\<close>

definition ext_int :: "int \<Rightarrow> fp" where
  "ext_int n = round80 (of_int n)"

definition atof_value :: "int \<Rightarrow> int \<Rightarrow> int \<Rightarrow> fp" where
  "atof_value sign s e =
     (let esign = (if e < 0 then - 1 else 1); e = \<bar>e\<bar> in
      if s = 0 then (if sign < 0 then NZero else Fin 0)
      else
      let (s, e) = reduce_exponent esign s e;
          s = (if sign < 0 then - s else s)
      in if e = 0 then dbl_int s
         else if e > 307 then
           if e < 342 then
             let scale = sqlite3Pow10 (nat (e - 308)) in
             if esign < 0
             then dbl_div (to_double (div_with round80 (ext_int s) scale)) (round64 (10 ^ 308))
             else dbl_mul (to_double (mul_with round80 (ext_int s) scale)) (round64 (10 ^ 308))
           else if esign < 0 then dbl_mul (Fin 0) (dbl_int s)
           else dbl_mul PInf (dbl_int s)
         else
           let scale = sqlite3Pow10 (nat e) in
           if esign < 0 then to_double (div_with round80 (ext_int s) scale)
           else to_double (mul_with round80 (ext_int s) scale))"

text \<open>\<open>p\<close> is \<open>z\<close> and \<open>e\<close> is \<open>zEnd\<close>: the value stored and the return code.\<close>

definition atof_body :: "string \<Rightarrow> bool \<Rightarrow> nat \<Rightarrow> nat \<Rightarrow> int \<Rightarrow> fp \<times> int" where
  "atof_body z w p e eType =
     (let p = skip_while sqlite3Isspace z w e p in
      if p \<ge> e then (Fin 0, 0)
      else
      let r = atof_scan z w e p eType;
          v = atof_value (sc_sign r) (sc_s r) (sc_e r * sc_esign r + sc_d r);
          t = sc_eType r
      in (v, if sc_z r = e \<and> sc_nDigit r > 0 \<and> sc_eValid r \<and> t > 0 then t
             else if t \<ge> 2 \<and> (t = 3 \<or> sc_eValid r) \<and> sc_nDigit r > 0 then - 1
             else 0))"

definition sqlite3AtoF :: "string \<Rightarrow> nat \<Rightarrow> nat \<Rightarrow> fp \<times> int" where
  "sqlite3AtoF z len enc =
     (if len = 0 then (Fin 0, 0)
      else if enc = SQLITE_UTF8 then atof_body z False 0 len 1
      else
      let len = len - (len AND 1);
          i = high_loop z len (3 - enc)
      in atof_body z True (enc AND 1) (i XOR 1) (if i < len then - 100 else 1))"

subsection \<open>Integers\<close>

lemma isdigit_sqlite: "0 \<le> c \<Longrightarrow> c < 256 \<Longrightarrow> sqlite3Isdigit c \<longleftrightarrow> 48 \<le> c \<and> c \<le> 57"
  by (rule ctype_facts(2))

lemma isdigit_of_char: "sqlite3Isdigit (of_char c) \<longleftrightarrow> isdigit c"
  by (simp add: ctype_facts(2) isdigit_int)

lemma digit_of_int: "isdigit c \<Longrightarrow> of_char c - (48 :: int) = int (digit_of c)"
  by (simp add: digit_of_def isdigit_code of_char_nat_int)

lemma dec_Cons_le: "digit_of c * 10 ^ length ds \<le> dec (c # ds)"
  by simp

text \<open>Digits of a number below the limit are all used.\<close>

lemma significand_spells:
  assumes "spells z w e p (ds @ v)" "list_all isdigit ds" "v = [] \<or> \<not> isdigit (hd v)"
    and "s * 10 ^ length ds + int (dec ds) < (LARGEST_INT64 - 9) div 10" "0 \<le> s"
  shows "significand z w e p s n d = (p + length ds * step w, s * 10 ^ length ds + int (dec ds), n + length ds, d)"
  using assms
proof (induction ds arbitrary: p s n)
  case Nil
  then show ?case
    by (cases v) (auto simp: significand.simps [of z w e p] spells_Nil spells_Cons isdigit_of_char)
next
  case (Cons c ds)
  let ?s = "s * 10 + int (digit_of c)"
  have sp: "p < e" "ch z p = of_char c" "spells z w e (p + step w) (ds @ v)"
    using Cons.prems(1) by (simp_all add: spells_Cons)
  have c: "isdigit c" using Cons.prems(2) by simp
  have eq: "s * 10 ^ length (c # ds) + int (dec (c # ds)) = ?s * 10 ^ length ds + int (dec ds)"
    by (simp add: algebra_simps)
  have "?s * 1 \<le> ?s * 10 ^ length ds" using Cons.prems(5) by (intro mult_left_mono) auto
  then have "?s \<le> ?s * 10 ^ length ds + int (dec ds)" by simp
  also have "\<dots> < (LARGEST_INT64 - 9) div 10" using Cons.prems(4) eq by simp
  finally have lt: "?s < (LARGEST_INT64 - 9) div 10" .
  have "significand z w e p s n d = significand z w e (p + step w) ?s (n + 1) d"
    using sp(1) lt c unfolding significand.simps [of z w e p]
    by (simp add: sp(2) isdigit_of_char Let_def digit_of_int)
  also have "\<dots> = (p + step w + length ds * step w, ?s * 10 ^ length ds + int (dec ds), n + 1 + length ds, d)"
    using Cons.prems eq sp(3) by (intro Cons.IH) auto
  finally show ?case using eq by (simp add: add.assoc)
qed

lemma spells_append: "spells z w e p (u @ v) \<Longrightarrow> spells z w e (p + length u * step w) v"
proof (induction u arbitrary: p)
  case (Cons c u)
  from Cons.IH [of "p + step w"] Cons.prems show ?case by (simp add: spells_Cons add.assoc)
qed simp

lemma atof_scan_integer:
  assumes "spells z w e p (sg @ ds @ sp)" "sg \<in> {[], ''-'', ''+''}" "list_all isdigit ds" "ds \<noteq> []"
    and "list_all (\<lambda>c. sqlite3Isspace (of_char c)) sp" "int (dec ds) < (LARGEST_INT64 - 9) div 10"
  shows "atof_scan z w e p t =
    \<lparr>sc_sign = (if sg = ''-'' then - 1 else 1), sc_s = int (dec ds), sc_d = 0, sc_esign = 1, sc_e = 0,
     sc_eValid = True, sc_nDigit = length ds, sc_eType = t,
     sc_z = p + length (sg @ ds @ sp) * step w\<rparr>"
proof -
  define q where "q = p + length sg * step w"
  define q' where "q' = q + length ds * step w"
  have hd: "\<not> isdigit (hd sp)" "of_char (hd sp) \<noteq> (46 :: int)"
      "of_char (hd sp) \<noteq> (101 :: int)" "of_char (hd sp) \<noteq> (69 :: int)" if "sp \<noteq> []"
    using assms(5) that by (cases sp; auto simp: ctype_facts(1) isdigit_int)+
  have sign: "(if ch z p = 45 then - 1 else 1) = (if sg = ''-'' then - 1 else (1 :: int))"
    "(if ch z p = 45 \<or> ch z p = 43 then p + step w else p) = q" "spells z w e q (ds @ sp)"
    using assms(1-4) by (cases ds; auto simp: q_def spells_Cons isdigit_int)+
  have sig: "significand z w e q 0 0 0 = (q', int (dec ds), length ds, 0)"
    using significand_spells [OF sign(3) assms(3), of 0 0 0] assms(6) hd unfolding q'_def by auto
  have sp: "spells z w e q' sp"
    using spells_append sign(3) unfolding q'_def by blast
  have fin: "p + length (sg @ ds @ sp) * step w = q' + length sp * step w"
    by (simp add: q_def q'_def algebra_simps)
  show ?thesis
  proof (cases "sp = []")
    case True
    with sp have "e \<le> q'" by (simp add: spells_Nil)
    then show ?thesis using True sig sign fin by (simp add: atof_scan_def)
  next
    case False
    then obtain c cs where c: "sp = c # cs" by (cases sp) auto
    with sp have q': "q' < e" "ch z q' = of_char c" by (simp_all add: spells_Cons)
    have skip: "skip_while sqlite3Isspace z w e q' = q' + length sp * step w"
      using skip_while_spells [of z w e q' sp "[]" sqlite3Isspace] sp assms(5) by (simp add: list_all_iff)
    show ?thesis using False hd q' c sig sign fin skip
      by (simp add: atof_scan_def atof_exponent_def Let_def)
  qed
qed

lemma atof_value_integer: "0 \<le> s \<Longrightarrow> atof_value sg s 0 =
    (if s = 0 then (if sg < 0 then NZero else Fin 0) else dbl_int (if sg < 0 then - s else s))"
  by (simp add: atof_value_def reduce_exponent.simps Let_def)

text \<open>The value an integer text denotes, as a \<^verbatim>\<open>double\<close>.\<close>

definition signed_double :: "string \<Rightarrow> string \<Rightarrow> fp" where
  "signed_double sg ds = (if sg = ''-'' \<and> dec ds = 0 then NZero else dbl_int (signed_value sg ds))"

lemma atof_body_integer:
  assumes "spells z w e p (ws @ sg @ ds @ sp)" "\<forall>c \<in> set ws. sqlite3Isspace (of_char c)"
    and "sg \<in> {[], ''-'', ''+''}" "list_all isdigit ds" "ds \<noteq> []"
    and "list_all (\<lambda>c. sqlite3Isspace (of_char c)) sp" "int (dec ds) < (LARGEST_INT64 - 9) div 10"
  shows "atof_body z w p e t =
    (signed_double sg ds, if p + length (ws @ sg @ ds @ sp) * step w = e \<and> t > 0 then t
       else if t \<ge> 2 then - 1 else 0)"
proof -
  define q where "q = p + length ws * step w"
  have hd: "sg @ ds @ sp = [] \<or> \<not> sqlite3Isspace (of_char (hd (sg @ ds @ sp)))"
    using assms(3-5) by (cases ds) (auto simp: ctype_facts(1) isdigit_int)
  have q: "skip_while sqlite3Isspace z w e p = q" "spells z w e q (sg @ ds @ sp)"
    using skip_while_spells [of z w e p ws "sg @ ds @ sp" sqlite3Isspace] assms(1,2) hd
    unfolding q_def by auto
  then have "q < e" using assms(5) by (cases "sg @ ds @ sp") (auto simp: spells_Cons)
  define l where "l = p + length (ws @ sg @ ds @ sp) * step w"
  have l: "q + length (sg @ ds @ sp) * step w = l"
    by (simp add: q_def l_def algebra_simps)
  show ?thesis
    unfolding atof_body_def q(1) Let_def atof_scan_integer [OF q(2) assms(3-7)] l l_def [symmetric]
    using assms(5) \<open>q < e\<close> by (simp add: atof_value_integer signed_double_def signed_value_def dbl_int_def)
qed

text \<open>The text of an integer (spaces, a sign, digits, spaces) converts to the
  double nearest to it, with return code 1 for a pure integer, in all encodings, as long as
  its digits fit the significand.\<close>

theorem AtoF_integer:
  assumes "\<forall>c \<in> set ws. sqlite3Isspace (of_char c)" "sg \<in> {[], ''-'', ''+''}"
    and "list_all isdigit ds" "ds \<noteq> []" "list_all (\<lambda>c. sqlite3Isspace (of_char c)) sp"
    and "int (dec ds) < (LARGEST_INT64 - 9) div 10"
  defines "z \<equiv> ws @ sg @ ds @ sp"
  shows "sqlite3AtoF z (length z) SQLITE_UTF8 = (signed_double sg ds, 1) \<and>
    sqlite3AtoF (utf16 False z) (2 * length z) SQLITE_UTF16LE = (signed_double sg ds, 1) \<and>
    sqlite3AtoF (utf16 True z) (2 * length z) SQLITE_UTF16BE = (signed_double sg ds, 1)"
proof -
  note body = atof_body_integer [OF _ assms(1-6), folded z_def]
  have n: "z \<noteq> []" using assms(4) by (simp add: z_def)
  have "sqlite3AtoF z (length z) SQLITE_UTF8 = (signed_double sg ds, 1)"
    using body [of z False "length z" 0 1] spells_narrow [of z] n by (simp add: sqlite3AtoF_def step_def)
  moreover have "sqlite3AtoF (utf16 False z) (2 * length z) SQLITE_UTF16LE = (signed_double sg ds, 1)"
    using body [of "utf16 False z" True "2 * length z" 0 1] utf16_text(1-3) [of z] n
    by (simp add: sqlite3AtoF_def step_def SQLITE_UTF8_def SQLITE_UTF16LE_def and_one_eq)
  moreover have "sqlite3AtoF (utf16 True z) (2 * length z) SQLITE_UTF16BE = (signed_double sg ds, 1)"
    using body [of "utf16 True z" True "2 * length z + 1" 1 1] utf16_text(4-6) [of z] n
    by (simp add: sqlite3AtoF_def step_def SQLITE_UTF8_def SQLITE_UTF16BE_def and_one_eq)
  ultimately show ?thesis by blast
qed

end
