(* ===== verification/Sq_Printf.thy ===== *)
theory Sq_Printf
  imports Sq_AtoF
begin

text \<open>
  The formatted output of \<^verbatim>\<open>src/sqlite3.c\<close> (printf.c): the string accumulator with its
  buffer limits, the scanner of flags, width and precision, the conversions of
  \<open>sqlite3_str_vappendf\<close>, and the entry points over it. \<open>None\<close> is what C leaves undefined:
  an argument of the wrong type or missing, a write behind the conversion buffer.
  Left out are the arguments that an SQL call of \<^verbatim>\<open>printf()\<close> passes
  (\<^verbatim>\<open>bArgList\<close>) and the store of \<^verbatim>\<open>%n\<close> through the caller's pointer. The
  allocator is a parameter: the size it gives for a request, or none.
\<close>

subsection \<open>The accumulator\<close>

definition SQLITE_TOOBIG :: nat where "SQLITE_TOOBIG = 18"

record StrAccum =
  zText :: "string option"
  nAlloc :: int
  mxAlloc :: int
  accError :: nat
  printf_internal :: bool
  isMalloced :: bool
  mallocSize :: "int \<Rightarrow> int option"

abbreviation text_of :: "StrAccum \<Rightarrow> string" where
  "text_of p \<equiv> (case zText p of None \<Rightarrow> [] | Some t \<Rightarrow> t)"

definition nChar :: "StrAccum \<Rightarrow> int" where
  "nChar p = int (length (text_of p))"

definition sqlite3_str_reset :: "StrAccum \<Rightarrow> StrAccum" where
  "sqlite3_str_reset p = p\<lparr>zText := None, nAlloc := 0, isMalloced := False\<rparr>"

definition setStrAccumError :: "StrAccum \<Rightarrow> nat \<Rightarrow> StrAccum" where
  "setStrAccumError p eError =
     (let p = p\<lparr>accError := eError\<rparr> in if mxAlloc p \<noteq> 0 then sqlite3_str_reset p else p)"

definition sqlite3StrAccumInit :: "(int \<Rightarrow> int option) \<Rightarrow> string option \<Rightarrow> int \<Rightarrow> int \<Rightarrow> StrAccum" where
  "sqlite3StrAccumInit f zBase n mx =
     \<lparr>zText = zBase, nAlloc = n, mxAlloc = mx, accError = 0, printf_internal = False,
      isMalloced = False, mallocSize = f\<rparr>"

text \<open>The bytes the accumulator takes after an attempt to take \<open>N\<close> more.\<close>

definition sqlite3StrAccumEnlarge :: "StrAccum \<Rightarrow> int \<Rightarrow> int \<times> StrAccum" where
  "sqlite3StrAccumEnlarge p N =
     (if accError p \<noteq> 0 then (0, p)
      else if mxAlloc p = 0 then (nAlloc p - nChar p - 1, setStrAccumError p SQLITE_TOOBIG)
      else
      let szNew = nChar p + N + 1;
          szNew = (if szNew + nChar p \<le> mxAlloc p then szNew + nChar p else szNew)
      in if szNew > mxAlloc p then (0, setStrAccumError (sqlite3_str_reset p) SQLITE_TOOBIG)
         else
         case mallocSize p szNew of
           None \<Rightarrow> (0, setStrAccumError (sqlite3_str_reset (p\<lparr>nAlloc := szNew\<rparr>)) SQLITE_NOMEM)
         | Some n \<Rightarrow> (N, p\<lparr>zText := Some (text_of p), nAlloc := n, isMalloced := True\<rparr>))"

definition sqlite3_str_appendchar :: "StrAccum \<Rightarrow> int \<Rightarrow> char \<Rightarrow> StrAccum" where
  "sqlite3_str_appendchar p N c =
     (if nChar p + N \<ge> nAlloc p
      then let (N, p) = sqlite3StrAccumEnlarge p N in
           if N \<le> 0 then p else p\<lparr>zText := Some (text_of p @ replicate (nat N) c)\<rparr>
      else p\<lparr>zText := Some (text_of p @ replicate (nat N) c)\<rparr>)"

definition enlargeAndAppend :: "StrAccum \<Rightarrow> string \<Rightarrow> int \<Rightarrow> StrAccum" where
  "enlargeAndAppend p z N =
     (let (N, p) = sqlite3StrAccumEnlarge p N in
      if N > 0 then p\<lparr>zText := Some (text_of p @ take (nat N) z)\<rparr> else p)"

text \<open>\<open>z\<close> holds the \<open>N\<close> bytes.\<close>

definition sqlite3_str_append :: "StrAccum \<Rightarrow> string \<Rightarrow> StrAccum" where
  "sqlite3_str_append p z =
     (let N = int (length z) in
      if nChar p + N \<ge> nAlloc p then enlargeAndAppend p z N
      else if N \<noteq> 0 then p\<lparr>zText := Some (text_of p @ z)\<rparr> else p)"

definition sqlite3_str_appendall :: "StrAccum \<Rightarrow> string \<Rightarrow> StrAccum" where
  "sqlite3_str_appendall p z = sqlite3_str_append p z"

text \<open>\<open>printfTempBuf\<close>: whether a temporary buffer of \<open>n\<close> bytes is there.\<close>

definition printfTempBuf :: "StrAccum \<Rightarrow> int \<Rightarrow> bool \<times> StrAccum" where
  "printfTempBuf p n =
     (if accError p \<noteq> 0 then (False, p)
      else if n > nAlloc p \<and> n > mxAlloc p then (False, setStrAccumError p SQLITE_TOOBIG)
      else if mallocSize p n = None then (False, setStrAccumError p SQLITE_NOMEM)
      else (True, p))"

subsection \<open>Arguments and flags\<close>

datatype printf_arg =
    AInt int
  | ADouble fp
  | AText "string option"
  | AOwned string int \<comment> \<open>a text of its own allocation, with the size of that\<close>
  | AToken "string option"
  | ASrc "string option" string \<comment> \<open>a source item: \<open>zDatabase\<close>, \<open>zName\<close>\<close>
  | AIntPtr

record flags =
  leftjustify :: bool
  prefix_flag :: string
  alternateform :: bool
  altform2 :: bool
  zeropad :: bool
  thousand :: bool
  flag_long :: nat
  width :: int
  precision :: int

definition no_flags :: flags where
  "no_flags = \<lparr>leftjustify = False, prefix_flag = [], alternateform = False, altform2 = False,
     zeropad = False, thousand = False, flag_long = 0, width = 0, precision = - 1\<rparr>"

text \<open>Integers as C reads them from an argument.\<close>

definition wrap_int :: "int \<Rightarrow> int" where
  "wrap_int x = (x + 2 ^ 31) mod 2 ^ 32 - 2 ^ 31"

text \<open>A number in the format: the value, in an \<^verbatim>\<open>unsigned\<close>, and the rest.\<close>

fun read_unsigned :: "int \<Rightarrow> string \<Rightarrow> int \<times> string" where
  "read_unsigned x [] = (x, [])"
| "read_unsigned x (c # s) =
     (if CHR ''0'' \<le> c \<and> c \<le> CHR ''9''
      then read_unsigned ((x * 10 + of_char c - 48) mod 2 ^ 32) s else (x, c # s))"

lemma read_unsigned_length: "length (snd (read_unsigned x s)) \<le> length s"
  by (induction x s rule: read_unsigned.induct) auto

lemma read_unsigned_less: "(x', r) = read_unsigned x (tl s) \<Longrightarrow> s \<noteq> [] \<Longrightarrow> length r < length s"
  using read_unsigned_length [of x "tl s"] by (cases s) (auto dest: sym simp: less_Suc_eq_le)

lemma tl_less: "s \<noteq> [] \<Longrightarrow> length (tl s) < length s"
  by (cases s) auto

lemma tl_tl_less: "s \<noteq> [] \<Longrightarrow> length (tl (tl s)) < length s"
  by (cases s) auto

text \<open>
  From \<open>s\<close> on, behind the percent sign: the rest of the format from the conversion
  character on, the flags, and the arguments left.
\<close>

function scan_flags :: "string \<Rightarrow> flags \<Rightarrow> printf_arg list \<Rightarrow> (string \<times> flags \<times> printf_arg list) option" where
  "scan_flags s fl args =
     (if s = [] then Some ([], fl, args)
      else
      let c = hd s; s1 = tl s in
      if c = CHR ''-'' then scan_flags s1 (fl\<lparr>leftjustify := True\<rparr>) args
      else if c = CHR ''+'' then scan_flags s1 (fl\<lparr>prefix_flag := ''+''\<rparr>) args
      else if c = CHR '' '' then scan_flags s1 (fl\<lparr>prefix_flag := '' ''\<rparr>) args
      else if c = CHR ''#'' then scan_flags s1 (fl\<lparr>alternateform := True\<rparr>) args
      else if c = CHR ''!'' then scan_flags s1 (fl\<lparr>altform2 := True\<rparr>) args
      else if c = CHR ''0'' then scan_flags s1 (fl\<lparr>zeropad := True\<rparr>) args
      else if c = CHR '','' then scan_flags s1 (fl\<lparr>thousand := True\<rparr>) args
      else if c = CHR ''l'' then
        (if cur s1 = of_char (CHR ''l'') then Some (tl s1, fl\<lparr>flag_long := 2\<rparr>, args)
         else Some (s1, fl\<lparr>flag_long := 1\<rparr>, args))
      else if CHR ''1'' \<le> c \<and> c \<le> CHR ''9'' then
        let (wx, s2) = read_unsigned (of_char c - 48) s1; fl = fl\<lparr>width := wx AND 0x7fffffff\<rparr> in
        if cur s2 = of_char (CHR ''.'') \<or> cur s2 = of_char (CHR ''l'') then scan_flags s2 fl args
        else Some (s2, fl, args)
      else if c = CHR ''*'' then
        (case args of
           AInt v # args \<Rightarrow>
             let w = wrap_int v;
                 fl = (if w < 0 then fl\<lparr>leftjustify := True, width := if w \<ge> - 2147483647 then - w else 0\<rparr>
                       else fl\<lparr>width := w\<rparr>)
             in if cur s1 = of_char (CHR ''.'') \<or> cur s1 = of_char (CHR ''l'') then scan_flags s1 fl args
                else Some (s1, fl, args)
         | _ \<Rightarrow> None)
      else if c = CHR ''.'' then
        (if cur s1 = of_char (CHR ''*'') then
           (case args of
              AInt v # args \<Rightarrow>
                let w = wrap_int v;
                    fl = fl\<lparr>precision := if w < 0 then (if w \<ge> - 2147483647 then - w else - 1) else w\<rparr>
                in if cur (tl s1) = of_char (CHR ''l'') then scan_flags (tl s1) fl args
                   else Some (tl s1, fl, args)
            | _ \<Rightarrow> None)
         else
           let (px, s2) = read_unsigned 0 s1; fl = fl\<lparr>precision := px AND 0x7fffffff\<rparr> in
           if cur s2 = of_char (CHR ''l'') then scan_flags s2 fl args else Some (s2, fl, args))
      else Some (s, fl, args))"
  by pat_completeness auto
termination
  by (relation "measure (\<lambda>(s, fl, args). length s)", rule wf_measure,
      simp_all only: in_measure case_prod_conv)
    (erule tl_less tl_tl_less | erule (1) read_unsigned_less)+

declare scan_flags.simps [simp del]

subsection \<open>The table of conversions\<close>

datatype etype = etRADIX | etFLOAT | etEXP | etGENERIC | etSIZE | etSTRING | etDYNSTRING | etPERCENT
  | etCHARX | etSQLESCAPE | etSQLESCAPE2 | etTOKEN | etSRCLIST | etPOINTER | etSQLESCAPE3
  | etORDINAL | etDECIMAL | etINVALID

record et_info =
  fmttype :: char
  base :: int
  info_flags :: nat
  info_type :: etype
  charset :: nat
  info_prefix :: nat

definition FLAG_SIGNED :: nat where "FLAG_SIGNED = 1"

definition aDigits :: string where "aDigits = ''0123456789ABCDEF0123456789abcdef''"

text \<open>The prefixes, by their offsets in \<open>aPrefix\<close>.\<close>

definition aPrefix :: "nat \<Rightarrow> string" where
  "aPrefix i = (if i = 1 then ''x0'' else if i = 2 then ''0'' else if i = 4 then ''X0'' else ''-x0'')"

fun et_entry :: "char \<times> int \<times> nat \<times> etype \<times> nat \<times> nat \<Rightarrow> et_info" where
  "et_entry (c, b, f, t, cs, p) =
     \<lparr>fmttype = c, base = b, info_flags = f, info_type = t, charset = cs, info_prefix = p\<rparr>"

definition fmtinfo :: "et_info list" where
  "fmtinfo = map et_entry
     [(CHR ''d'', 10, 1, etDECIMAL, 0, 0),
      (CHR ''s'', 0, 4, etSTRING, 0, 0),
      (CHR ''g'', 0, 1, etGENERIC, 30, 0),
      (CHR ''z'', 0, 4, etDYNSTRING, 0, 0),
      (CHR ''q'', 0, 4, etSQLESCAPE, 0, 0),
      (CHR ''Q'', 0, 4, etSQLESCAPE2, 0, 0),
      (CHR ''w'', 0, 4, etSQLESCAPE3, 0, 0),
      (CHR ''c'', 0, 0, etCHARX, 0, 0),
      (CHR ''o'', 8, 0, etRADIX, 0, 2),
      (CHR ''u'', 10, 0, etDECIMAL, 0, 0),
      (CHR ''x'', 16, 0, etRADIX, 16, 1),
      (CHR ''X'', 16, 0, etRADIX, 0, 4),
      (CHR ''f'', 0, 1, etFLOAT, 0, 0),
      (CHR ''e'', 0, 1, etEXP, 30, 0),
      (CHR ''E'', 0, 1, etEXP, 14, 0),
      (CHR ''G'', 0, 1, etGENERIC, 14, 0),
      (CHR ''i'', 10, 1, etDECIMAL, 0, 0),
      (CHR ''n'', 0, 0, etSIZE, 0, 0),
      (CHR ''%'', 0, 0, etPERCENT, 0, 0),
      (CHR ''p'', 16, 0, etPOINTER, 0, 1),
      (CHR ''T'', 0, 0, etTOKEN, 0, 0),
      (CHR ''S'', 0, 0, etSRCLIST, 0, 0),
      (CHR ''r'', 10, 1, etORDINAL, 0, 0)]"

definition lookup_info :: "char \<Rightarrow> et_info option" where
  "lookup_info c = List.find (\<lambda>i. fmttype i = c) fmtinfo"

subsection \<open>Integers\<close>

definition etBUFSIZE :: int where "etBUFSIZE = 70"

text \<open>The digits of \<open>longvalue\<close>, least significant first into the buffer from its end.\<close>

function to_ascii :: "string \<Rightarrow> int \<Rightarrow> int \<Rightarrow> string \<Rightarrow> string" where
  "to_ascii cset b longvalue buf =
     (let buf = cset ! nat (longvalue mod b) # buf; longvalue = longvalue div b
      in if longvalue > 0 \<and> 1 < b then to_ascii cset b longvalue buf else buf)"
  by pat_completeness auto
termination
proof (relation "measure (\<lambda>(cset, b, v, buf). nat v)", goal_cases)
  case (2 cset b v buf buf' v')
  then have "v' < v" using int_div_less_self [of v b] pos_imp_zdiv_pos_iff [of b v] by simp
  with 2 show ?case by simp
qed simp

declare to_ascii.simps [simp del]

text \<open>The first group has \<open>ix\<close> digits, the others three.\<close>

fun insert_commas :: "nat \<Rightarrow> nat \<Rightarrow> string \<Rightarrow> string" where
  "insert_commas 0 ix s = s"
| "insert_commas (Suc nn) ix s = take ix s @ CHR '','' # insert_commas nn 3 (drop ix s)"

text \<open>The value and the sign of an integer argument.\<close>

definition int_argument :: "et_info \<Rightarrow> flags \<Rightarrow> int \<Rightarrow> int \<times> string" where
  "int_argument info fl a =
     (if info_flags info AND FLAG_SIGNED \<noteq> 0
      then let v = (if flag_long fl \<noteq> 0 then wrap64 a else wrap_int a)
           in if v < 0 then (if v = SMALLEST_INT64 then 2 ^ 63 else - v, ''-'')
              else (v, prefix_flag fl)
      else (a mod (if flag_long fl \<noteq> 0 then 2 ^ 64 else 2 ^ 32), []))"

text \<open>
  The branch of \<open>etDECIMAL\<close>, \<open>etRADIX\<close>, \<open>etORDINAL\<close> and \<open>etPOINTER\<close>: the text,
  or none when the temporary buffer is missing.
\<close>

definition convert_int :: "et_info \<Rightarrow> etype \<Rightarrow> flags \<Rightarrow> int \<Rightarrow> StrAccum \<Rightarrow> string option \<times> StrAccum" where
  "convert_int info xtype fl a p =
     (let fl = (if xtype = etPOINTER then fl\<lparr>flag_long := 2\<rparr> else fl);
          cThousand = (xtype = etDECIMAL \<and> thousand fl);
          (longvalue, prefix) = int_argument info fl a;
          alt = (longvalue \<noteq> 0 \<and> alternateform fl);
          w = width fl - (if prefix \<noteq> [] then 1 else 0);
          prec = (if zeropad fl \<and> precision fl < w then w else precision fl);
          (ok, p) = (if prec < etBUFSIZE - 10 - etBUFSIZE div 3 then (True, p)
                     else printfTempBuf p (prec + 10 + (if cThousand then prec div 3 else 0)))
      in if \<not> ok then (None, p)
         else
         let x = (if longvalue mod 10 \<ge> 4 \<or> longvalue div 10 mod 10 = 1 then 0 else longvalue mod 10);
             tail = (if xtype = etORDINAL then take 2 (drop (2 * nat x) ''thstndrd'') else []);
             ds = to_ascii (drop (charset info) aDigits) (base info) longvalue tail;
             ds = replicate (nat (prec - int (length ds))) (CHR ''0'') @ ds;
             ds = (if cThousand
                   then insert_commas ((length ds - 1) div 3) ((length ds - 1) mod 3 + 1) ds else ds);
             ds = prefix @ ds;
             ds = (if alt \<and> info_prefix info \<noteq> 0 then rev (aPrefix (info_prefix info)) @ ds else ds)
         in (Some ds, p))"

subsection \<open>Texts\<close>

text \<open>\<open>SQLITE_SKIP_UTF8\<close> on a text whose end reads as zero.\<close>

definition is_continuation :: "char \<Rightarrow> bool" where
  "is_continuation c \<longleftrightarrow> (of_char c :: int) AND 0xc0 = 0x80"

definition skip_char :: "string \<Rightarrow> string" where
  "skip_char z = (if cur z \<ge> 0xc0 then dropWhile is_continuation (tl z) else tl z)"

fun skip_chars :: "nat \<Rightarrow> string \<Rightarrow> string" where
  "skip_chars 0 z = z"
| "skip_chars (Suc n) z = (if cur z = 0 then z else skip_chars n (skip_char z))"

text \<open>The part of a text that \<^verbatim>\<open>%s\<close> shows.\<close>

definition shown_part :: "flags \<Rightarrow> string \<Rightarrow> string" where
  "shown_part fl z =
     (if precision fl \<ge> 0
      then if altform2 fl then take (length z - length (skip_chars (nat (precision fl)) z)) z
           else take (nat (precision fl)) z
      else z)"

text \<open>\<open>adjust_width_for_utf8\<close>\<close>

definition adjust_width :: "bool \<Rightarrow> int \<Rightarrow> string \<Rightarrow> int" where
  "adjust_width alt2 w z =
     (if alt2 \<and> w > 0 then w + int (length (filter is_continuation z)) else w)"

text \<open>The bytes of \<^verbatim>\<open>%c\<close>.\<close>

definition char_bytes :: "int \<Rightarrow> string" where
  "char_bytes c =
     map char_of
       (if c < 0x80 then [c AND 0xff]
        else if c < 0x800 then [0xc0 + (drop_bit 6 c AND 0x1f), 0x80 + (c AND 0x3f)]
        else if c < 0x10000
        then [0xe0 + (drop_bit 12 c AND 0x0f), 0x80 + (drop_bit 6 c AND 0x3f), 0x80 + (c AND 0x3f)]
        else [0xf0 + (drop_bit 18 c AND 0x07), 0x80 + (drop_bit 12 c AND 0x3f),
              0x80 + (drop_bit 6 c AND 0x3f), 0x80 + (c AND 0x3f)])"

text \<open>
  The scan of \<^verbatim>\<open>%q\<close>: the rest behind the \<open>k\<close> bytes or characters used (all of
  them when \<open>k\<close> is negative) and the number of quotes among them.
\<close>

function escape_scan :: "bool \<Rightarrow> char \<Rightarrow> int \<Rightarrow> string \<Rightarrow> int \<Rightarrow> string \<times> int" where
  "escape_scan alt2 q k z n =
     (if k \<noteq> 0 \<and> cur z \<noteq> 0
      then let n = (if hd z = q then n + 1 else n);
               z = (if alt2 \<and> (of_char (hd z) :: int) AND 0xc0 = 0xc0
                    then dropWhile is_continuation (tl z) else tl z)
           in escape_scan alt2 q (k - 1) z n
      else (z, n))"
  by pat_completeness auto
termination
proof (relation "measure (\<lambda>(a, q, k, z, n). length z)", goal_cases)
  case (2 alt2 q k z n n' z')
  then show ?case using length_dropWhile_le [of is_continuation "tl z"] by (cases z) (auto simp: less_Suc_eq_le)
qed simp

declare escape_scan.simps [simp del]

fun double_quotes :: "char \<Rightarrow> string \<Rightarrow> string" where
  "double_quotes q [] = []"
| "double_quotes q (c # z) = (if c = q then c # c # double_quotes q z else c # double_quotes q z)"

text \<open>
  The branch of \<open>etSQLESCAPE\<close>, \<open>etSQLESCAPE2\<close>, \<open>etSQLESCAPE3\<close>. The size of the
  buffer is an \<^verbatim>\<open>int\<close> and wraps; a text that does not fit the buffer is undefined.
\<close>

definition convert_escape :: "etype \<Rightarrow> flags \<Rightarrow> string option \<Rightarrow> StrAccum \<Rightarrow> (string option \<times> StrAccum) option" where
  "convert_escape xtype fl a p =
     (let q = (if xtype = etSQLESCAPE3 then CHR 0x22 else CHR 0x27);
          escarg = (case a of Some z \<Rightarrow> z | None \<Rightarrow> if xtype = etSQLESCAPE2 then ''NULL'' else ''(NULL)'');
          (rest, n) = escape_scan (altform2 fl) q (precision fl) escarg 0;
          i = length escarg - length rest;
          needQuote = (a \<noteq> None \<and> xtype = etSQLESCAPE2);
          n = wrap_int (n + int i + 3);
          (ok, p) = (if n > etBUFSIZE then printfTempBuf p n else (True, p));
          quote = (if needQuote then [q] else []);
          t = quote @ double_quotes q (take i escarg) @ quote
      in if \<not> ok then Some (None, p)
         else if int (length t) + 1 > (if n > etBUFSIZE then n else etBUFSIZE) then None
         else Some (Some t, p))"

subsection \<open>Floating point\<close>

definition ext_add :: "fp \<Rightarrow> fp \<Rightarrow> fp" where "ext_add = add_with round80"
definition ext_sub :: "fp \<Rightarrow> fp \<Rightarrow> fp" where "ext_sub a b = add_with round80 a (negate b)"
definition ext_mul :: "fp \<Rightarrow> fp \<Rightarrow> fp" where "ext_mul = mul_with round80"
definition ext_div :: "fp \<Rightarrow> fp \<Rightarrow> fp" where "ext_div = div_with round80"

text \<open>A decimal constant of type \<^verbatim>\<open>double\<close>.\<close>

definition dbl_lit :: "rat \<Rightarrow> fp" where "dbl_lit = round64"

definition arRound :: "nat \<Rightarrow> fp" where
  "arRound i = dbl_lit (5 / 10 ^ (i + 1))"

text \<open>The leading digit of a value below ten, and the value that has the next one.\<close>

definition et_getdigit :: "fp \<Rightarrow> int \<Rightarrow> char \<times> fp \<times> int" where
  "et_getdigit val cnt =
     (if cnt \<le> 0 then (CHR ''0'', val, cnt)
      else let digit = c_int val
           in (char_of (nat (digit + of_char (CHR ''0''))),
               ext_mul (ext_sub val (ext_int digit)) (Fin 10), cnt - 1))"

fun get_digits :: "nat \<Rightarrow> fp \<Rightarrow> int \<Rightarrow> string \<times> fp \<times> int" where
  "get_digits 0 val cnt = ([], val, cnt)"
| "get_digits (Suc n) val cnt =
     (let (c, val, cnt) = et_getdigit val cnt; (s, r) = get_digits n val cnt in (c # s, r))"

text \<open>The rounder of the last digit.\<close>

fun rounder_loop :: "nat \<Rightarrow> fp \<Rightarrow> fp" where
  "rounder_loop 0 r = r"
| "rounder_loop (Suc n) r = rounder_loop n (dbl_mul r (dbl_lit (1 / 10 ^ 10)))"

definition rounder_of :: "int \<Rightarrow> fp" where
  "rounder_of prec = (let idx = nat (prec AND 0xfff) in rounder_loop (idx div 10) (arRound (idx mod 10)))"

text \<open>The exponent in the bits of a \<^verbatim>\<open>double\<close>.\<close>

fun dbl_exponent :: "fp \<Rightarrow> int" where
  "dbl_exponent (Fin x) = (if x = 0 then - 1023 else max (ilog2 \<bar>x\<bar>) (- 1023))"
| "dbl_exponent NZero = - 1023"
| "dbl_exponent a = 1024"

text \<open>The loops that find the scale of a large value: the step is \<open>c\<close>, ten to the \<open>k\<close>.\<close>

function scale_up :: "fp \<Rightarrow> nat \<Rightarrow> fp \<Rightarrow> fp \<Rightarrow> int \<Rightarrow> fp \<times> int" where
  "scale_up c k v scale ex =
     (if fp_le (ext_mul c scale) v \<and> ex \<le> 350 \<and> 0 < k
      then scale_up c k v (ext_mul scale c) (ex + int k) else (scale, ex))"
  by pat_completeness auto
termination by (relation "measure (\<lambda>(c, k, v, scale, ex). nat (351 - ex))") auto

declare scale_up.simps [simp del]

text \<open>The loops that make a small value reach \<open>bnd\<close>, with fuel.\<close>

fun scale_down :: "nat \<Rightarrow> fp \<Rightarrow> fp \<Rightarrow> int \<Rightarrow> fp \<Rightarrow> int \<Rightarrow> (fp \<times> int) option" where
  "scale_down 0 bnd c k v ex = (if fp_less v bnd then None else Some (v, ex))"
| "scale_down (Suc f) bnd c k v ex =
     (if fp_less v bnd then scale_down f bnd c k (ext_mul v c) (ex - k) else Some (v, ex))"

text \<open>The value between 1 and 10, and the exponent.\<close>

definition normalize :: "fp \<Rightarrow> (fp \<times> int) option" where
  "normalize v =
     (let (scale, ex) = scale_up (dbl_lit (10 ^ 100)) 100 v (Fin 1) 0;
          (scale, ex) = scale_up (dbl_lit (10 ^ 10)) 10 v scale ex;
          (scale, ex) = scale_up (Fin 10) 1 v scale ex
      in case scale_down 600 (dbl_lit (1 / 10 ^ 8)) (dbl_lit (10 ^ 8)) 8 (ext_div v scale) ex of
           None \<Rightarrow> None
         | Some (v, ex) \<Rightarrow> scale_down 64 (Fin 1) (Fin 10) 1 v ex)"

text \<open>The text of a value that has been brought below ten: sign, digits, point, exponent.\<close>

definition strip_zeros :: "bool \<Rightarrow> string \<Rightarrow> string" where
  "strip_zeros alt2 t =
     (let t = rev (dropWhile (\<lambda>c. c = CHR ''0'') (rev t))
      in if t \<noteq> [] \<and> last t = CHR ''.'' then (if alt2 then t @ ''0'' else butlast t) else t)"

definition exponent_suffix :: "et_info \<Rightarrow> int \<Rightarrow> string" where
  "exponent_suffix info ex =
     (let d = (\<lambda>n. char_of (nat (n + 48))); a = \<bar>ex\<bar>; r = (if a \<ge> 100 then a mod 100 else a)
      in [aDigits ! charset info, if ex < 0 then CHR ''-'' else CHR ''+''] @
         (if a \<ge> 100 then [d (a div 100)] else []) @ [d (r div 10), d (r mod 10)])"

definition float_text :: "et_info \<Rightarrow> flags \<Rightarrow> bool \<Rightarrow> bool \<Rightarrow> string \<Rightarrow> int \<Rightarrow> fp \<Rightarrow> int \<Rightarrow> string" where
  "float_text info fl isExp rtz prefix prec v ex =
     (let e2 = (if isExp then 0 else ex);
          nsd = 16 + (if altform2 fl then 10 else 0);
          flag_dp = (prec > 0 \<or> alternateform fl \<or> altform2 fl);
          (int_part, v, nsd) = (if e2 < 0 then (''0'', v, nsd) else get_digits (nat (e2 + 1)) v nsd);
          lead = nat (if e2 < 0 then - (e2 + 1) else 0);
          (frac_part, v, nsd) = get_digits (nat (prec - int lead)) v nsd;
          t = prefix @ int_part @ (if flag_dp then ''.'' else []) @ replicate lead (CHR ''0'') @ frac_part;
          t = (if rtz \<and> flag_dp then strip_zeros (altform2 fl) t else t);
          t = (if isExp then t @ exponent_suffix info ex else t)
      in if zeropad fl \<and> \<not> leftjustify fl \<and> int (length t) < width fl
         then prefix @ replicate (nat (width fl) - length t) (CHR ''0'') @ drop (length prefix) t
         else t)"

text \<open>
  The branch of \<open>etFLOAT\<close>, \<open>etEXP\<close> and \<open>etGENERIC\<close>: the prefix, the precision,
  the rounder and the value to be normalized.
\<close>

definition float_prepare :: "etype \<Rightarrow> flags \<Rightarrow> fp \<Rightarrow> string \<times> int \<times> fp \<times> fp" where
  "float_prepare xtype fl a =
     (let prec = min (if precision fl < 0 then 6 else precision fl) 100000000;
          neg = fp_less a (Fin 0);
          v = (if neg then negate a else a);
          prec = (if xtype = etGENERIC \<and> prec > 0 then prec - 1 else prec);
          rounder = rounder_of prec;
          rounder = (if xtype = etFLOAT \<and> prec + dbl_exponent (to_double v) sdiv 3 < 15
                     then to_double (ext_add rounder (ext_mul v (dbl_lit (3 / 10 ^ 16)))) else rounder)
      in (if neg then ''-'' else prefix_flag fl, prec, rounder,
          if xtype = etFLOAT then ext_add v rounder else v))"

text \<open>The form, and the text if its buffer is there.\<close>

definition float_finish :: "et_info \<Rightarrow> etype \<Rightarrow> flags \<Rightarrow> string \<Rightarrow> int \<Rightarrow> fp \<Rightarrow> fp \<Rightarrow> int \<Rightarrow> StrAccum \<Rightarrow> string option \<times> StrAccum" where
  "float_finish info xtype fl prefix prec rounder v ex p =
     (let v = (if xtype \<noteq> etFLOAT then ext_add v rounder else v);
          (v, ex) = (if xtype \<noteq> etFLOAT \<and> fp_le (Fin 10) v
                     then (ext_mul v (dbl_lit (1 / 10)), ex + 1) else (v, ex));
          rtz = (if xtype = etGENERIC then \<not> alternateform fl else altform2 fl);
          isExp = (xtype = etEXP \<or> xtype = etGENERIC \<and> (ex < - 4 \<or> ex > prec));
          prec = (if xtype = etGENERIC \<and> \<not> isExp then prec - ex else prec);
          need = max (if isExp then 0 else ex) 0 + prec + width fl + 15;
          (ok, p) = (if need > etBUFSIZE then printfTempBuf p need else (True, p))
      in (if ok then Some (float_text info fl isExp rtz prefix prec v ex) else None, p))"

definition convert_float :: "et_info \<Rightarrow> etype \<Rightarrow> flags \<Rightarrow> fp \<Rightarrow> StrAccum \<Rightarrow> (string option \<times> StrAccum) option" where
  "convert_float info xtype fl a p =
     (let (prefix, prec, rounder, v) = float_prepare xtype fl a
      in if to_double v = NaN then Some (Some ''NaN'', p)
         else
         case (if fp_less (Fin 0) v then normalize v else Some (v, 0)) of
           None \<Rightarrow> None
         | Some (v, ex) \<Rightarrow>
             if ex > 350 then Some (Some (prefix @ ''Inf''), p)
             else Some (float_finish info xtype fl prefix prec rounder v ex p))"

subsection \<open>The formatter\<close>

text \<open>The end of a conversion: the field is \<open>t\<close> in width \<open>w\<close>.\<close>

definition emit :: "StrAccum \<Rightarrow> bool \<Rightarrow> int \<Rightarrow> string \<Rightarrow> StrAccum" where
  "emit p left w t =
     (let w = w - int (length t) in
      if w > 0 then
        let p = (if \<not> left then sqlite3_str_appendchar p w (CHR '' '') else p);
            p = sqlite3_str_append p t
        in if left then sqlite3_str_appendchar p w (CHR '' '') else p
      else sqlite3_str_append p t)"

datatype progress = Stop StrAccum | Next StrAccum "printf_arg list"

text \<open>\<open>%c\<close>: a precision repeats the character.\<close>

fun append_times :: "nat \<Rightarrow> string \<Rightarrow> StrAccum \<Rightarrow> StrAccum" where
  "append_times 0 t p = p"
| "append_times (Suc n) t p = append_times n t (sqlite3_str_append p t)"

definition convert_char :: "flags \<Rightarrow> int \<Rightarrow> StrAccum \<Rightarrow> StrAccum" where
  "convert_char fl c p =
     (let t = char_bytes c; prec = precision fl;
          w = (if prec > 1 then width fl - (prec - 1) else width fl);
          pad = (prec > 1 \<and> w > 1 \<and> \<not> leftjustify fl);
          p = (if pad then sqlite3_str_appendchar p (w - 1) (CHR '' '') else p);
          w = (if pad then 0 else w);
          p = (if prec > 1 then append_times (nat (prec - 1)) t p else p)
      in emit p (leftjustify fl) (adjust_width True w t) t)"

text \<open>The effect of a text or of nothing, for conversions that may lack their buffer.\<close>

definition emit_field :: "flags \<Rightarrow> (string option \<times> StrAccum) \<Rightarrow> printf_arg list \<Rightarrow> progress" where
  "emit_field fl r args =
     (case r of (None, p) \<Rightarrow> Stop p | (Some t, p) \<Rightarrow> Next (emit p (leftjustify fl) (width fl) t) args)"

definition convert_string :: "etype \<Rightarrow> flags \<Rightarrow> printf_arg \<Rightarrow> StrAccum \<Rightarrow> StrAccum option" where
  "convert_string xtype fl a p =
     (let show = (\<lambda>z. let t = shown_part fl z
                      in emit p (leftjustify fl) (adjust_width (altform2 fl) (width fl) t) t)
      in case a of
           AText z \<Rightarrow> Some (show (case z of None \<Rightarrow> [] | Some z \<Rightarrow> z))
         | AOwned z sz \<Rightarrow>
             if xtype = etDYNSTRING \<and> nChar p = 0 \<and> mxAlloc p \<noteq> 0 \<and> width fl = 0 \<and> precision fl < 0 \<and> accError p = 0
             then Some (emit (p\<lparr>zText := Some z, nAlloc := sz, isMalloced := True\<rparr>) (leftjustify fl) 0 [])
             else Some (show z)
         | _ \<Rightarrow> None)"

text \<open>One conversion, its character looked up, with the arguments that are left.\<close>

definition convert :: "char \<Rightarrow> flags \<Rightarrow> printf_arg list \<Rightarrow> StrAccum \<Rightarrow> progress option" where
  "convert c fl args p =
     (case lookup_info c of
        None \<Rightarrow> Some (Stop p)
      | Some info \<Rightarrow>
        let xtype = info_type info in
        if xtype \<in> {etDECIMAL, etRADIX, etORDINAL, etPOINTER} then
          (case args of
             AInt a # args \<Rightarrow> Some (emit_field fl (convert_int info xtype fl a p) args)
           | _ \<Rightarrow> None)
        else if xtype \<in> {etFLOAT, etEXP, etGENERIC} then
          (case args of
             ADouble a # args \<Rightarrow> map_option (\<lambda>r. emit_field fl r args) (convert_float info xtype fl a p)
           | _ \<Rightarrow> None)
        else if xtype = etSIZE then
          (case args of AIntPtr # args \<Rightarrow> Some (Next (emit p False 0 []) args) | _ \<Rightarrow> None)
        else if xtype = etPERCENT then
          Some (Next (emit p (leftjustify fl) (width fl) ''%'') args)
        else if xtype = etCHARX then
          (case args of AInt a # args \<Rightarrow> Some (Next (convert_char fl (a mod 2 ^ 32) p) args) | _ \<Rightarrow> None)
        else if xtype \<in> {etSTRING, etDYNSTRING} then
          (case args of
             a # args \<Rightarrow> map_option (\<lambda>p. Next p args) (convert_string xtype fl a p)
           | _ \<Rightarrow> None)
        else if xtype \<in> {etSQLESCAPE, etSQLESCAPE2, etSQLESCAPE3} then
          (case args of
             AText a # args \<Rightarrow>
               map_option (\<lambda>r. emit_field
                 (case r of (Some t, _) \<Rightarrow> fl\<lparr>width := adjust_width (altform2 fl) (width fl) t\<rparr> | _ \<Rightarrow> fl) r args)
                 (convert_escape xtype fl a p)
           | _ \<Rightarrow> None)
        else if xtype = etTOKEN then
          (if \<not> printf_internal p then Some (Stop p)
           else case args of
             AToken t # args \<Rightarrow>
               let p = (case t of None \<Rightarrow> p | Some z \<Rightarrow> if z = [] then p else sqlite3_str_append p z)
               in Some (Next (emit p False 0 []) args)
           | _ \<Rightarrow> None)
        else if xtype = etSRCLIST then
          (if \<not> printf_internal p then Some (Stop p)
           else case args of
             ASrc d n # args \<Rightarrow>
               let p = (case d of None \<Rightarrow> p | Some z \<Rightarrow> sqlite3_str_append (sqlite3_str_appendall p z) ''.'')
               in Some (Next (emit (sqlite3_str_appendall p n) False 0 []) args)
           | _ \<Rightarrow> None)
        else Some (Stop p))"

lemma scan_flags_result:
  "scan_flags s fl args = Some (r, fl', args') \<Longrightarrow> length r \<le> length s \<and> set args' \<subseteq> set args"
proof (induction s arbitrary: fl args rule: length_induct)
  case (1 s)
  show ?case
  proof (cases s)
    case Nil
    with 1(2) show ?thesis by (simp add: scan_flags.simps)
  next
    case (Cons c s1)
    have IH: "length r \<le> length s \<and> set args' \<subseteq> set args''"
      if "scan_flags s2 f args'' = Some (r, fl', args')" "length s2 \<le> length s1" for s2 f args''
      using 1(1) that Cons by (fastforce simp: less_Suc_eq_le)
    have tl: "length (tl s1) \<le> length s1" "length (tl s1) \<le> Suc (length s1)" by simp_all
    have rd: "length y \<le> length s1" "length y \<le> Suc (length s1)" if "read_unsigned n s1 = (x, y)" for n x y
      using read_unsigned_length [of n s1] that by simp_all
    note step = 1(2) [unfolded scan_flags.simps [of s], simplified Cons list.sel Let_def]
    from step Cons show ?thesis
      by (auto split: if_splits list.splits printf_arg.splits prod.splits dest!: IH simp: tl rd)
  qed
qed

function sqlite3_str_vappendf :: "string \<Rightarrow> printf_arg list \<Rightarrow> StrAccum \<Rightarrow> StrAccum option" where
  "sqlite3_str_vappendf fmt args p =
     (if fmt = [] then Some p
      else if hd fmt \<noteq> CHR ''%'' then
        let p = sqlite3_str_append p (takeWhile (\<lambda>c. c \<noteq> CHR ''%'') fmt);
            fmt = dropWhile (\<lambda>c. c \<noteq> CHR ''%'') fmt
        in if fmt = [] then Some p else sqlite3_str_vappendf fmt args p
      else if tl fmt = [] then Some (sqlite3_str_append p ''%'')
      else
      case scan_flags (tl fmt) no_flags args of
        None \<Rightarrow> None
      | Some (s, fl, args) \<Rightarrow>
          if s = [] then Some p
          else
          case convert (hd s) fl args p of
            None \<Rightarrow> None
          | Some (Stop p) \<Rightarrow> Some p
          | Some (Next p args) \<Rightarrow> sqlite3_str_vappendf (tl s) args p)"
  by pat_completeness auto
termination
proof (relation "measure (\<lambda>(fmt, args, p). length fmt)", goal_cases)
  case (2 fmt args p)
  then show ?case by (cases fmt) (auto simp: less_Suc_eq_le length_dropWhile_le)
next
  case (3 fmt args p)
  then show ?case by (cases fmt; cases "tl fmt") (auto dest!: scan_flags_result split: if_splits)
qed simp

declare sqlite3_str_vappendf.simps [simp del]

subsection \<open>Entry points\<close>

definition SQLITE_MAX_LENGTH :: int where "SQLITE_MAX_LENGTH = 1000000000"

text \<open>The finished text, or none (a null pointer).\<close>

definition sqlite3StrAccumFinish :: "StrAccum \<Rightarrow> string option" where
  "sqlite3StrAccumFinish p =
     (case zText p of
        None \<Rightarrow> None
      | Some t \<Rightarrow> if mxAlloc p > 0 \<and> \<not> isMalloced p \<and> mallocSize p (nChar p + 1) = None then None else Some t)"

text \<open>What \<open>sqlite3_snprintf\<close> leaves in a buffer of \<open>n\<close> bytes that held \<open>zBuf\<close>.\<close>

definition sqlite3_snprintf :: "(int \<Rightarrow> int option) \<Rightarrow> int \<Rightarrow> string \<Rightarrow> string \<Rightarrow> printf_arg list \<Rightarrow> string option" where
  "sqlite3_snprintf f n zBuf fmt args =
     (if n \<le> 0 then Some zBuf
      else map_option text_of (sqlite3_str_vappendf fmt args (sqlite3StrAccumInit f (Some []) n 0)))"

definition sqlite3_mprintf :: "(int \<Rightarrow> int option) \<Rightarrow> string \<Rightarrow> printf_arg list \<Rightarrow> string option option" where
  "sqlite3_mprintf f fmt args =
     map_option sqlite3StrAccumFinish
       (sqlite3_str_vappendf fmt args (sqlite3StrAccumInit f (Some []) etBUFSIZE SQLITE_MAX_LENGTH))"

definition sqlite3MPrintf :: "(int \<Rightarrow> int option) \<Rightarrow> int \<Rightarrow> string \<Rightarrow> printf_arg list \<Rightarrow> string option option" where
  "sqlite3MPrintf f aLimit fmt args =
     map_option sqlite3StrAccumFinish
       (sqlite3_str_vappendf fmt args
         ((sqlite3StrAccumInit f (Some []) etBUFSIZE aLimit)\<lparr>printf_internal := True\<rparr>))"

subsection \<open>No write behind the buffer\<close>

text \<open>
  The text and its terminator fit the buffer; a failed accumulator that may allocate has
  dropped its text.
\<close>

definition acc_ok :: "StrAccum \<Rightarrow> bool" where
  "acc_ok p \<longleftrightarrow> (case zText p of None \<Rightarrow> nAlloc p = 0 | Some t \<Rightarrow> int (length t) < nAlloc p) \<and>
     0 \<le> mxAlloc p \<and> (\<forall>n m. mallocSize p n = Some m \<longrightarrow> n \<le> m)"

definition failed :: "StrAccum \<Rightarrow> bool" where
  "failed p \<longleftrightarrow> accError p \<noteq> 0 \<and> mxAlloc p \<noteq> 0 \<and> zText p = None"

definition grows :: "StrAccum \<Rightarrow> StrAccum \<Rightarrow> bool" where
  "grows p p' \<longleftrightarrow> acc_ok p' \<and> mxAlloc p' = mxAlloc p \<and> mallocSize p' = mallocSize p \<and>
     (mxAlloc p = 0 \<longrightarrow> nAlloc p' = nAlloc p) \<and> (failed p \<longrightarrow> failed p') \<and>
     (failed p' \<or> (\<exists>t. text_of p' = text_of p @ t))"

lemma grows_refl: "acc_ok p \<Longrightarrow> grows p p"
  by (simp add: grows_def)

lemma grows_trans: "grows p q \<Longrightarrow> grows q r \<Longrightarrow> grows p r"
  unfolding grows_def by (metis append_assoc)

lemma grows_ok: "grows p q \<Longrightarrow> acc_ok q"
  by (simp add: grows_def)

lemma grows_error: "acc_ok p \<Longrightarrow> e \<noteq> 0 \<Longrightarrow> grows p (setStrAccumError p e)"
  by (auto simp: grows_def setStrAccumError_def sqlite3_str_reset_def acc_ok_def failed_def Let_def split: option.splits)

lemma error_codes [simp]: "0 < SQLITE_NOMEM" "0 < SQLITE_TOOBIG"
  by (simp_all add: SQLITE_NOMEM_def SQLITE_TOOBIG_def)

text \<open>After an enlargement that gave room the same text is there, with the room behind it.\<close>

lemma enlarge_grows:
  assumes "acc_ok p" "0 \<le> N" "nAlloc p \<le> nChar p + N" "sqlite3StrAccumEnlarge p N = (N', p')"
  shows "grows p p' \<and> (0 < N' \<longrightarrow> text_of p' = text_of p \<and> N' \<le> N \<and> nChar p' + N' < nAlloc p' \<and> \<not> failed p')"
proof (cases "accError p \<noteq> 0")
  case True
  with assms(1,4) show ?thesis by (simp add: sqlite3StrAccumEnlarge_def grows_refl)
next
  case False
  show ?thesis
  proof (cases "mxAlloc p = 0")
    case True
    with False assms have "N' = nAlloc p - nChar p - 1" "p' = setStrAccumError p SQLITE_TOOBIG"
      by (simp_all add: sqlite3StrAccumEnlarge_def)
    moreover have "text_of (setStrAccumError p e) = text_of p" "nAlloc (setStrAccumError p e) = nAlloc p"
      "mxAlloc (setStrAccumError p e) = 0" for e
      using True by (simp_all add: setStrAccumError_def)
    ultimately show ?thesis using True assms(1,3) grows_error [OF assms(1), of SQLITE_TOOBIG]
      by (auto simp: failed_def nChar_def)
  next
    case mx: False
    define s where "s = (if nChar p + N + 1 + nChar p \<le> mxAlloc p then nChar p + N + 1 + nChar p else nChar p + N + 1)"
    have s: "nChar p + N < s" by (simp add: s_def nChar_def)
    have eq: "sqlite3StrAccumEnlarge p N =
        (if s > mxAlloc p then (0, setStrAccumError (sqlite3_str_reset p) SQLITE_TOOBIG)
         else case mallocSize p s of
           None \<Rightarrow> (0, setStrAccumError (sqlite3_str_reset (p\<lparr>nAlloc := s\<rparr>)) SQLITE_NOMEM)
         | Some n \<Rightarrow> (N, p\<lparr>zText := Some (text_of p), nAlloc := n, isMalloced := True\<rparr>))"
      using False mx unfolding sqlite3StrAccumEnlarge_def s_def Let_def by simp
    have reset: "grows p (setStrAccumError (sqlite3_str_reset q) e)"
      if "e \<noteq> 0" "q = p \<or> q = p\<lparr>nAlloc := s\<rparr>" for q e
      using assms(1) mx that
      by (auto simp: grows_def setStrAccumError_def sqlite3_str_reset_def acc_ok_def failed_def Let_def)
    show ?thesis
    proof (cases "s > mxAlloc p \<or> mallocSize p s = None")
      case True
      then show ?thesis using assms(4) reset unfolding eq by (auto split: if_splits)
    next
      case ok: False
      then obtain n where n: "mallocSize p s = Some n" by auto
      with assms(1) have "s \<le> n" by (auto simp: acc_ok_def)
      moreover have "N' = N" "p' = p\<lparr>zText := Some (text_of p), nAlloc := n, isMalloced := True\<rparr>"
        using assms(4) ok n unfolding eq by auto
      ultimately show ?thesis using s assms(1,2) mx False
        by (auto simp: grows_def acc_ok_def failed_def nChar_def)
    qed
  qed
qed

lemma grows_text:
  "acc_ok p \<Longrightarrow> \<not> failed p \<Longrightarrow> nChar p + int (length t) < nAlloc p \<Longrightarrow> grows p (p\<lparr>zText := Some (text_of p @ t)\<rparr>)"
  by (auto simp: grows_def acc_ok_def nChar_def failed_def)

lemma grows_room:
  assumes "grows p q" "\<not> failed q" "nChar q + int (length t) < nAlloc q"
  shows "grows p (q\<lparr>zText := Some (text_of q @ t)\<rparr>)"
  using grows_trans [OF assms(1) grows_text [OF grows_ok [OF assms(1)] assms(2,3)]] .

lemma failed_small: "acc_ok p \<Longrightarrow> failed p \<Longrightarrow> nChar p + N < nAlloc p \<Longrightarrow> N < 0"
  by (simp add: acc_ok_def failed_def nChar_def)

lemma append_grows:
  assumes "acc_ok p"
  shows "grows p (sqlite3_str_append p z)"
proof (cases "nAlloc p \<le> nChar p + int (length z)")
  case True
  obtain N' p' where e: "sqlite3StrAccumEnlarge p (int (length z)) = (N', p')" by force
  from enlarge_grows [OF assms _ True this] have
    g: "grows p p'" "0 < N' \<Longrightarrow> text_of p' = text_of p \<and> N' \<le> int (length z) \<and> nChar p' + N' < nAlloc p' \<and> \<not> failed p'"
    by auto
  show ?thesis
  proof (cases "0 < N'")
    case pos: True
    with g(2) have "nChar p' + int (length (take (nat N') z)) < nAlloc p'" "\<not> failed p'" by auto
    from grows_room [OF g(1) this(2,1)] show ?thesis
      using True e pos by (simp add: sqlite3_str_append_def enlargeAndAppend_def Let_def)
  next
    case False
    with g(1) True e show ?thesis by (simp add: sqlite3_str_append_def enlargeAndAppend_def Let_def)
  qed
next
  case False
  then have "\<not> failed p" using failed_small [OF assms, of "int (length z)"] by auto
  with False assms show ?thesis
    by (auto simp: sqlite3_str_append_def Let_def intro: grows_refl grows_text)
qed

lemma appendchar_grows:
  assumes "acc_ok p" "0 \<le> N"
  shows "grows p (sqlite3_str_appendchar p N c)"
proof (cases "nAlloc p \<le> nChar p + N")
  case True
  obtain N' p' where e: "sqlite3StrAccumEnlarge p N = (N', p')" by force
  from enlarge_grows [OF assms True this] have
    g: "grows p p'" "0 < N' \<Longrightarrow> nChar p' + N' < nAlloc p' \<and> \<not> failed p'" by auto
  show ?thesis
  proof (cases "0 < N'")
    case pos: True
    with g(2) have "nChar p' + int (length (replicate (nat N') c)) < nAlloc p'" "\<not> failed p'" by auto
    from grows_room [OF g(1) this(2,1)] show ?thesis
      using True e pos by (simp add: sqlite3_str_appendchar_def Let_def)
  qed (use True e g(1) in \<open>simp add: sqlite3_str_appendchar_def Let_def\<close>)
next
  case False
  then have "\<not> failed p" using failed_small [OF assms(1), of N] assms(2) by auto
  with False assms show ?thesis by (auto simp: sqlite3_str_appendchar_def intro: grows_text)
qed

lemma tempbuf_grows: "acc_ok p \<Longrightarrow> printfTempBuf p n = (ok, p') \<Longrightarrow> grows p p'"
  by (auto simp: printfTempBuf_def grows_error grows_refl split: if_splits)

text \<open>The steps of a longer run.\<close>

lemma grows_steps:
  "grows p q \<Longrightarrow> grows p (sqlite3_str_append q t)"
  "grows p q \<Longrightarrow> 0 \<le> N \<Longrightarrow> grows p (sqlite3_str_appendchar q N c)"
  using append_grows appendchar_grows grows_ok grows_trans by blast+

lemma emit_grows: "grows p q \<Longrightarrow> grows p (emit q left w t)"
  by (auto simp: emit_def Let_def intro!: grows_steps)

lemma append_times_grows: "grows p q \<Longrightarrow> grows p (append_times n t q)"
  by (induction n t q rule: append_times.induct) (simp_all add: grows_steps)

text \<open>The conversions.\<close>

lemma convert_int_grows: "acc_ok p \<Longrightarrow> convert_int info x fl a p = (t, p') \<Longrightarrow> grows p p'"
  by (auto simp: convert_int_def Let_def grows_refl tempbuf_grows split: prod.splits if_splits)

lemma convert_escape_grows: "acc_ok p \<Longrightarrow> convert_escape x fl a p = Some (t, p') \<Longrightarrow> grows p p'"
  by (auto simp: convert_escape_def Let_def grows_refl tempbuf_grows split: prod.splits if_splits)

lemma float_finish_grows: "acc_ok p \<Longrightarrow> float_finish info x fl pre prec r v ex p = (t, p') \<Longrightarrow> grows p p'"
  unfolding float_finish_def Let_def
  by (auto simp only: split_beta prod.inject split: if_splits)
    (auto simp: grows_refl dest: tempbuf_grows [OF _ surjective_pairing])

lemma convert_float_grows: "acc_ok p \<Longrightarrow> convert_float info x fl a p = Some (t, p') \<Longrightarrow> grows p p'"
  by (auto simp: convert_float_def grows_refl float_finish_grows split: prod.splits if_splits option.splits)

lemma emit_field_grows:
  "emit_field fl (t, q) args = Stop p' \<Longrightarrow> grows p q \<Longrightarrow> grows p p'"
  "emit_field fl (t, q) args = Next p' args' \<Longrightarrow> grows p q \<Longrightarrow> grows p p' \<and> args' = args"
  by (auto simp: emit_field_def emit_grows split: option.splits)

lemma convert_char_grows: "acc_ok p \<Longrightarrow> grows p (convert_char fl c p)"
  by (auto simp: convert_char_def Let_def intro!: emit_grows append_times_grows grows_steps grows_refl)

definition arg_ok :: "printf_arg \<Rightarrow> bool" where
  "arg_ok a \<longleftrightarrow> (case a of AOwned z n \<Rightarrow> int (length z) < n | _ \<Rightarrow> True)"

lemma convert_string_grows:
  assumes "acc_ok p" "arg_ok a" "convert_string x fl a p = Some p'"
  shows "grows p p'"
proof -
  have "grows p (p\<lparr>zText := Some z, nAlloc := n, isMalloced := True\<rparr>)"
    if "nChar p = 0" "mxAlloc p \<noteq> 0" "accError p = 0" "int (length z) < n" for z n
    using assms(1) that by (auto simp: grows_def acc_ok_def failed_def nChar_def)
  with assms show ?thesis
    by (auto simp: convert_string_def arg_ok_def Let_def grows_refl
        split: printf_arg.splits if_splits intro!: emit_grows)
qed

definition step_grows :: "StrAccum \<Rightarrow> printf_arg list \<Rightarrow> progress \<Rightarrow> bool" where
  "step_grows p args s \<longleftrightarrow>
     (case s of Stop p' \<Rightarrow> grows p p' | Next p' args' \<Rightarrow> grows p p' \<and> set args' \<subseteq> set args)"

lemma emit_field_step:
  "grows p (snd r) \<Longrightarrow> set args' \<subseteq> set args \<Longrightarrow> step_grows p args (emit_field fl r args')"
  by (auto simp: emit_field_def step_grows_def emit_grows split: prod.splits option.splits)

lemma convert_grows:
  assumes "acc_ok p" "list_all arg_ok args" "convert c fl args p = Some s"
  shows "step_grows p args s"
proof (cases "lookup_info c")
  case None
  with assms show ?thesis by (auto simp: convert_def step_grows_def grows_refl)
next
  case (Some info)
  note refl = grows_refl [OF assms(1)]
  note conv = convert_int_grows [OF assms(1) surjective_pairing]
    convert_float_grows [OF assms(1)] convert_escape_grows [OF assms(1)] convert_char_grows [OF assms(1)]
    convert_string_grows [OF assms(1)]
  note steps = emit_grows grows_steps refl
  show ?thesis
  proof (cases "info_type info")
    case etSTRING
    with Some assms(2,3) show ?thesis
      by (auto simp: convert_def step_grows_def conv split: list.splits)
  next
    case etDYNSTRING
    with Some assms(2,3) show ?thesis
      by (auto simp: convert_def step_grows_def conv split: list.splits)
  next
    case etTOKEN
    with Some assms(3) show ?thesis
      by (auto simp: convert_def step_grows_def refl Let_def split: if_splits list.splits printf_arg.splits option.splits
          intro!: steps)
  next
    case etSRCLIST
    with Some assms(3) show ?thesis
      by (auto simp: convert_def step_grows_def refl Let_def sqlite3_str_appendall_def
          split: if_splits list.splits printf_arg.splits option.splits intro!: steps)
  next
    case etSIZE
    with Some assms(3) show ?thesis
      by (auto simp: convert_def step_grows_def split: list.splits printf_arg.splits intro!: steps)
  next
    case etPERCENT
    with Some assms(3) show ?thesis by (auto simp: convert_def step_grows_def intro!: steps)
  next
    case etCHARX
    with Some assms(3) show ?thesis
      by (auto simp: convert_def step_grows_def conv split: list.splits printf_arg.splits)
  next
    case etINVALID
    with Some assms(3) show ?thesis by (auto simp: convert_def step_grows_def refl)
  qed (use Some assms(3) conv in \<open>auto simp: convert_def intro!: emit_field_step
      split: list.splits printf_arg.splits\<close>)
qed

lemma vappendf_Nil [simp]: "sqlite3_str_vappendf [] args p = Some p"
  by (simp add: sqlite3_str_vappendf.simps [of "[]"])

lemma vappendf_percent [simp]: "sqlite3_str_vappendf ''%'' args p = Some (sqlite3_str_append p ''%'')"
  by (simp add: sqlite3_str_vappendf.simps [of "''%''"])

lemma vappendf_literal:
  assumes "c \<noteq> CHR ''%''"
  shows "sqlite3_str_vappendf (c # fmt) args p =
    sqlite3_str_vappendf (dropWhile (\<lambda>c. c \<noteq> CHR ''%'') fmt) args
      (sqlite3_str_append p (c # takeWhile (\<lambda>c. c \<noteq> CHR ''%'') fmt))"
proof (cases "dropWhile (\<lambda>c. c \<noteq> CHR ''%'') fmt = []")
  case True
  with assms show ?thesis by (simp only: sqlite3_str_vappendf.simps [of "c # fmt"]) (simp add: Let_def)
next
  case False
  with assms show ?thesis
    unfolding sqlite3_str_vappendf.simps [of "c # fmt"] Let_def by (simp del: dropWhile_eq_Nil_conv)
qed

lemma vappendf_conversion:
  assumes "fmt \<noteq> []"
  shows "sqlite3_str_vappendf (CHR ''%'' # fmt) args p =
    (case scan_flags fmt no_flags args of
       None \<Rightarrow> None
     | Some (s, fl, args) \<Rightarrow>
         if s = [] then Some p
         else
         case convert (hd s) fl args p of
           None \<Rightarrow> None
         | Some (Stop p) \<Rightarrow> Some p
         | Some (Next p args) \<Rightarrow> sqlite3_str_vappendf (tl s) args p)"
  using assms by (subst sqlite3_str_vappendf.simps) simp

lemma vappendf_grows:
  "acc_ok p \<Longrightarrow> list_all arg_ok args \<Longrightarrow> sqlite3_str_vappendf fmt args p = Some p' \<Longrightarrow> grows p p'"
proof (induction fmt arbitrary: args p rule: length_induct)
  case (1 fmt)
  have IH: "grows q p'"
    if "length s < length fmt" "sqlite3_str_vappendf s as q = Some p'" "acc_ok q" "list_all arg_ok as" for s as q
    using 1(1) that by blast
  consider "fmt = []" | "fmt = ''%''" | c s where "fmt = c # s" "c \<noteq> CHR ''%''"
    | s where "fmt = CHR ''%'' # s" "s \<noteq> []"
    by (metis list.exhaust)
  then show ?case
  proof cases
    case (3 c s)
    let ?q = "sqlite3_str_append p (c # takeWhile (\<lambda>c. c \<noteq> CHR ''%'') s)"
    have q: "grows p ?q" using 1(2) by (rule append_grows)
    have "length (dropWhile (\<lambda>c. c \<noteq> CHR ''%'') s) < length fmt"
      using 3 by (simp add: less_Suc_eq_le length_dropWhile_le)
    from IH [OF this _ grows_ok [OF q] 1(3)] show ?thesis
      using 1(4) 3 grows_trans [OF q] by (simp add: vappendf_literal)
  next
    case (4 s)
    from 1(4) 4 obtain r fl as where sf: "scan_flags s no_flags args = Some (r, fl, as)"
      by (auto simp: vappendf_conversion split: option.splits)
    then have as: "list_all arg_ok as" "length r \<le> length s"
      using scan_flags_result [OF sf] 1(3) by (auto simp: list_all_iff)
    show ?thesis
    proof (cases "r = []")
      case True
      with 1(2,4) 4 sf show ?thesis by (auto simp: vappendf_conversion grows_refl)
    next
      case r: False
      with 1(4) 4 sf obtain st where st: "convert (hd r) fl as p = Some st"
        by (auto simp: vappendf_conversion split: option.splits)
      from convert_grows [OF 1(2) as(1) st] have g: "step_grows p as st" .
      show ?thesis
      proof (cases st)
        case (Stop q)
        with 1(4) 4 sf r st g show ?thesis by (simp add: vappendf_conversion step_grows_def)
      next
        case (Next q as')
        with g as(1) have q: "grows p q" "list_all arg_ok as'" by (auto simp: step_grows_def list_all_iff)
        have "length (tl r) < length fmt" using r as(2) 4(1) by (cases r) auto
        moreover have "sqlite3_str_vappendf (tl r) as' q = Some p'"
          using 1(4) 4 sf r st Next by (simp add: vappendf_conversion)
        ultimately show ?thesis using IH grows_ok [OF q(1)] q(2) grows_trans [OF q(1)] by blast
      qed
    qed
  qed (use 1(2,4) in \<open>auto simp: grows_refl append_grows\<close>)
qed


subsection \<open>With room\<close>

text \<open>The text of a field in its width.\<close>

definition padded :: "bool \<Rightarrow> int \<Rightarrow> string \<Rightarrow> string" where
  "padded left w t =
     (let s = replicate (nat (w - int (length t))) (CHR '' '') in if left then t @ s else s @ t)"

lemma append_room:
  "zText p = Some u \<Longrightarrow> int (length u + length t) < nAlloc p \<Longrightarrow>
    sqlite3_str_append p t = p\<lparr>zText := Some (u @ t)\<rparr>"
  by (auto simp: sqlite3_str_append_def nChar_def Let_def)

lemma appendchar_room:
  "zText p = Some u \<Longrightarrow> 0 \<le> N \<Longrightarrow> int (length u) + N < nAlloc p \<Longrightarrow>
    sqlite3_str_appendchar p N c = p\<lparr>zText := Some (u @ replicate (nat N) c)\<rparr>"
  by (simp add: sqlite3_str_appendchar_def nChar_def)

lemma emit_room:
  assumes "zText p = Some u" "int (length u) + max w (int (length t)) < nAlloc p"
  shows "emit p left w t = p\<lparr>zText := Some (u @ padded left w t)\<rparr>"
proof (cases "w > int (length t)")
  case True
  with assms have "int (length u + length t) < nAlloc p" "int (length u) + (w - int (length t)) < nAlloc p"
      "int (length u) + w < nAlloc p" by linarith+
  with True assms(1) show ?thesis
    by (simp add: emit_def padded_def Let_def append_room [where u = u] append_room appendchar_room)
next
  case False
  with assms show ?thesis by (simp add: emit_def padded_def Let_def append_room)
qed

subsection \<open>Integers read back\<close>

lemma decimal_digit: "0 \<le> d \<Longrightarrow> d < 10 \<Longrightarrow> isdigit (aDigits ! nat d) \<and> digit_of (aDigits ! nat d) = nat d"
proof -
  assume "0 \<le> d" "d < 10"
  then have "d \<in> set [0..9]" by simp
  moreover have "list_all (\<lambda>d. isdigit (aDigits ! nat d) \<and> digit_of (aDigits ! nat d) = nat d) [0..9]"
    by code_simp
  ultimately show ?thesis by (simp only: list_all_iff)
qed

lemma to_ascii_decimal:
  assumes "0 \<le> v"
  shows "\<exists>ds. to_ascii aDigits 10 v buf = ds @ buf \<and> list_all isdigit ds \<and> ds \<noteq> [] \<and>
    int (dec ds) = v \<and> (v < 10 ^ n \<longrightarrow> 0 < n \<longrightarrow> length ds \<le> n)"
  using assms
proof (induction "nat v" arbitrary: v buf n rule: less_induct)
  case less
  let ?c = "aDigits ! nat (v mod 10)"
  have c: "isdigit ?c" "int (digit_of ?c) = v mod 10" using decimal_digit [of "v mod 10"] by auto
  show ?case
  proof (cases "v div 10 > 0")
    case False
    then have "v < 10" using less(2) by linarith
    then have "v mod 10 = v" using less(2) by simp
    with False c show ?thesis
      by (intro exI [of _ "[?c]"]) (subst to_ascii.simps, auto)
  next
    case True
    then have "v div 10 < v" using less(2) by linarith
    then have "nat (v div 10) < nat v" using True by simp
    from less(1) [OF this, of "?c # buf" "n - 1"] True obtain ds where
      ds: "to_ascii aDigits 10 (v div 10) (?c # buf) = ds @ ?c # buf" "list_all isdigit ds" "ds \<noteq> []"
        "int (dec ds) = v div 10" "v div 10 < 10 ^ (n - 1) \<longrightarrow> 0 < n - 1 \<longrightarrow> length ds \<le> n - 1"
      by auto
    have "length (ds @ [?c]) \<le> n" if "v < 10 ^ n" "0 < n"
    proof (cases n)
      case (Suc m)
      have "v div 10 < 10 ^ m" using that(1) Suc by simp
      moreover have "0 < m" using True that(1) Suc by (cases m) auto
      ultimately show ?thesis using ds(5) Suc by simp
    qed (use that in simp)
    moreover have "int (dec (ds @ [?c])) = v" using ds(4) c(2) by (simp add: dec_append)
    ultimately show ?thesis using ds c True
      by (intro exI [of _ "ds @ [?c]"]) (subst to_ascii.simps, simp)
  qed
qed

lemma dec_replicate_zero: "dec (replicate k (CHR ''0'') @ ds) = dec ds"
  by (rule dec_zeros) (simp add: list_all_iff)

text \<open>What a signed decimal conversion gives: sign, zeros, digits.\<close>

definition d_info :: et_info where "d_info = et_entry (CHR ''d'', 10, 1, etDECIMAL, 0, 0)"

lemma lookup_d: "lookup_info (CHR ''d'') = Some d_info"
  by (simp add: lookup_info_def fmtinfo_def d_info_def)

lemma wrap64_in: "in_i64 v \<Longrightarrow> wrap64 v = v"
  by (simp add: wrap64_def signed_take_bit_int_eq_self_iff in_i64_def SMALLEST_INT64_def LARGEST_INT64_def)

lemma convert_d:
  assumes "flag_long fl = 2" "\<not> thousand fl" "width fl \<le> 36" "precision fl \<le> 36" "in_i64 v"
  obtains ds where "convert_int d_info etDECIMAL fl v p = (Some ((if v < 0 then ''-'' else prefix_flag fl) @ ds), p)"
    "list_all isdigit ds" "ds \<noteq> []" "int (dec ds) = \<bar>v\<bar>" "length ds \<le> 36"
proof -
  obtain ds where ds: "to_ascii aDigits 10 \<bar>v\<bar> [] = ds" "list_all isdigit ds" "ds \<noteq> []" "int (dec ds) = \<bar>v\<bar>"
      "\<bar>v\<bar> < 10 ^ 20 \<longrightarrow> length ds \<le> 20"
    using to_ascii_decimal [of "\<bar>v\<bar>" "[]" 20] by auto
  have v: "int_argument d_info fl v = (\<bar>v\<bar>, if v < 0 then ''-'' else prefix_flag fl)"
    using assms(1,5) by (auto simp: int_argument_def d_info_def FLAG_SIGNED_def wrap64_in SMALLEST_INT64_def LARGEST_INT64_def)
  let ?w = "width fl - (if (if v < 0 then ''-'' else prefix_flag fl) \<noteq> [] then 1 else 0)"
  let ?prec = "if zeropad fl \<and> precision fl < ?w then ?w else precision fl"
  let ?z = "replicate (nat (?prec - int (length ds))) (CHR ''0'') @ ds"
  have prec: "?prec \<le> 36" using assms(3,4) by simp
  have "convert_int d_info etDECIMAL fl v p = (Some ((if v < 0 then ''-'' else prefix_flag fl) @ ?z), p)"
    using prec ds(1) v assms(2) by (simp add: convert_int_def Let_def etBUFSIZE_def d_info_def cong: if_cong)
  moreover have "list_all isdigit (replicate k (CHR ''0'') @ ds)" for k
    using ds(2) by (auto simp: list_all_iff isdigit_code)
  moreover have "?z \<noteq> []" using ds(3) by simp
  moreover have "int (dec ?z) = \<bar>v\<bar>" using ds(4) by (simp add: dec_replicate_zero)
  moreover have "length ?z \<le> 36"
  proof -
    have "\<bar>v\<bar> < 10 ^ 20" using assms(5) by (auto simp: in_i64_def SMALLEST_INT64_def LARGEST_INT64_def)
    then show ?thesis using ds(5) prec by simp
  qed
  ultimately show ?thesis by (intro that)
qed

lemma scan_flags_prefix:
  "scan_flags s fl args = Some (r, fl', args') \<Longrightarrow> prefix_flag fl \<in> {[], ''+'', '' ''} \<Longrightarrow>
    prefix_flag fl' \<in> {[], ''+'', '' ''}"
proof (induction s arbitrary: fl args rule: length_induct)
  case (1 s)
  show ?case
  proof (cases s)
    case Nil
    with 1(2,3) show ?thesis by (auto simp: scan_flags.simps [of "[]"])
  next
    case (Cons c s1)
    have IH: "prefix_flag fl' \<in> {[], ''+'', '' ''}"
      if "scan_flags s2 f args'' = Some (r, fl', args')" "length s2 \<le> length s1"
        "prefix_flag f \<in> {[], ''+'', '' ''}" for s2 f args''
      using 1(1) that Cons by (metis length_Cons less_Suc_eq_le)
    have rd: "length y \<le> length s1" if "read_unsigned n s1 = (x, y)" for n x y
      using read_unsigned_length [of n s1] that by simp
    note step = 1(2) [unfolded scan_flags.simps [of s], simplified Cons list.sel Let_def]
    from step 1(3) show ?thesis
      by (auto split: if_splits list.splits printf_arg.splits prod.splits dest!: IH rd)
  qed
qed





subsection \<open>SQL literals\<close>

text \<open>An accumulator that has collected \<open>u\<close> and may allocate up to its limit.\<close>

definition collects :: "StrAccum \<Rightarrow> string \<Rightarrow> bool" where
  "collects p u \<longleftrightarrow> zText p = Some u \<and> accError p = 0 \<and> int (length u) < nAlloc p \<and> 0 < mxAlloc p \<and>
     (\<forall>k \<le> mxAlloc p. \<exists>m. mallocSize p k = Some m \<and> k \<le> m)"

lemma append_collects:
  assumes "collects p u" "int (length u + length t) + 1 \<le> mxAlloc p"
  shows "collects (sqlite3_str_append p t) (u @ t) \<and> mxAlloc (sqlite3_str_append p t) = mxAlloc p"
proof (cases "int (length u + length t) < nAlloc p")
  case True
  with assms show ?thesis by (auto simp: append_room collects_def)
next
  case False
  have nc: "nChar p = int (length u)" "text_of p = u" "accError p = 0" "mxAlloc p \<noteq> 0"
    using assms(1) by (simp_all add: collects_def nChar_def)
  define s where "s = (if int (length u) + int (length t) + 1 + int (length u) \<le> mxAlloc p
    then int (length u) + int (length t) + 1 + int (length u) else int (length u) + int (length t) + 1)"
  have s: "s \<le> mxAlloc p" "int (length u + length t) < s" using assms(2) by (auto simp: s_def)
  then obtain m where m: "mallocSize p s = Some m" "s \<le> m" using assms(1) by (auto simp: collects_def)
  have "sqlite3StrAccumEnlarge p (int (length t)) =
      (int (length t), p\<lparr>zText := Some u, nAlloc := m, isMalloced := True\<rparr>)"
    using m s unfolding sqlite3StrAccumEnlarge_def Let_def nc s_def [symmetric] by simp
  then show ?thesis using False assms s m
    by (auto simp: sqlite3_str_append_def enlargeAndAppend_def Let_def collects_def nChar_def)
qed

lemma double_quotes_doubled: "double_quotes q z = doubled q z"
  by (induction z) simp_all

lemma doubled_length: "length (doubled q z) = length z + length (filter (\<lambda>c. c = q) z)"
  by (induction z) simp_all

lemma escape_scan_all:
  "CHR 0x00 \<notin> set z \<Longrightarrow> k < 0 \<Longrightarrow>
    escape_scan False q k z n = ([], n + int (length (filter (\<lambda>c. c = q) z)))"
  by (induction z arbitrary: k n) (auto simp: escape_scan.simps Let_def)

definition Q_info :: et_info where "Q_info = et_entry (CHR ''Q'', 0, 4, etSQLESCAPE2, 0, 0)"

lemma lookup_Q: "lookup_info (CHR ''Q'') = Some Q_info"
  by (simp add: lookup_info_def fmtinfo_def Q_info_def)

lemma no_flags_simps: "width no_flags = 0" "precision no_flags = - 1" "\<not> altform2 no_flags"
  by (simp_all add: no_flags_def)

lemma scan_flags_Q: "scan_flags (CHR ''Q'' # s) no_flags args = Some (CHR ''Q'' # s, no_flags, args)"
  by (simp add: scan_flags.simps)

lemma wrap_int_in: "- (2 ^ 31) \<le> x \<Longrightarrow> x < 2 ^ 31 \<Longrightarrow> wrap_int x = x"
  by (simp add: wrap_int_def)

lemma convert_Q:
  assumes "collects p u" "CHR 0x00 \<notin> set z" "int (length (quoted CHR 0x27 z)) + 1 \<le> mxAlloc p"
    and "mxAlloc p < 2 ^ 31"
  shows "convert_escape etSQLESCAPE2 no_flags (Some z) p = Some (Some (quoted CHR 0x27 z), p)"
proof -
  let ?n = "int (length (filter (\<lambda>c. c = CHR 0x27) z)) + int (length z) + 3"
  have len: "int (length (quoted CHR 0x27 z)) + 1 = ?n" by (simp add: quoted_def closing_def doubled_length)
  then have wrap: "wrap_int ?n = ?n" using assms(3,4) by (intro wrap_int_in) auto
  have "printfTempBuf p ?n = (True, p)" using assms(1,3) len
    by (auto simp: printfTempBuf_def collects_def)
  with len wrap assms(2) show ?thesis
    by (simp add: convert_escape_def no_flags_def escape_scan_all Let_def double_quotes_doubled
        quoted_def closing_def etBUFSIZE_def)
qed

lemma no_percent: "CHR ''%'' \<notin> set t \<Longrightarrow> c \<noteq> CHR ''%'' \<Longrightarrow>
    sqlite3_str_vappendf (c # t @ CHR ''%'' # s) args p =
      sqlite3_str_vappendf (CHR ''%'' # s) args (sqlite3_str_append p (c # t)) \<and>
    sqlite3_str_vappendf (c # t) args p = Some (sqlite3_str_append p (c # t))"
proof -
  assume c: "CHR ''%'' \<notin> set t" "c \<noteq> CHR ''%''"
  then have t: "x \<noteq> CHR ''%''" if "x \<in> set t" for x using that by auto
  have tw: "takeWhile (\<lambda>c. c \<noteq> CHR ''%'') (t @ CHR ''%'' # s) = t" "dropWhile (\<lambda>c. c \<noteq> CHR ''%'') (t @ CHR ''%'' # s) = CHR ''%'' # s"
    "takeWhile (\<lambda>c. c \<noteq> CHR ''%'') t = t" "dropWhile (\<lambda>c. c \<noteq> CHR ''%'') t = []"
    using t by (simp_all add: takeWhile_append2 dropWhile_append2 takeWhile_eq_all_conv)
  show ?thesis unfolding vappendf_literal [OF c(2)] tw by simp
qed

lemma vappendf_append:
  assumes "collects p u" "CHR ''%'' \<notin> set t" "int (length u + length t) + 1 \<le> mxAlloc p"
  obtains q where "collects q (u @ t)" "mxAlloc q = mxAlloc p"
    "\<And>s args. sqlite3_str_vappendf (t @ CHR ''%'' # s) args p = sqlite3_str_vappendf (CHR ''%'' # s) args q"
    "\<And>args. sqlite3_str_vappendf t args p = Some q"
proof (cases t)
  case Nil
  with that [of p] assms show ?thesis by simp
next
  case (Cons c t')
  with assms append_collects [OF assms(1,3)] no_percent [of t' c] show ?thesis
    by (intro that [of "sqlite3_str_append p t"]) auto
qed

text \<open>C38: A text built with \<open>%Q\<close> holds the argument as an SQL literal, between the
  texts around it: in quotes, with the quotes inside doubled, and \<open>sqlite3Dequote\<close> gives
  the argument back.\<close>

theorem printf_Q_dequotes:
  assumes "CHR 0x00 \<notin> set z" "CHR ''%'' \<notin> set pre" "CHR ''%'' \<notin> set post"
    and "int (length (pre @ quoted CHR 0x27 z @ post)) < SQLITE_MAX_LENGTH"
    and "\<forall>k \<le> SQLITE_MAX_LENGTH. \<exists>m. f k = Some m \<and> k \<le> m"
  shows "sqlite3_mprintf f (pre @ ''%Q'' @ post) [AText (Some z)] = Some (Some (pre @ quoted CHR 0x27 z @ post)) \<and>
    (\<exists>d. sqlite3Dequote (quoted CHR 0x27 z) = Inr d \<and> c_str d = z)"
proof
  let ?p = "sqlite3StrAccumInit f (Some []) etBUFSIZE SQLITE_MAX_LENGTH"
  have p: "collects ?p []" "mxAlloc ?p = SQLITE_MAX_LENGTH" using assms(5)
    by (auto simp: collects_def sqlite3StrAccumInit_def etBUFSIZE_def SQLITE_MAX_LENGTH_def)
  have len: "int (length pre) + int (length (quoted CHR 0x27 z)) + int (length post) < SQLITE_MAX_LENGTH"
    using assms(4) by simp
  obtain q where q: "collects q pre" "mxAlloc q = SQLITE_MAX_LENGTH"
    "\<And>s args. sqlite3_str_vappendf (pre @ CHR ''%'' # s) args ?p = sqlite3_str_vappendf (CHR ''%'' # s) args q"
    by (rule vappendf_append [OF p(1) assms(2)]) (use len p(2) in auto)
  have c: "convert_escape etSQLESCAPE2 no_flags (Some z) q = Some (Some (quoted CHR 0x27 z), q)"
    using convert_Q [OF q(1) assms(1)] len q(2) by (simp add: SQLITE_MAX_LENGTH_def)
  let ?r = "sqlite3_str_append q (quoted CHR 0x27 z)"
  have r: "collects ?r (pre @ quoted CHR 0x27 z)" "mxAlloc ?r = SQLITE_MAX_LENGTH"
    using append_collects [OF q(1), of "quoted CHR 0x27 z"] q(2) len by auto
  obtain e where e: "collects e (pre @ quoted CHR 0x27 z @ post)" "mxAlloc e = SQLITE_MAX_LENGTH"
    "sqlite3_str_vappendf post [] ?r = Some e"
    by (rule vappendf_append [OF r(1) assms(3)]) (use len r(2) in auto)
  have "sqlite3_str_vappendf (CHR ''%'' # CHR ''Q'' # post) [AText (Some z)] q = Some e"
    using c e(3) by (simp add: vappendf_conversion scan_flags_Q convert_def lookup_Q Q_info_def emit_field_def
        adjust_width_def no_flags_simps emit_def)
  then have "sqlite3_str_vappendf (pre @ ''%Q'' @ post) [AText (Some z)] ?p = Some e"
    using q(3) [of "CHR ''Q'' # post"] by simp
  moreover have "sqlite3StrAccumFinish e = Some (pre @ quoted CHR 0x27 z @ post)"
    using e(1,2) len unfolding collects_def sqlite3StrAccumFinish_def nChar_def
    by (auto dest!: spec [of _ "int (length (pre @ quoted CHR 0x27 z @ post)) + 1"])
  ultimately show "sqlite3_mprintf f (pre @ ''%Q'' @ post) [AText (Some z)] = Some (Some (pre @ quoted CHR 0x27 z @ post))"
    by (simp add: sqlite3_mprintf_def)
  show "\<exists>d. sqlite3Dequote (quoted CHR 0x27 z) = Inr d \<and> c_str d = z"
    using assms(1) by (rule dequote_quoted) simp
qed

theorem printf_Q_dequotes_witness:
  "sqlite3_mprintf Some ''SELECT %Q;'' [AText (Some [CHR ''a'', CHR 0x27])] =
    Some (Some (''SELECT '' @ quoted CHR 0x27 [CHR ''a'', CHR 0x27] @ '';'')) \<and>
   (\<exists>d. sqlite3Dequote (quoted CHR 0x27 [CHR ''a'', CHR 0x27]) = Inr d \<and> c_str d = [CHR ''a'', CHR 0x27])"
proof -
  have eq: "''SELECT %Q;'' = ''SELECT '' @ ''%Q'' @ '';''" by simp
  show ?thesis unfolding eq
    by (rule printf_Q_dequotes) (simp_all add: quoted_def closing_def SQLITE_MAX_LENGTH_def)
qed

text \<open>
  The size of the buffer of an escaped text is computed in an \<^verbatim>\<open>int\<close>: for a text of
  2^30 quotes and more it wraps to a negative number, no buffer is allocated, and the text
  is written behind the 70 bytes on the stack.
\<close>

theorem escape_size_overflows:
  assumes "2 ^ 31 \<le> 2 * int k + 3" "2 * int k + 3 < 2 ^ 32"
  shows "sqlite3_mprintf f ''%Q'' [AText (Some (replicate k CHR 0x27))] = None"
proof -
  let ?z = "replicate k CHR 0x27"
  have "escape_scan False CHR 0x27 (- 1) ?z 0 = ([], int k)"
    using escape_scan_all [of ?z "- 1" "CHR 0x27" 0] by simp
  moreover have "wrap_int (int k + int k + 3) = 2 * int k + 3 - 2 ^ 32"
  proof -
    let ?a = "int k + int k + 3 + 2 ^ 31"
    have "?a mod 2 ^ 32 = (?a - 2 ^ 32) mod 2 ^ 32" by (rule minus_mod_self2 [symmetric])
    also have "\<dots> = ?a - 2 ^ 32" using assms by (intro mod_pos_pos_trivial) auto
    finally show ?thesis by (simp add: wrap_int_def)
  qed
  moreover have "length (doubled CHR 0x27 ?z) = k + k" by (simp add: doubled_length)
  ultimately have "convert_escape etSQLESCAPE2 no_flags (Some ?z) p = None" for p
    using assms by (simp add: convert_escape_def no_flags_simps Let_def double_quotes_doubled etBUFSIZE_def)
  then show ?thesis
    using vappendf_conversion [of "''Q''" "[AText (Some ?z)]"]
    by (simp add: sqlite3_mprintf_def scan_flags_Q convert_def lookup_Q Q_info_def)
qed

subsection \<open>The loops of the floating-point conversion end\<close>

text \<open>A factor above two is more than a doubling, rounded.\<close>

lemma ext_mul_lower:
  assumes "2 powi (- 1100) \<le> x" "2 powi 3 \<le> c"
  shows "ext_mul (Fin x) (Fin c) = PInf \<or> (\<exists>r. ext_mul (Fin x) (Fin c) = Fin r \<and> 4 * x \<le> r)"
proof -
  have x: "0 < x" using less_le_trans [OF zero_less_power_int assms(1)] by simp
  have "x * 8 \<le> x * c" using x assms(2) by (intro mult_left_mono) auto
  then have xc: "8 * x \<le> x * c" by simp
  have "2 powi (- 16382) \<le> (2 powi (- 1100) :: rat)" by (rule power_int_increasing) simp_all
  then have "2 powi (- 16382) \<le> x * c" using assms(1) xc x by linarith
  from round80_lower [OF this] have
    "round80 (x * c) = PInf \<or> (\<exists>r. round80 (x * c) = Fin r \<and> x * c * (1 - 1 / 2 ^ 64) \<le> r)" .
  moreover have "4 * x \<le> x * c * (1 - 1 / 2 ^ 64)"
  proof -
    have "8 * x * (1 / 2) \<le> x * c * (1 - 1 / 2 ^ 64)"       by (rule mult_mono) (use xc x assms(2) in auto)
    then show ?thesis by simp
  qed
  moreover have "ext_mul (Fin x) (Fin c) = round80 (x * c)"
    using x assms(2) by (auto simp: ext_mul_def mul_with_def Let_def)
  ultimately show ?thesis by force
qed

lemma scale_down_returns:
  assumes "2 powi 3 \<le> c" "2 powi (- 1100) \<le> x" "b < 4 ^ f * x"
  shows "\<exists>v ex'. scale_down f (Fin b) (Fin c) k (Fin x) ex = Some (v, ex') \<and> \<not> fp_less v (Fin b) \<and> v \<noteq> NInf \<and>
    (v = PInf \<or> (\<exists>y. v = Fin y \<and> x \<le> y))"
  using assms(2,3)
proof (induction f arbitrary: x ex)
  case 0
  then show ?case by simp
next
  case (Suc f)
  have x: "0 < x" using less_le_trans [OF zero_less_power_int Suc(2)] by simp
  show ?case
  proof (cases "x < b")
    case True
    from ext_mul_lower [OF Suc(2) assms(1)] show ?thesis
    proof
      assume "ext_mul (Fin x) (Fin c) = PInf"
      with True show ?thesis by (cases f) auto
    next
      assume "\<exists>r. ext_mul (Fin x) (Fin c) = Fin r \<and> 4 * x \<le> r"
      then obtain r where r: "ext_mul (Fin x) (Fin c) = Fin r" "4 * x \<le> r" by blast
      have "4 ^ f * (4 * x) \<le> 4 ^ f * r" using r(2) by (intro mult_left_mono) auto
      moreover have "b < 4 ^ f * (4 * x)" using Suc(3) by (simp add: mult.assoc mult.left_commute)
      ultimately have "b < 4 ^ f * r" by linarith
      moreover have "2 powi (- 1100) \<le> r" using Suc(2) r(2) x by linarith
      ultimately show ?thesis using Suc(1) [of r "ex - k"] True r x by fastforce
    qed
  qed auto
qed

text \<open>The scale that is found stays between 1 and the value.\<close>

definition scale_ok :: "rat \<Rightarrow> fp \<Rightarrow> bool" where
  "scale_ok x scale \<longleftrightarrow> (\<exists>s. scale = Fin s \<and> 1 \<le> s \<and> (s = 1 \<or> s \<le> x))"

lemma scale_up_ok:
  "2 powi 3 \<le> c \<Longrightarrow> scale_ok x scale \<Longrightarrow> scale_ok x (fst (scale_up (Fin c) k (Fin x) scale ex))"
proof (induction "Fin c" k "Fin x" scale ex rule: scale_up.induct)
  case (1 k scale ex)
  show ?case
  proof (cases "fp_le (ext_mul (Fin c) scale) (Fin x) \<and> ex \<le> 350 \<and> 0 < k")
    case True
    from 1(3) obtain s where s: "scale = Fin s" "1 \<le> s" by (auto simp: scale_ok_def)
    have "(2 :: rat) powi (- 1100) \<le> 2 powi 0" by (rule power_int_increasing) simp_all
    then have "2 powi (- 1100) \<le> s" using s(2) by simp
    moreover have "ext_mul (Fin c) (Fin s) = ext_mul (Fin s) (Fin c)"
      by (auto simp: ext_mul_def mul_with_def Let_def mult.commute)
    ultimately have "\<exists>r. ext_mul scale (Fin c) = Fin r \<and> 4 * s \<le> r \<and> r \<le> x"
      using ext_mul_lower [of s c] 1(2) True s by (auto simp: fp_le_def)
    with s(2) have "scale_ok x (ext_mul scale (Fin c))" by (auto simp: scale_ok_def)
    with 1(1) [OF True 1(2)] True show ?thesis by (subst scale_up.simps) auto
  next
    case False
    then show ?thesis using 1(3) by (subst scale_up.simps) auto
  qed
qed

lemma dbl_lit_10: "dbl_lit (10 ^ 10) = Fin (10 ^ 10)" "dbl_lit (10 ^ 8) = Fin (10 ^ 8)"
  unfolding dbl_lit_def using round64_int [of "10 ^ 10"] round64_int [of "10 ^ 8"] by simp_all

lemma dbl_lit_range:
  "\<exists>c. dbl_lit (10 ^ 100) = Fin c \<and> 2 powi 3 \<le> c"
  "\<exists>b. dbl_lit (1 / 10 ^ 8) = Fin b \<and> b < 1 \<and> 2 powi (- 30) \<le> b"
proof -
  have fin: "\<exists>c. a = Fin c \<and> c = fp_rat a" if "finite_fp a" "fp_rat a \<noteq> 0" for a
    using that by (cases a) auto
  have "\<bar>10 ^ 100 :: rat\<bar> < 2 powi 333" by simp
  from round64_error [OF this] have
    c: "finite_fp (round64 (10 ^ 100))" "\<bar>fp_rat (round64 (10 ^ 100)) - 10 ^ 100\<bar> \<le> 2 powi (333 - 53) / 2"
    by auto
  from c(2) have "10 ^ 100 - 2 powi (333 - 53) / 2 \<le> fp_rat (round64 (10 ^ 100))" by (simp only: abs_le_iff) linarith
  moreover have "(8 :: rat) \<le> 10 ^ 100 - 2 powi (333 - 53) / 2" by simp
  ultimately have "8 \<le> fp_rat (round64 (10 ^ 100))" by linarith
  with fin [OF c(1)] show "\<exists>c. dbl_lit (10 ^ 100) = Fin c \<and> 2 powi 3 \<le> c" unfolding dbl_lit_def by auto
  have "\<bar>1 / 10 ^ 8 :: rat\<bar> < 2 powi (- 26)" by (simp add: power_int_minus)
  from round64_error [OF this] have
    b: "finite_fp (round64 (1 / 10 ^ 8))" "\<bar>fp_rat (round64 (1 / 10 ^ 8)) - 1 / 10 ^ 8\<bar> \<le> 2 powi (- 79) / 2"
    by auto
  from b(2) have "1 / 10 ^ 8 - 2 powi (- 79) / 2 \<le> fp_rat (round64 (1 / 10 ^ 8))"
    "fp_rat (round64 (1 / 10 ^ 8)) \<le> 1 / 10 ^ 8 + 2 powi (- 79) / 2"
    by (simp_all only: abs_le_iff) linarith+
  moreover have "(2 :: rat) powi (- 30) \<le> 1 / 10 ^ 8 - 2 powi (- 79) / 2" "(1 / 10 ^ 8 :: rat) + 2 powi (- 79) / 2 < 1"
    by (simp_all add: power_int_minus)
  moreover have "(0 :: rat) < 2 powi (- 30)" by simp
  ultimately have "2 powi (- 30) \<le> fp_rat (round64 (1 / 10 ^ 8))" "fp_rat (round64 (1 / 10 ^ 8)) < 1"
    "fp_rat (round64 (1 / 10 ^ 8)) \<noteq> 0" by linarith+
  with fin [OF b(1)] show "\<exists>b. dbl_lit (1 / 10 ^ 8) = Fin b \<and> b < 1 \<and> 2 powi (- 30) \<le> b"
    unfolding dbl_lit_def by auto
qed

lemma normalize_returns:
  assumes "2 powi (- 1080) \<le> x"
  shows "normalize (Fin x) \<noteq> None"
proof -
  obtain c where c: "dbl_lit (10 ^ 100) = Fin c" "2 powi 3 \<le> c" using dbl_lit_range(1) by blast
  obtain b where b: "dbl_lit (1 / 10 ^ 8) = Fin b" "b < 1" "2 powi (- 30) \<le> b" using dbl_lit_range(2) by blast
  define r1 where "r1 = scale_up (Fin c) 100 (Fin x) (Fin 1) 0"
  define r2 where "r2 = scale_up (Fin (10 ^ 10)) 10 (Fin x) (fst r1) (snd r1)"
  define r3 where "r3 = scale_up (Fin 10) 1 (Fin x) (fst r2) (snd r2)"
  have "scale_ok x (fst r3)" unfolding r3_def r2_def r1_def
    by (intro scale_up_ok c(2)) (simp_all add: scale_ok_def)
  then obtain s where s: "fst r3 = Fin s" "1 \<le> s" "s = 1 \<or> s \<le> x" by (auto simp: scale_ok_def)
  have n: "normalize (Fin x) =
      (case scale_down 600 (Fin b) (Fin (10 ^ 8)) 8 (ext_div (Fin x) (Fin s)) (snd r3) of
         None \<Rightarrow> None | Some (v, ex) \<Rightarrow> scale_down 64 (Fin 1) (Fin 10) 1 v ex)"
    unfolding normalize_def Let_def c(1) b(1) dbl_lit_10 r3_def r2_def r1_def [symmetric]
    using s(1) by (simp add: split_beta r3_def r2_def)
  have xp: "0 < x" using less_le_trans [OF zero_less_power_int assms] by simp
  have "(2 :: rat) powi (- 1080) \<le> 2 powi 0" by (rule power_int_increasing) simp_all
  then have q: "2 powi (- 1080) \<le> x / s" using s(2,3) assms xp by (auto simp: field_simps)
  have "2 powi (- 16382) \<le> (2 powi (- 1080) :: rat)" by (rule power_int_increasing) simp_all
  from round80_lower [OF order_trans [OF this q]] have
    "round80 (x / s) = PInf \<or> (\<exists>r. round80 (x / s) = Fin r \<and> x / s * (1 - 1 / 2 ^ 64) \<le> r)" .
  moreover have "2 powi (- 1081) \<le> x / s * (1 - 1 / 2 ^ 64)"
  proof -
    have "2 powi (- 1080) * (1 / 2) \<le> x / s * (1 - 1 / 2 ^ 64)"
      by (rule mult_mono [OF q]) (use xp s(2) in auto)
    moreover have "(2 :: rat) powi (- 1081) = 2 powi (- 1080 + - 1)" by simp
    moreover have "\<dots> = 2 powi (- 1080) * (1 / 2)" by (subst power_int_add) simp_all
    ultimately show ?thesis by linarith
  qed
  moreover have "ext_div (Fin x) (Fin s) = round80 (x / s)"
    using xp s(2) by (auto simp: ext_div_def div_with_def Let_def)
  ultimately consider "ext_div (Fin x) (Fin s) = PInf"
    | y where "ext_div (Fin x) (Fin s) = Fin y" "2 powi (- 1081) \<le> y" by force
  then show ?thesis
  proof cases
    case 1
    then show ?thesis using n by (simp add: numeral_eq_Suc)
  next
    case (2 y)
    have small: "2 powi (- 1100) \<le> (2 powi (- 1081) :: rat)" "2 powi (- 1100) \<le> (2 powi (- 30) :: rat)"
      by (rule power_int_increasing; simp)+
    have "(1 :: rat) = 2 powi 0" by simp
    also have "\<dots> \<le> 2 powi (1200 + - 1081)" by (rule power_int_increasing) simp_all
    also have "\<dots> = 2 powi 1200 * 2 powi (- 1081)" by (rule power_int_add) simp
    also have "\<dots> = 4 ^ 600 * 2 powi (- 1081)"
    proof -
      have "(2 :: rat) powi 1200 = (2 ^ 2) ^ 600" unfolding power_mult [symmetric] by simp
      then show ?thesis by simp
    qed
    also have "\<dots> \<le> 4 ^ 600 * y" using 2(2) by (intro mult_left_mono) auto
    finally have "b < 4 ^ 600 * y" using b(2) by linarith
    with scale_down_returns [of "10 ^ 8" y b 600 8 "snd r3"] 2(2) small obtain v ex' where
      v: "scale_down 600 (Fin b) (Fin (10 ^ 8)) 8 (Fin y) (snd r3) = Some (v, ex')" "\<not> fp_less v (Fin b)"
        "v = PInf \<or> (\<exists>y. v = Fin y)" by force
    from v(3) show ?thesis
    proof
      assume "v = PInf"
      then show ?thesis using n v(1) 2(1) by (simp add: numeral_eq_Suc)
    next
      assume "\<exists>y. v = Fin y"
      then obtain w where w: "v = Fin w" by blast
      with v(2) b(3) small(2) have wl: "2 powi (- 1100) \<le> w" "2 powi (- 30) \<le> w" by auto
      have "(1 :: rat) < 4 ^ 64 * 2 powi (- 30)" by (simp add: power_int_minus)
      also have "\<dots> \<le> 4 ^ 64 * w" using wl(2) by (intro mult_left_mono) auto
      finally show ?thesis using scale_down_returns [of 10 w 1 64 1 ex'] wl(1) n v(1) w 2(1) by force
    qed
  qed
qed

text \<open>Values that are not negative: of the extended format, and of \<^verbatim>\<open>double\<close>.\<close>

fun not_negative :: "fp \<Rightarrow> bool" where
  "not_negative NInf = False"
| "not_negative (Fin x) = (0 \<le> x)"
| "not_negative _ = True"

definition is_dbl :: "fp \<Rightarrow> bool" where
  "is_dbl a \<longleftrightarrow> (\<forall>x. a = Fin x \<longrightarrow> x \<noteq> 0 \<longrightarrow> 2 powi (- 1074) \<le> \<bar>x\<bar>)"

lemma round_to_not_negative: "0 \<le> x \<Longrightarrow> not_negative (round_to p emin emax x)"
  using round_half_even_nonneg [of "x / ulp_of p emin x"] ulp_of_pos [of p emin x]
  by (auto simp: round_to_def Let_def signed_inf_def signed_zero_def intro!: mult_nonneg_nonneg
      simp del: ulp_of_pos)

lemma round_not_negative: "0 \<le> x \<Longrightarrow> not_negative (round64 x)" "0 \<le> x \<Longrightarrow> not_negative (round80 x)"
  by (simp_all add: round64_def round80_def round_to_not_negative)

lemma not_negative_facts:
  "not_negative a \<Longrightarrow> 0 \<le> fp_rat a" "not_negative a \<Longrightarrow> fp_neg a \<Longrightarrow> a = NZero" "not_negative a \<Longrightarrow> is_inf a \<Longrightarrow> a = PInf"
  by (cases a; auto)+

lemma not_negative_signed [simp]: "not_negative (signed_zero n)" "not_negative PInf" "not_negative NaN"
  by (simp_all add: signed_zero_def)

lemma op_not_negative:
  assumes "not_negative a" "not_negative b" "\<And>x. 0 \<le> x \<Longrightarrow> not_negative (rnd x)"
  shows "not_negative (add_with rnd a b)" "not_negative (mul_with rnd a b)"
  using assms not_negative_facts [OF assms(1)] not_negative_facts [OF assms(2)]
  by (auto simp: add_with_def mul_with_def Let_def signed_inf_def)

lemma to_double_not_negative: "not_negative a \<Longrightarrow> not_negative (to_double a)"
  by (cases a) (simp_all add: round_not_negative)

lemma is_dbl_round: "not_negative (round64 x) \<Longrightarrow> is_dbl (round64 x)"
  using round64_smallest [of x] by (cases "round64 x") (auto simp: is_dbl_def)

lemma is_dbl_others [simp]: "is_dbl NZero" "is_dbl PInf" "is_dbl NInf" "is_dbl NaN" "is_dbl (signed_zero n)"
    "is_dbl (signed_inf n)"
  by (simp_all add: is_dbl_def signed_zero_def signed_inf_def)

lemma is_dbl_mul:
  assumes "not_negative a" "not_negative b"
  shows "is_dbl (dbl_mul a b)"
  using not_negative_facts(1) [OF assms(1)] not_negative_facts(1) [OF assms(2)]
  by (simp add: dbl_mul_def mul_with_def Let_def is_dbl_round round_not_negative)

lemma rounder_loop_dbl: "not_negative r \<Longrightarrow> is_dbl r \<Longrightarrow> not_negative (rounder_loop n r) \<and> is_dbl (rounder_loop n r)"
proof (induction n arbitrary: r)
  case (Suc n)
  have "not_negative (dbl_lit (1 / 10 ^ 10))" by (simp add: dbl_lit_def round_not_negative)
  with Suc show ?case
    by (auto simp: dbl_mul_def op_not_negative round_not_negative is_dbl_mul [unfolded dbl_mul_def])
qed simp

lemma rounder_of_dbl: "not_negative (rounder_of prec) \<and> is_dbl (rounder_of prec)"
  unfolding rounder_of_def Let_def
  by (rule rounder_loop_dbl) (simp_all add: arRound_def dbl_lit_def round_not_negative is_dbl_round)

lemma to_double_dbl: "not_negative a \<Longrightarrow> is_dbl (to_double a)"
  by (cases a) (auto simp: is_dbl_round round_not_negative)

text \<open>The value to be normalized: zero, not finite, or above the range of the loops.\<close>

lemma ext_add_range:
  assumes "not_negative a" "not_negative b" "is_dbl a" "is_dbl b" "ext_add a b = Fin x" "0 < x"
  shows "2 powi (- 1080) \<le> x"
proof -
  have nn: "0 \<le> fp_rat a" "0 \<le> fp_rat b" using assms(1,2) by (simp_all add: not_negative_facts)
  have eq: "round80 (fp_rat a + fp_rat b) = Fin x"
    using assms(1,2,5) by (auto simp: ext_add_def add_with_def split: if_splits)
  have "fp_rat a + fp_rat b \<noteq> 0"
  proof
    assume "fp_rat a + fp_rat b = 0"
    with eq assms(6) show False by (simp add: round80_def round_to_def)
  qed
  then have "0 < fp_rat a \<or> 0 < fp_rat b" using nn by linarith
  then have "2 powi (- 1074) \<le> fp_rat a + fp_rat b"
    using assms(3,4) nn by (cases a; cases b) (auto simp: is_dbl_def)
  moreover have "(2 :: rat) powi (- 16382) \<le> 2 powi (- 1074)" by (rule power_int_increasing) simp_all
  ultimately have "2 powi (- 16382) \<le> fp_rat a + fp_rat b" by (rule order_trans [rotated])
  from round80_lower [OF this] have "(fp_rat a + fp_rat b) * (1 - 1 / 2 ^ 64) \<le> x"
    unfolding eq by auto
  moreover have "2 powi (- 1080) \<le> (fp_rat a + fp_rat b) * (1 - 1 / 2 ^ 64)"
  proof -
    have "2 powi (- 1074) * (1 / 2) \<le> (fp_rat a + fp_rat b) * (1 - 1 / 2 ^ 64)"
      by (rule mult_mono) (use \<open>2 powi (- 1074) \<le> fp_rat a + fp_rat b\<close> nn in auto)
    moreover have "(2 :: rat) powi (- 1075) = 2 powi (- 1074 + - 1)" by simp
    moreover have "\<dots> = 2 powi (- 1074) * (1 / 2)" by (subst power_int_add) simp_all
    moreover have "(2 :: rat) powi (- 1080) \<le> 2 powi (- 1075)" by (rule power_int_increasing) simp_all
    ultimately show ?thesis by linarith
  qed
  ultimately show ?thesis by linarith
qed

lemma is_dbl_negate: "is_dbl a \<Longrightarrow> is_dbl (negate a)"
  by (cases a) (auto simp: is_dbl_def)

text \<open>An infinite value: the scale is at least one, and the quotient is not below any bound.\<close>

definition scale_big :: "fp \<Rightarrow> bool" where
  "scale_big a \<longleftrightarrow> a = PInf \<or> (\<exists>s. a = Fin s \<and> 1 \<le> s)"

lemma scale_up_big: "2 powi 3 \<le> c \<Longrightarrow> scale_big scale \<Longrightarrow> scale_big (fst (scale_up (Fin c) k v scale ex))"
proof (induction "Fin c" k v scale ex rule: scale_up.induct)
  case (1 k v scale ex)
  have "(2 :: rat) powi (- 1100) \<le> 2 powi 0" by (rule power_int_increasing) simp_all
  then have one: "2 powi (- 1100) \<le> (1 :: rat)" by simp
  have "scale_big (ext_mul scale (Fin c))"
  proof (cases "scale = PInf")
    case True
    then show ?thesis using 1(2) by (simp add: scale_big_def ext_mul_def mul_with_def Let_def signed_inf_def)
  next
    case False
    with 1(3) obtain s where "scale = Fin s" "1 \<le> s" by (auto simp: scale_big_def)
    with ext_mul_lower [of s c] 1(2) one show ?thesis by (force simp: scale_big_def)
  qed
  with 1 show ?case by (subst scale_up.simps) auto
qed

lemma normalize_infinite: "normalize PInf \<noteq> None"
proof -
  obtain c where c: "dbl_lit (10 ^ 100) = Fin c" "2 powi 3 \<le> c" using dbl_lit_range(1) by blast
  define r1 where "r1 = scale_up (Fin c) 100 PInf (Fin 1) 0"
  define r2 where "r2 = scale_up (Fin (10 ^ 10)) 10 PInf (fst r1) (snd r1)"
  define r3 where "r3 = scale_up (Fin 10) 1 PInf (fst r2) (snd r2)"
  have "scale_big (fst r3)" unfolding r3_def r2_def r1_def
    by (intro scale_up_big c(2)) (simp_all add: scale_big_def)
  then have d: "ext_div PInf (fst r3) = PInf \<or> ext_div PInf (fst r3) = NaN"
    by (auto simp: scale_big_def ext_div_def div_with_def Let_def signed_inf_def)
  have "normalize PInf =
      (case scale_down 600 (dbl_lit (1 / 10 ^ 8)) (Fin (10 ^ 8)) 8 (ext_div PInf (fst r3)) (snd r3) of
         None \<Rightarrow> None | Some (v, ex) \<Rightarrow> scale_down 64 (Fin 1) (Fin 10) 1 v ex)"
    unfolding normalize_def Let_def c(1) dbl_lit_10 r1_def [symmetric] by (simp add: split_beta r2_def r3_def)
  moreover have "scale_down (Suc f) b c' k v ex = Some (v, ex)" if "v = PInf \<or> v = NaN" for f b c' k v ex
    using that by (cases b) auto
  ultimately show ?thesis using d by (simp add: numeral_eq_Suc)
qed

lemma magnitude_not_negative: "not_negative (if fp_less a (Fin 0) then negate a else a)"
  by (cases a) auto

text \<open>Every conversion of a \<^verbatim>\<open>double\<close> ends, with a text or with the error of its buffer.\<close>

lemma float_prepare_value:
  assumes "is_dbl a" "float_prepare xtype fl a = (prefix, prec, rounder, Fin x)" "0 < x"
  shows "2 powi (- 1080) \<le> x"
proof -
  define w where "w = (if fp_less a (Fin 0) then negate a else a)"
  have w: "not_negative w" unfolding w_def by (rule magnitude_not_negative)
  have wd: "is_dbl w" unfolding w_def using assms(1) by (simp add: is_dbl_negate)
  define l where "l = dbl_lit (3 / 10 ^ 16)"
  have lit: "not_negative l" by (simp add: l_def dbl_lit_def round_not_negative)
  have r: "not_negative (rounder_of n)" "is_dbl (rounder_of n)" for n using rounder_of_dbl by auto
  have "not_negative (ext_add (rounder_of n) (ext_mul w l))" for n
    using op_not_negative [OF _ _ round_not_negative(2)] w r lit by (simp add: ext_add_def ext_mul_def)
  note rounder = to_double_not_negative [OF this] to_double_dbl [OF this]
  have "not_negative rounder \<and> is_dbl rounder" "Fin x = w \<or> Fin x = ext_add w rounder"
    using assms(2) unfolding float_prepare_def Let_def w_def [symmetric] l_def [symmetric]
    by (auto simp: r rounder split: if_splits)
  then have "Fin x = w \<or> (\<exists>r. not_negative r \<and> is_dbl r \<and> Fin x = ext_add w r)" by blast
  then show ?thesis
  proof
    assume "Fin x = w"
    then have "2 powi (- 1074) \<le> x" using wd assms(3) by (auto simp: is_dbl_def)
    moreover have "(2 :: rat) powi (- 1080) \<le> 2 powi (- 1074)" by (rule power_int_increasing) simp_all
    ultimately show ?thesis by linarith
  next
    assume "\<exists>r. not_negative r \<and> is_dbl r \<and> Fin x = ext_add w r"
    then show ?thesis using ext_add_range [OF w _ wd] assms(3) by metis
  qed
qed

text \<open>C40: The scaling loops of the floating-point conversion end: every double, zero,
  infinite and not-a-number included, gives a text, or the error of a missing buffer.\<close>

theorem convert_float_returns:
  assumes "is_dbl a"
  shows "convert_float info xtype fl a p \<noteq> None"
proof -
  obtain prefix prec rounder v where f: "float_prepare xtype fl a = (prefix, prec, rounder, v)"
    by (metis prod_cases4)
  have "normalize v \<noteq> None" if "fp_less (Fin 0) v"
  proof (cases v)
    case (Fin x)
    with that have "0 < x" by simp
    from float_prepare_value [OF assms f [unfolded Fin] this] show ?thesis
      unfolding Fin by (rule normalize_returns)
  next
    case PInf
    then show ?thesis by (simp add: normalize_infinite)
  qed (use that in simp_all)
  then show ?thesis by (auto simp: convert_float_def f split: option.splits)
qed

theorem convert_float_returns_witness:
  "convert_float (et_entry (CHR ''f'', 0, 1, etFLOAT, 0, 0)) etFLOAT no_flags (Fin 1)
    (sqlite3StrAccumInit Some None 0 30) \<noteq> None"
proof (rule convert_float_returns)
  have "(2 :: rat) powi (- 1074) \<le> 2 powi 0" by (rule power_int_increasing) simp_all
  then show "is_dbl (Fin 1)" by (simp add: is_dbl_def)
qed

end
