(* ===== verification/Spec2Isabelle.thy ===== *)
theory Spec2Isabelle
  imports Identifier_Splitting Swap_Checker Clang_Plugin Python_Ext Sq_Varint Sq_Arith Sq_Text Sq_Atoi Sq_Complete Sq_Bitvec Sq_RowSet Sq_Hash Sq_Random Sq_Utf Sq_Like Sq_Printf
begin

text \<open>
  A verification library for swap-detector, a program that finds calls whose arguments are
  in each other's place, and for the parts of the database engine in its source tree that
  can be modelled on their own. Paths are those of the repository under \<^verbatim>\<open>src/\<close>.

  \<^bold>\<open>The program.\<close> A front end (the Clang plugin in \<^verbatim>\<open>clang_plugin\<close>, the Python
  extension in \<^verbatim>\<open>python\<close>) turns a call into a \<open>CallSite\<close>: the names of the
  callee, of its parameters and of the arguments. \<open>Checker.CheckSite\<close>
  (\<^verbatim>\<open>src/SwappedArgChecker.cpp\<close>) splits the names into morphemes
  (\<^verbatim>\<open>src/IdentifierSplitting.cpp\<close>), goes through all pairs of positions, and runs
  two checks on each: the cover-based check compares the morphemes of the arguments with
  those of the parameters; the statistics-based check asks a database how often a morpheme
  was seen at a position of the callee. The database is an SQLite file, and
  \<^verbatim>\<open>src/sqlite3.c\<close> is the amalgamated engine that reads it.

  \<^bold>\<open>Theories and code.\<close>
  \<^item> \<open>Prelude\<close>: faults as values (\<open>result\<close>), C strings, the order of
    \<^verbatim>\<open>std::string\<close>, the rule collections. \<open>Binary32\<close>: the C++ type
    \<^verbatim>\<open>float\<close>. \<open>Ordered_Set\<close>: \<^verbatim>\<open>std::set\<close> with its interface locale.
  \<^item> \<open>Identifier_Splitting\<close>: \<open>IdentifierSplitter::split\<close>; it refines
    \<open>words_of\<close>, and splitting the joined words gives them back.
  \<^item> \<open>Call_Model\<close>: the data of \<^verbatim>\<open>include/SwappedArgChecker.hpp\<close>.
    \<open>Statistics_DB\<close>: the class \<open>Statistics\<close>; what a query yields is a parameter.
  \<^item> \<open>Pairwise\<close>: \<open>pairwise_combinations\<close> with \<^verbatim>\<open>std::prev_permutation\<close>
    written out; every pair of positions comes once, in lexicographic order.
  \<^item> \<open>Cover_Check\<close>, \<open>Stats_Check\<close>: the two checks, each with the condition
    under which it reports; \<open>Swap_Checker\<close>: the constructor and \<open>CheckSite\<close>,
    which never fault on valid statistics and non-empty last names, report well-formed
    results in order, find a swapped call and are silent on a matching one.
  \<^item> \<open>Clang_Plugin\<close>: \<open>exprName\<close>, \<open>checkPreCall\<close> and
    \<open>evalCall\<close> over the view of the AST that they use; \<open>Python_Ext\<close>:
    \<open>PyOwnedObject\<close> over a heap of reference counts, and \<open>check_call\<close>.
  \<^item> \<open>Sq_Base\<close>: words, memory and bit rules for \<^verbatim>\<open>src/sqlite3.c\<close>;
    \<open>Sq_Varint\<close> (util.c: variable-length integers), \<open>Sq_Arith\<close> (util.c: checked
    arithmetic, LogEst), \<open>Sq_Text\<close> (global.c, util.c: character tables, names,
    quoting), \<open>Sq_Atoi\<close> and \<open>Sq_AtoF\<close> (util.c: text to numbers, the latter over
    \<open>Sq_Double\<close>, the types \<^verbatim>\<open>double\<close> and \<^verbatim>\<open>long double\<close>),
    \<open>Sq_Printf\<close> (printf.c), \<open>Sq_Complete\<close> (complete.c), \<open>Sq_Bitvec\<close>
    (bitvec.c), \<open>Sq_RowSet\<close> (rowset.c), \<open>Sq_Hash\<close> (hash.c), \<open>Sq_Random\<close>
    (random.c), \<open>Sq_Utf\<close> (utf.c and the buffers of vdbemem.c), \<open>Sq_Like\<close> (the
    matcher of func.c).

  \<^bold>\<open>How state and errors appear.\<close> A class or struct is a record, a function that
  changes it returns it changed. A failed assertion, an empty optional, an index out of
  range or a null string is an \<open>Inl\<close> of \<open>fault\<close> in the C++ parts; in the engine
  a read or write outside its buffer is \<open>None\<close>. Where the code walks pointers, memory
  is a function from addresses (\<open>Sq_Varint\<close>, \<open>Sq_Hash\<close>), or the pointer is an
  offset or the rest of the text. Fixed-width integers wrap where the code lets them; where
  the model uses unbounded integers its theory says which bound makes this exact.

  \<^bold>\<open>Interfaces.\<close> The locales state what a client relies on: \<open>morpheme_set\<close>,
  the ordered set of the checks (\<open>Ordered_Set\<close>); \<open>weight_source\<close>, the statistics
  a check asks (\<open>Statistics_DB\<close>); \<open>stats_checker\<close>, which extends it with the
  queries of the two checks (\<open>Cover_Check\<close>). Each is interpreted on the model's own
  definitions in the theory that provides them.

  \<^bold>\<open>What the groups of lemmas show.\<close> Refinements: \<open>split\<close> to words, the state
  machine of \<open>sqlite3_complete\<close> to a grammar of statements, bitmaps, row sets and hash
  tables to sets and maps over any sequence of operations, the translation of text to code
  points. Equivalences: optimised against plain routines (the varint readers, the nested
  loops of the statistics check, the matcher against the meaning of its pattern). Round
  trips: varints, quoting and \<open>%Q\<close>, printed integers, words. Safety and bounds: no
  fault in \<open>CheckSite\<close>, buffers never exceeded (translation, formatted output), checked
  arithmetic. Errors: the paths on which the code does fail, with the inputs that reach
  them.

  \<^bold>\<open>Bounds and fuel.\<close> A bitmap nests at most nine deep: each level divides the size by
  the number of children, so nine levels of fuel suffice for a 32-bit size. The row set
  sorts with forty buckets, enough for fewer than 2^40 entries. The loops that bring a
  number below ten have 600 and 64 steps of fuel (\<open>scale_down\<close>); each step multiplies
  by at least four and a positive double is at least 2^-1074, so they end
  (\<open>convert_float_returns\<close>). All other loops are total functions with a measure.

  \<^bold>\<open>Not modelled.\<close> The statistics test helpers, the drivers and tests (test code), the
  registration of the plugin (calls into Clang only), the type and module tables of the
  Python extension (they fill structures of the C API). Of \<^verbatim>\<open>src/sqlite3.c\<close>, which
  is third-party code kept in the repository, everything outside the routines named above:
  the pager, the B-tree, the virtual machine, the parser and code generator and the
  operating system layer, and the declarations of \<^verbatim>\<open>src/sqlite3.h\<close>. Within the
  modelled files: the arguments that SQL passes to \<^verbatim>\<open>printf()\<close>, the store of
  \<^verbatim>\<open>%n\<close>, the debug routines, and the routines that only free memory.
\<close>

end
